(* ===== verification/Siv_Prelude.thy ===== *)
theory Siv_Prelude
  imports "HOL-Library.Word"
begin

section \<open>Shared types, byte encodings and list lemmas\<close>

text \<open>
  What every component theory uses: names for the machine types, the little-endian
  conversions of Rust's \<open>from_le_bytes\<close> and \<open>to_le_bytes\<close>, slicing and
  \<open>copy_from_slice\<close>, constant-time equality, the fallible allocator, and the
  generic lemmas about lists and words.  Fixed-size arrays \<open>[u8; N]\<close> are byte lists
  whose length is a hypothesis of the lemmas; a panic is \<open>None\<close>.
\<close>

unbundle bit_operations_syntax

type_synonym u8 = "8 word"
type_synonym u32 = "32 word"
type_synonym u64 = "64 word"
type_synonym bytes = "u8 list"

named_theorems len_simps \<open>lengths of the buffers the operations produce\<close>

subsection \<open>Panics\<close>

text \<open>
  A function that can panic (a failed \<open>assert!\<close>, an index out of range) returns an
  option: \<open>None\<close> is the panic.  \<open>assert_that\<close> is the assertion.
\<close>

definition assert_that :: "bool \<Rightarrow> unit option" where
  "assert_that b = (if b then Some () else None)"

lemma assert_that_simps [simp]:
  "assert_that True = Some ()"
  "assert_that False = None"
  by (simp_all add: assert_that_def)

lemma assert_that_Some_iff [simp]: "assert_that b = Some u \<longleftrightarrow> b"
  by (simp add: assert_that_def)

subsection \<open>Little-endian words\<close>

fun le_word :: "bytes \<Rightarrow> 'a::len word" where
  "le_word [] = 0"
| "le_word (b # bs) = ucast b OR push_bit 8 (le_word bs)"

fun le_bytes :: "nat \<Rightarrow> 'a::len word \<Rightarrow> bytes" where
  "le_bytes 0 w = []"
| "le_bytes (Suc n) w = ucast w # le_bytes n (drop_bit 8 w)"

text \<open>\<open>u32::to_le_bytes\<close>, and the word arrays read from and written to byte buffers.\<close>

abbreviation u32_bytes :: "u32 \<Rightarrow> bytes" where
  "u32_bytes \<equiv> le_bytes 4"

abbreviation u64_bytes :: "u64 \<Rightarrow> bytes" where
  "u64_bytes \<equiv> le_bytes 8"

definition le_words :: "nat \<Rightarrow> bytes \<Rightarrow> u32 list" where
  "le_words n bs = map (\<lambda>i. le_word (take 4 (drop (4 * i) bs))) [0..<n]"

definition words_bytes :: "u32 list \<Rightarrow> bytes" where
  "words_bytes ws = concat (map u32_bytes ws)"

lemma length_le_bytes [simp, len_simps]: "length (le_bytes n w) = n"
  by (induction n arbitrary: w) auto

lemma length_le_words [simp, len_simps]: "length (le_words n bs) = n"
  by (simp add: le_words_def)

lemma length_words_bytes [simp, len_simps]: "length (words_bytes ws) = 4 * length ws"
  by (induction ws) (auto simp: words_bytes_def)

lemma words_bytes_append [simp]: "words_bytes (xs @ ys) = words_bytes xs @ words_bytes ys"
  by (simp add: words_bytes_def)

lemma words_bytes_Cons [simp]: "words_bytes (w # ws) = u32_bytes w @ words_bytes ws"
  by (simp add: words_bytes_def)

lemma words_bytes_Nil [simp]: "words_bytes [] = []"
  by (simp add: words_bytes_def)

lemma le_word_le_bytes: "le_word (le_bytes n w) = take_bit (8 * n) w"
proof (induction n arbitrary: w)
  case 0
  then show ?case by simp
next
  case (Suc n)
  have "(ucast (ucast w :: u8) :: 'a word) OR push_bit 8 (take_bit (8 * n) (drop_bit 8 w))
      = take_bit (8 + 8 * n) w"
    by (rule bit_word_eqI) (auto simp: bit_simps)
  with Suc show ?case by simp
qed

lemma le_word_u32_bytes [simp]: "le_word (u32_bytes w) = (w :: u32)"
  by (simp add: le_word_le_bytes take_bit_word_eq_self)

lemma le_word_u64_bytes [simp]: "le_word (u64_bytes w) = (w :: u64)"
  by (simp add: le_word_le_bytes take_bit_word_eq_self)

lemma le_bytes_le_word:
  "8 * length bs \<le> LENGTH('a) \<Longrightarrow> le_bytes (length bs) (le_word bs :: 'a::len word) = bs"
proof (induction bs)
  case Nil
  then show ?case by simp
next
  case (Cons b bs)
  have "ucast ((ucast b OR push_bit 8 (le_word bs)) :: 'a word) = b"
    by (rule bit_word_eqI) (use Cons.prems in \<open>auto simp: bit_simps\<close>)
  moreover have "drop_bit 8 ((ucast b OR push_bit 8 (le_word bs)) :: 'a word)
      = take_bit (LENGTH('a) - 8) (le_word bs)"
    by (rule bit_word_eqI) (auto simp: bit_simps dest: bit_imp_le_length)
  moreover have "take_bit (LENGTH('a) - 8) (le_word bs :: 'a word) = le_word bs"
  proof -
    have "take_bit (8 * length bs) (le_word bs :: 'a word) = le_word bs"
      using Cons by (metis le_word_le_bytes add_leD2 length_Cons mult_Suc_right)
    then show ?thesis
      using Cons.prems
      by (metis (no_types, lifting) add_le_imp_le_diff length_Cons min.absorb2 mult_Suc_right take_bit_take_bit
          add.commute)
  qed
  ultimately show ?case
    using Cons by simp
qed

lemma u32_bytes_inject [simp]: "u32_bytes v = u32_bytes w \<longleftrightarrow> v = w"
  by (metis le_word_u32_bytes)

lemma u64_bytes_inject [simp]: "u64_bytes v = u64_bytes w \<longleftrightarrow> v = w"
  by (metis le_word_u64_bytes)

lemma words_bytes_inject:
  "length vs = length ws \<Longrightarrow> words_bytes vs = words_bytes ws \<longleftrightarrow> vs = ws"
  by (induction vs ws rule: list_induct2) auto

lemma le_words_0 [simp]: "le_words 0 bs = []"
  by (simp add: le_words_def)

lemma le_words_Suc: "le_words (Suc n) bs = le_word (take 4 bs) # le_words n (drop 4 bs)"
  by (simp add: le_words_def upt_conv_Cons del: upt_Suc)
     (simp add: map_Suc_upt [symmetric] del: upt_Suc map_Suc_upt, simp add: add.commute)

lemma le_words_words_bytes [simp]: "length ws = n \<Longrightarrow> le_words n (words_bytes ws) = ws"
  by (induction ws arbitrary: n) (auto simp: le_words_Suc)

lemma words_bytes_le_words: "length bs = 4 * n \<Longrightarrow> words_bytes (le_words n bs) = bs"
proof (induction n arbitrary: bs)
  case 0
  then show ?case by simp
next
  case (Suc n)
  have "le_bytes (length (take 4 bs)) (le_word (take 4 bs) :: u32) = take 4 bs"
    by (rule le_bytes_le_word) (use Suc.prems in simp)
  with Suc show ?case by (simp add: le_words_Suc)
qed

subsection \<open>Rotations of 32-bit words\<close>

text \<open>\<open>u32::rotate_left\<close> and \<open>u32::rotate_right\<close>; the vector code writes them as two shifts.\<close>

definition rotate_left :: "u32 \<Rightarrow> nat \<Rightarrow> u32" where
  "rotate_left w n = word_rotl n w"

definition rotate_right :: "u32 \<Rightarrow> nat \<Rightarrow> u32" where
  "rotate_right w n = word_rotr n w"

lemma rotate_left_shifts:
  assumes "n + k = 32" and "0 < k"
  shows "rotate_left w n = push_bit n w OR drop_bit k w"
  unfolding rotate_left_def
proof (rule bit_word_eqI)
  fix m assume m: "m < LENGTH(32)"
  have k: "32 - n mod 32 = k" using assms by auto
  have *: "bit (word_rotl n w) m = bit w ((m + k) mod 32)"
    using m by (simp add: bit_word_rotl_iff k)
  show "bit (word_rotl n w) m = bit (push_bit n w OR drop_bit k w) m"
  proof (cases "m < n")
    case True
    then have "(m + k) mod 32 = k + m" using assms by simp
    with True m show ?thesis unfolding * by (simp add: bit_simps)
  next
    case False
    then obtain d where d: "m = n + d" using le_Suc_ex not_less by blast
    then have "(m + k) mod 32 = (d + 32) mod 32" using assms by (simp add: algebra_simps)
    also have "\<dots> = d" using d m by simp
    finally have "(m + k) mod 32 = d" .
    moreover have "\<not> bit w (k + m)" using d assms by (auto dest: bit_imp_le_length)
    ultimately show ?thesis using d m unfolding * by (simp add: bit_simps)
  qed
qed

lemma rotate_right_shifts:
  assumes "n + k = 32" and "0 < k" and "0 < n"
  shows "rotate_right w n = drop_bit n w OR push_bit k w"
proof -
  have "rotate_right w n = rotate_left w k"
    using assms by (simp add: rotate_right_def rotate_left_def word_rotl_eq_word_rotr)
      (metis add_diff_cancel_right' mod_less less_add_same_cancel2)
  then show ?thesis
    using rotate_left_shifts [of k n w] assms by (simp add: add.commute or.commute)
qed

subsection \<open>Slices\<close>

text \<open>\<open>&xs[i..j]\<close>, and \<open>dst[off..off + src.len()].copy_from_slice(src)\<close>.\<close>

definition subslice :: "nat \<Rightarrow> nat \<Rightarrow> 'a list \<Rightarrow> 'a list" where
  "subslice i j xs = take (j - i) (drop i xs)"

definition put_slice :: "nat \<Rightarrow> 'a list \<Rightarrow> 'a list \<Rightarrow> 'a list" where
  "put_slice off src dst = take off dst @ src @ drop (off + length src) dst"

lemma length_subslice [simp, len_simps]: "j \<le> length xs \<Longrightarrow> length (subslice i j xs) = j - i"
  by (simp add: subslice_def)

lemma length_put_slice [simp, len_simps]:
  "off + length src \<le> length dst \<Longrightarrow> length (put_slice off src dst) = length dst"
  by (simp add: put_slice_def)

lemma put_slice_at_end [simp]: "put_slice (length xs) ys (xs @ zs) = xs @ ys @ drop (length ys) zs"
  by (simp add: put_slice_def)

lemma nth_put_slice:
  "off + length src \<le> length dst \<Longrightarrow> i < length dst \<Longrightarrow>
   put_slice off src dst ! i
     = (if off \<le> i \<and> i < off + length src then src ! (i - off) else dst ! i)"
  by (auto simp: put_slice_def nth_append min_def)

lemma subslice_4:
  "m = n + 4 \<Longrightarrow> m \<le> length xs \<Longrightarrow>
   subslice n m xs = [xs ! n, xs ! (n + 1), xs ! (n + 2), xs ! (n + 3)]"
  unfolding subslice_def by (rule nth_equalityI) (auto simp: nth_Cons' less_Suc_eq numeral_eq_Suc)

lemma list_16: "length s = 16 \<Longrightarrow> s = [s ! 0, s ! 1, s ! 2, s ! 3, s ! 4, s ! 5, s ! 6, s ! 7,
    s ! 8, s ! 9, s ! 10, s ! 11, s ! 12, s ! 13, s ! 14, s ! 15]"
  by (simp add: list_eq_iff_nth_eq) (simp add: less_Suc_eq numeral_eq_Suc)

subsection \<open>Exclusive or of byte strings, constant-time equality\<close>

definition xor_bytes :: "bytes \<Rightarrow> bytes \<Rightarrow> bytes" where
  "xor_bytes xs ys = map2 (XOR) xs ys"

lemma length_xor_bytes [simp, len_simps]:
  "length (xor_bytes xs ys) = min (length xs) (length ys)"
  by (simp add: xor_bytes_def)

lemma nth_xor_bytes:
  "i < length xs \<Longrightarrow> i < length ys \<Longrightarrow> xor_bytes xs ys ! i = xs ! i XOR ys ! i"
  by (simp add: xor_bytes_def)

lemma xor_bytes_cancel: "length xs \<le> length ks \<Longrightarrow> xor_bytes (xor_bytes xs ks) ks = xs"
  by (rule nth_equalityI) (auto simp: nth_xor_bytes min_def xor.assoc)

text \<open>
  \<open>subtle::ConstantTimeEq::ct_eq\<close> on byte slices: false on different lengths, otherwise
  the accumulated difference of all bytes is zero.  Only its value is modelled.
\<close>

definition ct_eq :: "bytes \<Rightarrow> bytes \<Rightarrow> bool" where
  "ct_eq xs ys = (length xs = length ys \<and> fold (\<lambda>(x, y) acc. acc OR (x XOR y)) (zip xs ys) 0 = 0)"

lemma word_or_eq_0_iff: "(a :: 'a::len word) OR b = 0 \<longleftrightarrow> a = 0 \<and> b = 0"
  by (auto simp: bit_eq_iff bit_or_iff)

lemma word_xor_eq_0_iff: "(a :: 'a::len word) XOR b = 0 \<longleftrightarrow> a = b"
  by (auto simp: bit_eq_iff bit_xor_iff)

lemma fold_or_xor_eq_0:
  "fold (\<lambda>(x, y) acc. acc OR (x XOR y)) ps (a :: 'a::len word) = 0
     \<longleftrightarrow> a = 0 \<and> (\<forall>(x, y) \<in> set ps. x = y)"
  by (induction ps arbitrary: a) (auto simp: word_or_eq_0_iff word_xor_eq_0_iff)

lemma ct_eq_iff [simp]: "ct_eq xs ys \<longleftrightarrow> xs = ys"
  by (auto simp: ct_eq_def fold_or_xor_eq_0 list_eq_iff_zip_eq)

subsection \<open>The fallible allocator\<close>

text \<open>
  The global allocator is not part of the program: an \<open>allocator\<close> answers whether the
  \<open>k\<close>-th request succeeds for \<open>n\<close> bytes.  \<open>Vec::try_reserve_exact(n)\<close> on an empty
  vector asks for nothing when \<open>n\<close> is zero and refuses a capacity above
  \<open>isize::MAX\<close>; the request counter is threaded through the calls.
\<close>

type_synonym allocator = "nat \<Rightarrow> nat \<Rightarrow> bool"

definition isize_max :: nat where
  "isize_max = 2 ^ 63 - 1"

definition try_reserve_exact :: "allocator \<Rightarrow> nat \<Rightarrow> nat \<Rightarrow> bool \<times> nat" where
  "try_reserve_exact al k n =
     (if n = 0 then (True, k) else if isize_max < n then (False, k) else (al k n, Suc k))"

lemma try_reserve_exact_generous:
  "\<forall>k n. al k n \<Longrightarrow> n \<le> isize_max \<Longrightarrow> fst (try_reserve_exact al k n)"
  by (simp add: try_reserve_exact_def)

subsection \<open>Wiped buffers\<close>

text \<open>
  What a volatile wipe leaves of a buffer, and the buffers a function leaves behind when it
  returns (its \<open>residue\<close>): all of them should hold zeros only.
\<close>

definition wiped :: "bytes \<Rightarrow> bytes" where
  "wiped xs = replicate (length xs) 0"

definition all_zero :: "'a::zero list \<Rightarrow> bool" where
  "all_zero xs \<longleftrightarrow> (\<forall>x \<in> set xs. x = 0)"

lemma all_zero_simps [simp]:
  "all_zero []" "all_zero (x # xs) \<longleftrightarrow> x = 0 \<and> all_zero xs"
  "all_zero (xs @ ys) \<longleftrightarrow> all_zero xs \<and> all_zero ys" "all_zero (replicate n 0)"
  by (auto simp: all_zero_def)

lemma all_zero_wiped [simp]: "all_zero (wiped xs)"
  by (simp add: wiped_def)

lemma all_zero_words_bytes: "all_zero ws \<Longrightarrow> all_zero (words_bytes ws)"
  by (induction ws) (simp_all add: numeral_eq_Suc)

definition clean :: "bytes list \<Rightarrow> bool" where
  "clean res \<longleftrightarrow> (\<forall>r \<in> set res. all_zero r)"

lemma clean_simps [simp]:
  "clean []" "clean (r # rs) \<longleftrightarrow> all_zero r \<and> clean rs" "clean (rs @ rs') \<longleftrightarrow> clean rs \<and> clean rs'"
  by (auto simp: clean_def)

subsection \<open>Splitting a list into blocks\<close>

text \<open>
  \<open>chunks_exact(n)\<close> yields the whole blocks, \<open>remainder\<close> what is left;
  \<open>chunks_mut(n)\<close> yields a short last block as well.
\<close>

function chunks_exact :: "nat \<Rightarrow> 'a list \<Rightarrow> 'a list list" where
  "chunks_exact n xs =
     (if n = 0 \<or> length xs < n then [] else take n xs # chunks_exact n (drop n xs))"
  by pat_completeness auto
termination
  by (relation "measure (\<lambda>(n, xs). length xs)") auto

declare chunks_exact.simps [simp del]

definition remainder :: "nat \<Rightarrow> 'a list \<Rightarrow> 'a list" where
  "remainder n xs = drop (n * (length xs div n)) xs"

lemma chunks_exact_short [simp]: "length xs < n \<Longrightarrow> chunks_exact n xs = []"
  by (simp add: chunks_exact.simps)

lemma chunks_exact_append:
  "0 < n \<Longrightarrow> length xs = n \<Longrightarrow> chunks_exact n (xs @ ys) = xs # chunks_exact n ys"
  by (subst chunks_exact.simps) simp

lemma chunks_exact_concat:
  "0 < n \<Longrightarrow> \<forall>x \<in> set xss. length x = n \<Longrightarrow> length ys < n \<Longrightarrow> chunks_exact n (concat xss @ ys) = xss"
  by (induction xss) (auto simp: chunks_exact_append)

lemma length_concat_uniform: "\<forall>x \<in> set xss. length x = n \<Longrightarrow> length (concat xss) = n * length xss"
  by (induction xss) auto

lemma remainder_concat:
  "0 < n \<Longrightarrow> \<forall>x \<in> set xss. length x = n \<Longrightarrow> length ys < n \<Longrightarrow> remainder n (concat xss @ ys) = ys"
  using length_concat_uniform [of xss n] by (simp add: remainder_def)

lemma nth_concat_uniform:
  "\<forall>x \<in> set xss. length x = n \<Longrightarrow> 0 < n \<Longrightarrow> i < n * length xss \<Longrightarrow>
   concat xss ! i = xss ! (i div n) ! (i mod n)"
proof (induction xss arbitrary: i)
  case Nil
  then show ?case by simp
next
  case (Cons x xss)
  then show ?case
    by (cases "i < n") (auto simp: nth_append le_div_geq le_mod_geq)
qed

text \<open>Byte \<open>i\<close> of a stream made of 64-byte blocks is byte \<open>i mod 64\<close> of block \<open>i div 64\<close>.\<close>

definition block_stream :: "(nat \<Rightarrow> bytes) \<Rightarrow> nat \<Rightarrow> bytes" where
  "block_stream f n = map (\<lambda>i. f (i div 64) ! (i mod 64)) [0..<n]"

lemma length_block_stream [simp, len_simps]: "length (block_stream f n) = n"
  by (simp add: block_stream_def)

lemma nth_block_stream: "i < n \<Longrightarrow> block_stream f n ! i = f (i div 64) ! (i mod 64)"
  by (simp add: block_stream_def)

lemma take_block_stream: "m \<le> n \<Longrightarrow> take m (block_stream f n) = block_stream f m"
  by (simp add: block_stream_def take_map)

lemma block_stream_whole:
  "(\<And>i. length (f i) = 64) \<Longrightarrow> concat (map f [0..<n]) = block_stream f (64 * n)"
  by (rule nth_equalityI)
    (auto simp: nth_block_stream length_concat comp_def sum_list_triv less_mult_imp_div_less mult.commute
      nth_concat_uniform [where n = 64])

lemma block_stream_cong: "(\<And>i. f i = f' i) \<Longrightarrow> block_stream f n = block_stream f' n"
  by (simp add: block_stream_def)

lemma funpow_invariant: "P x \<Longrightarrow> (\<And>y. P y \<Longrightarrow> P (f y)) \<Longrightarrow> P ((f ^^ n) x)"
  by (induction n) auto

lemma funpow_commute_with:
  assumes "P x" and "\<And>y. P y \<Longrightarrow> P (f y)" and "\<And>y. P y \<Longrightarrow> h (f y) = g (h y)"
  shows "h ((f ^^ n) x) = (g ^^ n) (h x)"
proof (induction n)
  case 0
  then show ?case by simp
next
  case (Suc n)
  have "P ((f ^^ n) x)" by (rule funpow_invariant [where P = P]) (fact assms)+
  with Suc show ?case by (simp add: assms(3))
qed

end
