(* ===== verification/ChaCha.thy ===== *)
theory ChaCha
  imports Siv_Prelude
begin

section \<open>The scalar ChaCha20 block and HChaCha20\<close>

text \<open>
  The portable cipher core of \<open>src/lib.rs\<close>: \<open>qr\<close>, \<open>chacha20_rounds\<close>,
  \<open>chacha20_block_into\<close>, \<open>chacha20_state_words\<close> and \<open>hchacha20_into\<close>.  The
  \<open>out\<close> buffer of the source is overwritten completely, so it is the result here; the
  working state is a list of sixteen words.
\<close>

definition qr :: "u32 \<Rightarrow> u32 \<Rightarrow> u32 \<Rightarrow> u32 \<Rightarrow> u32 \<times> u32 \<times> u32 \<times> u32" where
  "qr a b c d =
     (let a = a + b;
          d = rotate_left (d XOR a) 16;
          c = c + d;
          b = rotate_left (b XOR c) 12;
          a = a + b;
          d = rotate_left (d XOR a) 8;
          c = c + d;
          b = rotate_left (b XOR c) 7
      in (a, b, c, d))"

text \<open>One \<open>let (a, b, c, d) = qr(s[i], s[j], s[k], s[l]);\<close> with its four stores.\<close>

definition qr_at :: "u32 list \<Rightarrow> nat \<Rightarrow> nat \<Rightarrow> nat \<Rightarrow> nat \<Rightarrow> u32 list" where
  "qr_at s i j k l =
     (case qr (s ! i) (s ! j) (s ! k) (s ! l) of
        (a, b, c, d) \<Rightarrow> s[i := a, j := b, k := c, l := d])"

definition chacha20_double_round :: "u32 list \<Rightarrow> u32 list" where
  "chacha20_double_round s0 =
     (let s = qr_at s0 0 4 8 12;
          s = qr_at s 1 5 9 13;
          s = qr_at s 2 6 10 14;
          s = qr_at s 3 7 11 15;
          s = qr_at s 0 5 10 15;
          s = qr_at s 1 6 11 12;
          s = qr_at s 2 7 8 13;
          s = qr_at s 3 4 9 14
      in s)"

definition chacha20_rounds :: "u32 list \<Rightarrow> u32 list" where
  "chacha20_rounds s = (chacha20_double_round ^^ 10) s"

definition CHACHA_CONST :: "u32 list" where
  "CHACHA_CONST = [0x61707865, 0x3320646e, 0x79622d32, 0x6b206574]"

definition block_state :: "bytes \<Rightarrow> u32 \<Rightarrow> bytes \<Rightarrow> u32 list" where
  "block_state key counter nonce =
     [CHACHA_CONST ! 0, CHACHA_CONST ! 1, CHACHA_CONST ! 2, CHACHA_CONST ! 3,
      le_word [key ! 0, key ! 1, key ! 2, key ! 3],
      le_word [key ! 4, key ! 5, key ! 6, key ! 7],
      le_word [key ! 8, key ! 9, key ! 10, key ! 11],
      le_word [key ! 12, key ! 13, key ! 14, key ! 15],
      le_word [key ! 16, key ! 17, key ! 18, key ! 19],
      le_word [key ! 20, key ! 21, key ! 22, key ! 23],
      le_word [key ! 24, key ! 25, key ! 26, key ! 27],
      le_word [key ! 28, key ! 29, key ! 30, key ! 31],
      counter,
      le_word [nonce ! 0, nonce ! 1, nonce ! 2, nonce ! 3],
      le_word [nonce ! 4, nonce ! 5, nonce ! 6, nonce ! 7],
      le_word [nonce ! 8, nonce ! 9, nonce ! 10, nonce ! 11]]"

definition chacha20_block_into :: "bytes \<Rightarrow> u32 \<Rightarrow> bytes \<Rightarrow> bytes" where
  "chacha20_block_into key counter nonce =
     (let orig = block_state key counter nonce;
          s = chacha20_rounds orig
      in concat (map (\<lambda>i. u32_bytes (s ! i + orig ! i)) [0..<16]))"

text \<open>The state as the SIMD kernels build it, with loops over the key and nonce words.\<close>

definition chacha20_state_words :: "bytes \<Rightarrow> u32 \<Rightarrow> bytes \<Rightarrow> u32 list" where
  "chacha20_state_words key counter nonce =
     [0x61707865, 0x3320646e, 0x79622d32, 0x6b206574]
     @ map (\<lambda>i. le_word (subslice (i * 4) (i * 4 + 4) key)) [0..<8]
     @ [counter]
     @ map (\<lambda>i. le_word (subslice (i * 4) (i * 4 + 4) nonce)) [0..<3]"

definition hchacha20_into :: "bytes \<Rightarrow> bytes \<Rightarrow> bytes" where
  "hchacha20_into key nonce =
     (let s = [CHACHA_CONST ! 0, CHACHA_CONST ! 1, CHACHA_CONST ! 2, CHACHA_CONST ! 3,
               le_word [key ! 0, key ! 1, key ! 2, key ! 3],
               le_word [key ! 4, key ! 5, key ! 6, key ! 7],
               le_word [key ! 8, key ! 9, key ! 10, key ! 11],
               le_word [key ! 12, key ! 13, key ! 14, key ! 15],
               le_word [key ! 16, key ! 17, key ! 18, key ! 19],
               le_word [key ! 20, key ! 21, key ! 22, key ! 23],
               le_word [key ! 24, key ! 25, key ! 26, key ! 27],
               le_word [key ! 28, key ! 29, key ! 30, key ! 31],
               le_word [nonce ! 0, nonce ! 1, nonce ! 2, nonce ! 3],
               le_word [nonce ! 4, nonce ! 5, nonce ! 6, nonce ! 7],
               le_word [nonce ! 8, nonce ! 9, nonce ! 10, nonce ! 11],
               le_word [nonce ! 12, nonce ! 13, nonce ! 14, nonce ! 15]];
          s = chacha20_rounds s
      in concat (map (\<lambda>idx. u32_bytes (s ! idx)) [0, 1, 2, 3, 12, 13, 14, 15]))"

subsection \<open>Lengths\<close>

lemma length_qr_at [simp, len_simps]: "length (qr_at s i j k l) = length s"
  by (simp add: qr_at_def split: prod.split)

lemma length_double_round [simp, len_simps]: "length (chacha20_double_round s) = length s"
  by (simp add: chacha20_double_round_def)

lemma length_rounds [simp, len_simps]: "length (chacha20_rounds s) = length s"
  unfolding chacha20_rounds_def
  by (rule funpow_invariant [where P = "\<lambda>t. length t = length s"]) simp_all

lemma length_block_state [simp, len_simps]: "length (block_state key counter nonce) = 16"
  by (simp add: block_state_def)

lemma length_block_into [simp, len_simps]: "length (chacha20_block_into key counter nonce) = 64"
  by (simp add: chacha20_block_into_def Let_def length_concat comp_def sum_list_triv)

lemma length_hchacha20 [simp, len_simps]: "length (hchacha20_into key nonce) = 32"
  by (simp add: hchacha20_into_def Let_def)

lemma length_state_words [simp, len_simps]: "length (chacha20_state_words key counter nonce) = 16"
  by (simp add: chacha20_state_words_def)

subsection \<open>The block as the serialised sum of the state and its permutation\<close>

lemma block_into_words:
  "chacha20_block_into key counter nonce =
     words_bytes (map2 (+) (chacha20_rounds (block_state key counter nonce)) (block_state key counter nonce))"
proof -
  have "map2 (+) xs ys = map (\<lambda>i. xs ! i + ys ! i) [0..<16]"
    if "length xs = 16" "length ys = 16" for xs ys :: "u32 list"
    using that by (intro nth_equalityI) auto
  then show ?thesis
    by (simp add: chacha20_block_into_def Let_def words_bytes_def comp_def)
qed

subsection \<open>The quarter round as in-place updates\<close>

text \<open>
  The vector kernels and the witness update the state in place, one word at a time; eight
  such steps are the four stores of \<open>qr\<close>.
\<close>

definition step_add :: "nat \<Rightarrow> nat \<Rightarrow> u32 list \<Rightarrow> u32 list" where
  "step_add a b s = s[a := s ! a + s ! b]"

definition step_rot :: "nat \<Rightarrow> nat \<Rightarrow> nat \<Rightarrow> u32 list \<Rightarrow> u32 list" where
  "step_rot d a n s = s[d := rotate_left (s ! d XOR s ! a) n]"

lemma qr_at_in_place:
  assumes "length s = 16" "a < 16" "b < 16" "c < 16" "d < 16" "distinct [a, b, c, d]"
  shows "step_rot b c 7 (step_add c d (step_rot d a 8 (step_add a b
          (step_rot b c 12 (step_add c d (step_rot d a 16 (step_add a b s))))))) = qr_at s a b c d"
proof -
  define L where "L p q r t = s[a := p, b := q, c := r, d := t]" for p q r t
  have nth: "L p q r t ! a = p" "L p q r t ! b = q" "L p q r t ! c = r" "L p q r t ! d = t" for p q r t
    using assms by (simp_all add: L_def)
  have upd: "(L p q r t)[a := v] = L v q r t" "(L p q r t)[b := v] = L p v r t"
    "(L p q r t)[c := v] = L p q v t" "(L p q r t)[d := v] = L p q r v" for p q r t v
    using assms(6) unfolding L_def by (simp_all add: list_update_swap)
  have s: "s = L (s ! a) (s ! b) (s ! c) (s ! d)"
    by (simp add: L_def)
  obtain p q r t where v: "s ! a = p" "s ! b = q" "s ! c = r" "s ! d = t" by blast
  have "qr_at s a b c d = (case qr p q r t of (p, q, r, t) \<Rightarrow> L p q r t)"
    by (simp add: qr_at_def v L_def)
  moreover have "s = L p q r t" using s v by simp
  ultimately show ?thesis
    by (simp only: step_add_def step_rot_def nth upd qr_def Let_def prod.case)
qed

subsection \<open>The state words built by loops\<close>

lemma state_words_eq:
  "length key = 32 \<Longrightarrow> length nonce = 12 \<Longrightarrow>
   chacha20_state_words key counter nonce = block_state key counter nonce"
  by (simp add: chacha20_state_words_def block_state_def CHACHA_CONST_def upt_rec subslice_4 numeral_2_eq_2)

end
