(* ===== verification/Simd_Lanes.thy ===== *)
theory Simd_Lanes
  imports Siv_Prelude
begin

section \<open>Vector registers as lists of lanes\<close>

text \<open>
  A model of the \<open>core::arch\<close> intrinsics that the vector kernels of ChaCha20 and BLAKE3 call: a
  register is the list of its 32-bit lanes, lane 0 first.  Its lemmas relate the registers of a
  kernel to the scalar states that run in the lanes.
\<close>

type_synonym vec = "u32 list"

subsection \<open>Lane-wise intrinsics\<close>

text \<open>
  \<open>_mm_add_epi32\<close>, \<open>_mm256_add_epi32\<close>, \<open>vaddq_u32\<close> and the exclusive or, or,
  shift and broadcast intrinsics act on each lane; \<open>set1\<close> takes the number of lanes.
\<close>

definition vadd :: "vec \<Rightarrow> vec \<Rightarrow> vec" where "vadd u v = map2 (+) u v"
definition vxor :: "vec \<Rightarrow> vec \<Rightarrow> vec" where "vxor u v = map2 (XOR) u v"
definition vor :: "vec \<Rightarrow> vec \<Rightarrow> vec" where "vor u v = map2 (OR) u v"
definition vslli :: "nat \<Rightarrow> vec \<Rightarrow> vec" where "vslli n v = map (push_bit n) v"
definition vsrli :: "nat \<Rightarrow> vec \<Rightarrow> vec" where "vsrli n v = map (drop_bit n) v"
definition vset1 :: "nat \<Rightarrow> u32 \<Rightarrow> vec" where "vset1 lanes w = replicate lanes w"

text \<open>The store of a register writes its lanes in little-endian order.\<close>

definition vstore :: "vec \<Rightarrow> bytes" where "vstore v = words_bytes v"

text \<open>
  The interleaving intrinsics.  The 256-bit forms act on the two 128-bit halves
  separately; \<open>permute2x128\<close> with 0x20 takes the two low halves, with 0x31 the two high
  ones.
\<close>

definition unpacklo_epi32 :: "vec \<Rightarrow> vec \<Rightarrow> vec" where
  "unpacklo_epi32 a b = [a ! 0, b ! 0, a ! 1, b ! 1]"
definition unpackhi_epi32 :: "vec \<Rightarrow> vec \<Rightarrow> vec" where
  "unpackhi_epi32 a b = [a ! 2, b ! 2, a ! 3, b ! 3]"
definition unpacklo_epi64 :: "vec \<Rightarrow> vec \<Rightarrow> vec" where
  "unpacklo_epi64 a b = [a ! 0, a ! 1, b ! 0, b ! 1]"
definition unpackhi_epi64 :: "vec \<Rightarrow> vec \<Rightarrow> vec" where
  "unpackhi_epi64 a b = [a ! 2, a ! 3, b ! 2, b ! 3]"

definition on_halves :: "(vec \<Rightarrow> vec \<Rightarrow> vec) \<Rightarrow> vec \<Rightarrow> vec \<Rightarrow> vec" where
  "on_halves f a b = f (take 4 a) (take 4 b) @ f (drop 4 a) (drop 4 b)"

definition permute2x128 :: "nat \<Rightarrow> vec \<Rightarrow> vec \<Rightarrow> vec" where
  "permute2x128 imm a b =
     (if imm = 0x20 then take 4 a @ take 4 b else drop 4 a @ drop 4 b)"

subsection \<open>A lane of the vector state is a scalar state\<close>

definition lane :: "nat \<Rightarrow> vec list \<Rightarrow> u32 list" where
  "lane j x = map (\<lambda>v. v ! j) x"

lemma length_lane [simp, len_simps]: "length (lane j x) = length x"
  by (simp add: lane_def)

lemma nth_lane [simp]: "i < length x \<Longrightarrow> lane j x ! i = x ! i ! j"
  by (simp add: lane_def)

lemma lane_update: "lane j (x[i := v]) = (lane j x)[i := v ! j]"
  by (simp add: lane_def map_update)

lemma vec_lengths [simp, len_simps]:
  "length (vadd u v) = min (length u) (length v)"
  "length (vxor u v) = min (length u) (length v)"
  "length (vor u v) = min (length u) (length v)"
  "length (vslli n v) = length v"
  "length (vsrli n v) = length v"
  "length (vset1 n w) = n"
  by (simp_all add: vadd_def vxor_def vor_def vslli_def vsrli_def vset1_def)

lemma vec_nth [simp]:
  "j < length u \<Longrightarrow> j < length v \<Longrightarrow> vadd u v ! j = u ! j + v ! j"
  "j < length u \<Longrightarrow> j < length v \<Longrightarrow> vxor u v ! j = u ! j XOR v ! j"
  "j < length u \<Longrightarrow> j < length v \<Longrightarrow> vor u v ! j = u ! j OR v ! j"
  "j < length v \<Longrightarrow> vslli n v ! j = push_bit n (v ! j)"
  "j < length v \<Longrightarrow> vsrli n v ! j = drop_bit n (v ! j)"
  "j < n \<Longrightarrow> vset1 n w ! j = w"
  by (simp_all add: vadd_def vxor_def vor_def vslli_def vsrli_def vset1_def)

text \<open>Sixteen registers of equal width, and folds of updates of them.\<close>

definition vwf :: "nat \<Rightarrow> vec list \<Rightarrow> bool" where
  "vwf lanes x \<longleftrightarrow> length x = 16 \<and> (\<forall>v \<in> set x. length v = lanes)"

lemma vwf_nth: "vwf lanes x \<Longrightarrow> i < 16 \<Longrightarrow> length (x ! i) = lanes"
  by (auto simp: vwf_def)

lemma vwf_update: "vwf lanes x \<Longrightarrow> length v = lanes \<Longrightarrow> vwf lanes (x[i := v])"
  using set_update_subset_insert [of x i v] by (auto simp: vwf_def)

lemma vwf_length: "vwf lanes x \<Longrightarrow> length x = 16"
  by (simp add: vwf_def)

lemma fold_lane:
  assumes "\<And>q v. q \<in> set qs \<Longrightarrow> vwf lanes v \<Longrightarrow> vwf lanes (f q v) \<and> lane j (f q v) = g q (lane j v)"
    and "vwf lanes v"
  shows "vwf lanes (fold f qs v) \<and> lane j (fold f qs v) = fold g qs (lane j v)"
  using assms
proof (induction qs arbitrary: v)
  case (Cons q qs)
  then have "vwf lanes (f q v)" "lane j (f q v) = g q (lane j v)" by simp_all
  with Cons show ?case by simp
qed simp

subsection \<open>Lists of four, eight and sixteen\<close>

lemma words_bytes_concat: "concat (map words_bytes xss) = words_bytes (concat xss)"
  by (induction xss) auto

lemma upt_4: "[0..<4] = [0, 1, 2, 3]"
  by (simp add: upt_rec)

lemma upt_16: "[0..<16] = [0, 1, 2, 3, 4, 5, 6, 7, 8, 9, 10, 11, 12, 13, 14, 15]"
  by (simp add: upt_rec)

lemma upt_8: "[0..<8] = [0, 1, 2, 3, 4, 5, 6, 7]"
  by (simp add: upt_rec)

lemma lane_as_list: "length x = 16 \<Longrightarrow> lane j x = map (\<lambda>i. x ! i ! j) [0..<16]"
  by (rule nth_equalityI) simp_all

lemma on_halves_8:
  "length a = 8 \<Longrightarrow> length b = 8 \<Longrightarrow>
   on_halves f a b = f [a ! 0, a ! 1, a ! 2, a ! 3] [b ! 0, b ! 1, b ! 2, b ! 3]
     @ f [a ! 4, a ! 5, a ! 6, a ! 7] [b ! 4, b ! 5, b ! 6, b ! 7]"
proof -
  have "take 4 v = [v ! 0, v ! 1, v ! 2, v ! 3]" "drop 4 v = [v ! 4, v ! 5, v ! 6, v ! 7]"
    if "length v = 8" for v :: vec
    using that subslice_4 [of 4 0 v] subslice_4 [of 8 4 v]
    by (simp_all add: subslice_def numeral_2_eq_2)
  then show "length a = 8 \<Longrightarrow> length b = 8 \<Longrightarrow> ?thesis"
    by (simp add: on_halves_def)
qed

lemma subslice_quad:
  "length x = 16 \<Longrightarrow> k < 4 \<Longrightarrow> subslice (4 * k) (4 * k + 4) x
     = [x ! (4 * k), x ! (4 * k + 1), x ! (4 * k + 2), x ! (4 * k + 3)]"
  by (rule subslice_4) auto

lemma subslice_oct:
  assumes "length x = 16"
  shows "subslice 0 8 x = [x ! 0, x ! 1, x ! 2, x ! 3, x ! 4, x ! 5, x ! 6, x ! 7]"
    and "subslice 8 16 x = [x ! 8, x ! 9, x ! 10, x ! 11, x ! 12, x ! 13, x ! 14, x ! 15]"
proof -
  have "subslice 0 8 x = subslice 0 4 x @ subslice 4 8 x"
    "subslice 8 16 x = subslice 8 12 x @ subslice 12 16 x"
    using take_add [of 4 4 x] take_add [of 4 4 "drop 8 x"] by (simp_all add: subslice_def)
  then show "subslice 0 8 x = [x ! 0, x ! 1, x ! 2, x ! 3, x ! 4, x ! 5, x ! 6, x ! 7]"
    and "subslice 8 16 x = [x ! 8, x ! 9, x ! 10, x ! 11, x ! 12, x ! 13, x ! 14, x ! 15]"
    using subslice_quad [OF assms, of 0] subslice_quad [OF assms, of 1]
      subslice_quad [OF assms, of 2] subslice_quad [OF assms, of 3]
    by (simp_all add: numeral_2_eq_2)
qed

end
