(* ===== verification/ChaCha_Simd.thy ===== *)
theory ChaCha_Simd
  imports ChaCha Simd_Lanes
begin

section \<open>The vector ChaCha20 kernels\<close>

text \<open>
  \<open>x86_simd::blocks4\<close> (SSE2), \<open>x86_simd::blocks8\<close> (AVX2) and
  \<open>aarch64_simd::blocks4\<close> (NEON) of \<open>src/lib.rs\<close>, on the lanes of \<open>Simd_Lanes\<close>.  Each kernel is shown to produce the consecutive scalar blocks.
\<close>

subsection \<open>The quarter round macros \<open>qr128!\<close>, \<open>qr256!\<close> and \<open>qrq!\<close>\<close>

definition vrotl :: "nat \<Rightarrow> nat \<Rightarrow> vec \<Rightarrow> vec" where
  "vrotl l r v = vor (vslli l v) (vsrli r v)"

text \<open>\<open>$x[$a] = add($x[$a], $x[$b])\<close>, and \<open>$x[$d] = rotl!(xor($x[$d], $x[$a]), l, r)\<close>.\<close>

definition vqr_add :: "nat \<Rightarrow> nat \<Rightarrow> vec list \<Rightarrow> vec list" where
  "vqr_add a b x = x[a := vadd (x ! a) (x ! b)]"

definition vqr_rot :: "nat \<Rightarrow> nat \<Rightarrow> nat \<Rightarrow> nat \<Rightarrow> vec list \<Rightarrow> vec list" where
  "vqr_rot d a l r x = x[d := vrotl l r (vxor (x ! d) (x ! a))]"

definition vqr :: "vec list \<Rightarrow> nat \<Rightarrow> nat \<Rightarrow> nat \<Rightarrow> nat \<Rightarrow> vec list" where
  "vqr x0 a b c d =
     (let x = vqr_add a b x0;
          x = vqr_rot d a 16 16 x;
          x = vqr_add c d x;
          x = vqr_rot b c 12 20 x;
          x = vqr_add a b x;
          x = vqr_rot d a 8 24 x;
          x = vqr_add c d x;
          x = vqr_rot b c 7 25 x
      in x)"

definition vdouble_round :: "vec list \<Rightarrow> vec list" where
  "vdouble_round x0 =
     (let x = vqr x0 0 4 8 12;
          x = vqr x 1 5 9 13;
          x = vqr x 2 6 10 14;
          x = vqr x 3 7 11 15;
          x = vqr x 0 5 10 15;
          x = vqr x 1 6 11 12;
          x = vqr x 2 7 8 13;
          x = vqr x 3 4 9 14
      in x)"

subsection \<open>The kernels\<close>

definition transpose4x4 :: "vec list \<Rightarrow> vec list" where
  "transpose4x4 m =
     (let t0 = unpacklo_epi32 (m ! 0) (m ! 1);
          t1 = unpackhi_epi32 (m ! 0) (m ! 1);
          t2 = unpacklo_epi32 (m ! 2) (m ! 3);
          t3 = unpackhi_epi32 (m ! 2) (m ! 3)
      in [unpacklo_epi64 t0 t2, unpackhi_epi64 t0 t2, unpacklo_epi64 t1 t3, unpackhi_epi64 t1 t3])"

definition sse2_blocks4 :: "bytes \<Rightarrow> u32 \<Rightarrow> bytes \<Rightarrow> bytes" where
  "sse2_blocks4 key counter nonce =
     (let s = chacha20_state_words key counter nonce;
          x = map (vset1 4) s;
          x = x[12 := [counter, counter + 1, counter + 2, counter + 3]];
          orig = x;
          x = (vdouble_round ^^ 10) x;
          x = map2 vadd x orig;
          x = transpose4x4 (subslice 0 4 x) @ transpose4x4 (subslice 4 8 x)
              @ transpose4x4 (subslice 8 12 x) @ transpose4x4 (subslice 12 16 x)
      in concat (map (\<lambda>j. concat (map (\<lambda>i. vstore (x ! (i * 4 + j))) [0..<4])) [0..<4]))"

definition transpose8x8 :: "vec list \<Rightarrow> vec list" where
  "transpose8x8 m =
     (let t0 = on_halves unpacklo_epi32 (m ! 0) (m ! 1);
          t1 = on_halves unpackhi_epi32 (m ! 0) (m ! 1);
          t2 = on_halves unpacklo_epi32 (m ! 2) (m ! 3);
          t3 = on_halves unpackhi_epi32 (m ! 2) (m ! 3);
          t4 = on_halves unpacklo_epi32 (m ! 4) (m ! 5);
          t5 = on_halves unpackhi_epi32 (m ! 4) (m ! 5);
          t6 = on_halves unpacklo_epi32 (m ! 6) (m ! 7);
          t7 = on_halves unpackhi_epi32 (m ! 6) (m ! 7);
          s0 = on_halves unpacklo_epi64 t0 t2;
          s1 = on_halves unpackhi_epi64 t0 t2;
          s2 = on_halves unpacklo_epi64 t1 t3;
          s3 = on_halves unpackhi_epi64 t1 t3;
          s4 = on_halves unpacklo_epi64 t4 t6;
          s5 = on_halves unpackhi_epi64 t4 t6;
          s6 = on_halves unpacklo_epi64 t5 t7;
          s7 = on_halves unpackhi_epi64 t5 t7
      in [permute2x128 0x20 s0 s4, permute2x128 0x20 s1 s5,
          permute2x128 0x20 s2 s6, permute2x128 0x20 s3 s7,
          permute2x128 0x31 s0 s4, permute2x128 0x31 s1 s5,
          permute2x128 0x31 s2 s6, permute2x128 0x31 s3 s7])"

definition avx2_blocks8 :: "bytes \<Rightarrow> u32 \<Rightarrow> bytes \<Rightarrow> bytes" where
  "avx2_blocks8 key counter nonce =
     (let s = chacha20_state_words key counter nonce;
          x = map (vset1 8) s;
          x = x[12 := [counter, counter + 1, counter + 2, counter + 3,
                       counter + 4, counter + 5, counter + 6, counter + 7]];
          ctr_vec = x ! 12;
          x = (vdouble_round ^^ 10) x;
          x = map (\<lambda>i. vadd (x ! i) (if i = 12 then ctr_vec else vset1 8 (s ! i))) [0..<16];
          x = transpose8x8 (subslice 0 8 x) @ transpose8x8 (subslice 8 16 x)
      in concat (map (\<lambda>k. vstore (x ! k) @ vstore (x ! (8 + k))) [0..<8]))"

definition neon_blocks4 :: "bytes \<Rightarrow> u32 \<Rightarrow> bytes \<Rightarrow> bytes" where
  "neon_blocks4 key counter nonce =
     (let s = chacha20_state_words key counter nonce;
          x = map (vset1 4) s;
          ctrs = [counter, counter + 1, counter + 2, counter + 3];
          x = x[12 := ctrs];
          orig = x;
          x = (vdouble_round ^^ 10) x;
          w = map (\<lambda>i. vadd (x ! i) (orig ! i)) [0..<16]
      in concat (map (\<lambda>j. concat (map (\<lambda>i. u32_bytes (w ! i ! j)) [0..<16])) [0..<4]))"

subsection \<open>A lane of the vector state is a scalar state\<close>

lemma vrotl_lane [simp, len_simps]:
  "length (vrotl l r v) = length v"
  "j < length v \<Longrightarrow> l + r = 32 \<Longrightarrow> 0 < r \<Longrightarrow> vrotl l r v ! j = rotate_left (v ! j) l"
  by (simp_all add: vrotl_def rotate_left_shifts)

lemma vqr_steps_wf:
  "vwf lanes x \<Longrightarrow> a < 16 \<Longrightarrow> b < 16 \<Longrightarrow> vwf lanes (vqr_add a b x)"
  "vwf lanes x \<Longrightarrow> a < 16 \<Longrightarrow> b < 16 \<Longrightarrow> vwf lanes (vqr_rot a b l r x)"
  by (simp_all add: vqr_add_def vqr_rot_def vwf_update vwf_nth)

lemma vqr_wf:
  "vwf lanes x \<Longrightarrow> a < 16 \<Longrightarrow> b < 16 \<Longrightarrow> c < 16 \<Longrightarrow> d < 16 \<Longrightarrow> vwf lanes (vqr x a b c d)"
  by (simp add: vqr_def vqr_steps_wf)

lemma lane_vqr_add:
  "vwf lanes x \<Longrightarrow> j < lanes \<Longrightarrow> a < 16 \<Longrightarrow> b < 16 \<Longrightarrow>
   lane j (vqr_add a b x) = step_add a b (lane j x)"
  by (simp add: vqr_add_def step_add_def lane_update vwf_nth vwf_length)

lemma lane_vqr_rot:
  "vwf lanes x \<Longrightarrow> j < lanes \<Longrightarrow> d < 16 \<Longrightarrow> a < 16 \<Longrightarrow> l + r = 32 \<Longrightarrow> 0 < r \<Longrightarrow>
   lane j (vqr_rot d a l r x) = step_rot d a l (lane j x)"
  by (simp add: vqr_rot_def step_rot_def lane_update vwf_nth vwf_length)

lemma lane_vqr:
  assumes x: "vwf lanes x" and j: "j < lanes"
    and bounds: "a < 16" "b < 16" "c < 16" "d < 16" and ne: "distinct [a, b, c, d]"
  shows "lane j (vqr x a b c d) = qr_at (lane j x) a b c d"
proof -
  have "length (lane j x) = 16" using x by (simp add: vwf_length)
  from qr_at_in_place [OF this bounds ne] show ?thesis
    by (simp add: vqr_def lane_vqr_add [OF _ j] lane_vqr_rot [OF _ j] vqr_steps_wf [OF x] vqr_steps_wf x bounds)
qed

lemma vdouble_round_wf: "vwf lanes x \<Longrightarrow> vwf lanes (vdouble_round x)"
  by (simp add: vdouble_round_def vqr_wf)

lemma lane_vdouble_round:
  "vwf lanes x \<Longrightarrow> j < lanes \<Longrightarrow> lane j (vdouble_round x) = chacha20_double_round (lane j x)"
  by (simp add: vdouble_round_def chacha20_double_round_def lane_vqr [of lanes] vqr_wf)

lemma lane_vrounds:
  assumes "vwf lanes x" and "j < lanes"
  shows "lane j ((vdouble_round ^^ 10) x) = chacha20_rounds (lane j x)"
  unfolding chacha20_rounds_def
  by (rule funpow_commute_with [where P = "vwf lanes"]) (use assms in \<open>auto simp: vdouble_round_wf lane_vdouble_round\<close>)

lemma vrounds_wf: "vwf lanes x \<Longrightarrow> vwf lanes ((vdouble_round ^^ 10) x)"
  by (rule funpow_invariant [where P = "vwf lanes"]) (auto simp: vdouble_round_wf)


subsection \<open>The kernels produce consecutive scalar blocks\<close>

definition chacha20_blocks :: "bytes \<Rightarrow> u32 \<Rightarrow> bytes \<Rightarrow> nat \<Rightarrow> bytes" where
  "chacha20_blocks key counter nonce n =
     concat (map (\<lambda>i. chacha20_block_into key (counter + of_nat i) nonce) [0..<n])"

lemma length_blocks [simp, len_simps]: "length (chacha20_blocks key counter nonce n) = 64 * n"
  by (simp add: chacha20_blocks_def length_concat comp_def sum_list_triv)

definition counters :: "nat \<Rightarrow> u32 \<Rightarrow> u32 list" where
  "counters lanes counter = map (\<lambda>j. counter + of_nat j) [0..<lanes]"

definition vinit :: "nat \<Rightarrow> u32 list \<Rightarrow> u32 \<Rightarrow> vec list" where
  "vinit lanes s counter = (map (vset1 lanes) s)[12 := counters lanes counter]"

lemma counters_explicit:
  "counters 4 c = [c, c + 1, c + 2, c + 3]"
  "counters 8 c = [c, c + 1, c + 2, c + 3, c + 4, c + 5, c + 6, c + 7]"
  by (simp_all add: counters_def upt_rec)

lemma vwf_vinit: "length s = 16 \<Longrightarrow> vwf lanes (vinit lanes s counter)"
  unfolding vinit_def by (rule vwf_update) (auto simp: vwf_def counters_def)

lemma block_state_counter:
  "(block_state key c nonce)[12 := c'] = block_state key c' nonce"
  by (simp add: block_state_def del: le_word.simps)

lemma lane_vinit:
  "j < lanes \<Longrightarrow> lane j (vinit lanes (block_state key c nonce) counter)
     = block_state key (counter + of_nat j) nonce"
proof -
  assume j: "j < lanes"
  have "lane j (map (vset1 lanes) s) = s" for s
    using j by (intro nth_equalityI) auto
  then show ?thesis
    using j by (simp add: vinit_def lane_update block_state_counter counters_def)
qed

lemma lane_map2_vadd:
  "vwf lanes x \<Longrightarrow> vwf lanes y \<Longrightarrow> j < lanes \<Longrightarrow>
   lane j (map2 vadd x y) = map2 (+) (lane j x) (lane j y)"
  by (rule nth_equalityI) (auto simp: vwf_length vwf_nth)

lemma vwf_map2_vadd: "vwf lanes x \<Longrightarrow> vwf lanes y \<Longrightarrow> vwf lanes (map2 vadd x y)"
  by (auto simp: vwf_def in_set_zip)

text \<open>After the ten double rounds and the feed-forward, lane \<open>j\<close> is the block of counter \<open>+ j\<close>.\<close>

definition vblocks :: "nat \<Rightarrow> bytes \<Rightarrow> u32 \<Rightarrow> bytes \<Rightarrow> vec list" where
  "vblocks lanes key counter nonce =
     (let x = vinit lanes (block_state key counter nonce) counter
      in map2 vadd ((vdouble_round ^^ 10) x) x)"

lemma vblocks_wf: "vwf lanes (vblocks lanes key counter nonce)"
  by (simp add: vblocks_def Let_def vwf_map2_vadd vrounds_wf vwf_vinit)

lemma lane_vblocks:
  assumes "j < lanes"
  shows "words_bytes (lane j (vblocks lanes key counter nonce))
           = chacha20_block_into key (counter + of_nat j) nonce"
proof -
  have "vwf lanes (vinit lanes (block_state key counter nonce) counter)"
    by (simp add: vwf_vinit)
  with assms show ?thesis
    by (simp add: vblocks_def Let_def lane_map2_vadd [of lanes] vrounds_wf lane_vrounds [of lanes]
        block_into_words lane_vinit)
qed

lemma lanes_of_vblocks:
  "concat (map (\<lambda>j. words_bytes (lane j (vblocks lanes key counter nonce))) [0..<lanes])
     = chacha20_blocks key counter nonce lanes"
  unfolding chacha20_blocks_def
  by (intro arg_cong [where f = concat] map_cong refl) (simp add: lane_vblocks)

lemma transpose4x4_columns:
  "transpose4x4 [a, b, c, d]
     = [[a ! 0, b ! 0, c ! 0, d ! 0], [a ! 1, b ! 1, c ! 1, d ! 1],
        [a ! 2, b ! 2, c ! 2, d ! 2], [a ! 3, b ! 3, c ! 3, d ! 3]]"
  by (simp add: transpose4x4_def unpacklo_epi32_def unpackhi_epi32_def unpacklo_epi64_def
      unpackhi_epi64_def)

lemma transposed4:
  assumes x: "length x = 16" and j: "j < 4"
  shows "concat (map (\<lambda>i. (transpose4x4 (subslice 0 4 x) @ transpose4x4 (subslice 4 8 x)
              @ transpose4x4 (subslice 8 12 x) @ transpose4x4 (subslice 12 16 x)) ! (i * 4 + j)) [0..<4])
           = lane j x"
proof -
  have "j \<in> {0, 1, 2, 3}" using j by auto
  then show ?thesis
    using subslice_quad [OF x, of 0] subslice_quad [OF x, of 1] subslice_quad [OF x, of 2] subslice_quad [OF x, of 3]
    by (auto simp: lane_as_list [OF x] upt_4 upt_16 transpose4x4_columns numeral_2_eq_2)
qed

theorem sse2_blocks4_correct:
  assumes "length key = 32" and "length nonce = 12"
  shows "sse2_blocks4 key counter nonce = chacha20_blocks key counter nonce 4"
proof -
  define x where "x = vblocks 4 key counter nonce"
  have x: "length x = 16" by (simp add: x_def vwf_length [OF vblocks_wf])
  have "sse2_blocks4 key counter nonce
      = concat (map (\<lambda>j. words_bytes (concat (map (\<lambda>i. (transpose4x4 (subslice 0 4 x)
              @ transpose4x4 (subslice 4 8 x) @ transpose4x4 (subslice 8 12 x)
              @ transpose4x4 (subslice 12 16 x)) ! (i * 4 + j)) [0..<4]))) [0..<4])"
    using assms
    by (simp only: sse2_blocks4_def state_words_eq x_def vblocks_def vinit_def counters_explicit
        Let_def vstore_def words_bytes_concat [symmetric] map_map comp_def)
  also have "\<dots> = concat (map (\<lambda>j. words_bytes (lane j x)) [0..<4])"
    by (intro arg_cong [where f = concat] map_cong refl) (simp add: transposed4 [OF x])
  finally show ?thesis by (simp add: x_def lanes_of_vblocks)
qed

theorem neon_blocks4_correct:
  assumes "length key = 32" and "length nonce = 12"
  shows "neon_blocks4 key counter nonce = chacha20_blocks key counter nonce 4"
proof -
  define x where "x = vblocks 4 key counter nonce"
  have x: "length x = 16" by (simp add: x_def vwf_length [OF vblocks_wf])
  have zip: "map (\<lambda>i. vadd (u ! i) (v ! i)) [0..<16] = map2 vadd u v"
    if "length u = 16" "length v = 16" for u v
    using that by (intro nth_equalityI) auto
  have len: "length (vinit 4 s counter) = 16" "length ((vdouble_round ^^ 10) (vinit 4 s counter)) = 16"
    if "length s = 16" for s
    using that by (auto intro: vwf_length vwf_vinit vrounds_wf)
  have "neon_blocks4 key counter nonce
      = concat (map (\<lambda>j. concat (map (\<lambda>i. u32_bytes (x ! i ! j)) [0..<16])) [0..<4])"
    using assms len [of "block_state key counter nonce"]
    by (simp add: neon_blocks4_def state_words_eq x_def vblocks_def vinit_def zip
        counters_explicit [symmetric] Let_def)
  also have "\<dots> = concat (map (\<lambda>j. words_bytes (lane j x)) [0..<4])"
    by (simp add: lane_as_list [OF x] words_bytes_def comp_def)
  finally show ?thesis by (simp add: x_def lanes_of_vblocks)
qed


lemma transpose8x8_columns:
  assumes "\<forall>v \<in> {a, b, c, d, e, f, g, h}. length v = 8"
  shows "transpose8x8 [a, b, c, d, e, f, g, h]
     = map (\<lambda>j. [a ! j, b ! j, c ! j, d ! j, e ! j, f ! j, g ! j, h ! j]) [0, 1, 2, 3, 4, 5, 6, 7]"
  using assms
  by (simp add: transpose8x8_def on_halves_8 permute2x128_def unpacklo_epi32_def unpackhi_epi32_def
      unpacklo_epi64_def unpackhi_epi64_def numeral_2_eq_2)

lemma transposed8:
  assumes x: "vwf 8 x" and k: "k < 8"
    and X: "X = transpose8x8 (subslice 0 8 x) @ transpose8x8 (subslice 8 16 x)"
  shows "X ! k @ X ! (8 + k) = lane k x"
proof -
  have len: "length x = 16" using x by (rule vwf_length)
  have cols: "transpose8x8 (subslice 0 8 x)
      = map (\<lambda>j. [x ! 0 ! j, x ! 1 ! j, x ! 2 ! j, x ! 3 ! j, x ! 4 ! j, x ! 5 ! j, x ! 6 ! j, x ! 7 ! j])
          [0, 1, 2, 3, 4, 5, 6, 7]"
    "transpose8x8 (subslice 8 16 x)
      = map (\<lambda>j. [x ! 8 ! j, x ! 9 ! j, x ! 10 ! j, x ! 11 ! j, x ! 12 ! j, x ! 13 ! j, x ! 14 ! j, x ! 15 ! j])
          [0, 1, 2, 3, 4, 5, 6, 7]"
    unfolding subslice_oct [OF len]
    by (rule transpose8x8_columns, simp add: vwf_nth [OF x])+
  have "k \<in> {0, 1, 2, 3, 4, 5, 6, 7}" using k by auto
  then show ?thesis
    unfolding X cols by (auto simp: lane_as_list [OF len] upt_16)
qed

theorem avx2_blocks8_correct:
  assumes "length key = 32" and "length nonce = 12"
  shows "avx2_blocks8 key counter nonce = chacha20_blocks key counter nonce 8"
proof -
  let ?s = "block_state key counter nonce"
  define x where "x = vblocks 8 key counter nonce"
  define X where "X = transpose8x8 (subslice 0 8 x) @ transpose8x8 (subslice 8 16 x)"
  have ff: "map (\<lambda>i. vadd (y ! i) (if i = 12 then vinit 8 ?s counter ! 12 else vset1 8 (?s ! i))) [0..<16]
      = map2 vadd y (vinit 8 ?s counter)" if "length y = 16" for y
    using that by (intro nth_equalityI) (auto simp: vinit_def)
  have len: "length ((vdouble_round ^^ 10) (vinit 8 ?s counter)) = 16"
    by (auto intro!: vwf_length vrounds_wf vwf_vinit)
  have "avx2_blocks8 key counter nonce = concat (map (\<lambda>k. words_bytes (X ! k @ X ! (8 + k))) [0..<8])"
    unfolding avx2_blocks8_def state_words_eq [OF assms] Let_def counters_explicit(2) [symmetric]
      vinit_def [symmetric] ff [OF len] X_def x_def vblocks_def vstore_def
    by simp
  also have "\<dots> = concat (map (\<lambda>j. words_bytes (lane j x)) [0..<8])"
    by (intro arg_cong [where f = concat] map_cong refl)
      (simp add: transposed8 [OF vblocks_wf _ X_def [unfolded x_def]] x_def del: words_bytes_append)
  finally show ?thesis by (simp add: x_def lanes_of_vblocks)
qed

end
