(* ===== verification/ChaCha_Stream.thy ===== *)
theory ChaCha_Stream
  imports ChaCha_Simd "HOL-Library.Monad_Syntax"
begin

section \<open>The ChaCha20 stream: dispatch over the kernels\<close>

text \<open>
  \<open>Input\<close>, \<open>xor_or_copy\<close>, \<open>chacha20_apply\<close> and its two callers of
  \<open>src/lib.rs\<close>.  The target (which \<open>cfg\<close> arms exist, and on x86-64 what
  \<open>has_avx2\<close> answers) is an argument.  Every dispatch is shown to compute the same
  byte stream, the one the scalar block defines.
\<close>

datatype input = Separate bytes | InPlace | Keystream

datatype target = X86_64 bool | Aarch64_Neon | Other_Target

definition CHACHA20_BLOCK :: nat where "CHACHA20_BLOCK = 64"

definition xor_or_copy :: "input \<Rightarrow> bytes \<Rightarrow> nat \<Rightarrow> bytes \<Rightarrow> bytes option" where
  "xor_or_copy inp buf off ks =
     do {
       assert_that (off + length ks \<le> length buf);
       let out = subslice off (off + length ks) buf;
       (case inp of
          Separate src \<Rightarrow> do {
            assert_that (off + length ks \<le> length src);
            Some (put_slice off (xor_bytes (subslice off (off + length ks) src) ks) buf)
          }
        | InPlace \<Rightarrow> Some (put_slice off (xor_bytes out ks) buf)
        | Keystream \<Rightarrow> Some (put_slice off ks buf))
     }"

text \<open>
  One \<open>while off + w <= n\<close> loop of \<open>chacha20_apply\<close>: \<open>w\<close> bytes of key stream
  from the kernel, the exclusive or, the counter advanced by \<open>step\<close> blocks.  The source
  has it with (512, 8) for AVX2, (256, 4) for SSE2 and NEON and (64, 1) for the scalar block.
\<close>

function apply_loop ::
  "(u32 \<Rightarrow> bytes) \<Rightarrow> nat \<Rightarrow> nat \<Rightarrow> input \<Rightarrow> nat \<Rightarrow> u32 \<Rightarrow> nat \<Rightarrow> bytes \<Rightarrow> (u32 \<times> nat \<times> bytes) option"
where
  "apply_loop kern w step inp n ctr off buf =
     (if 0 < w \<and> off + w \<le> n then
        do {
          buf \<leftarrow> xor_or_copy inp buf off (kern ctr);
          apply_loop kern w step inp n (ctr + of_nat step) (off + w) buf
        }
      else Some (ctr, off, buf))"
  by pat_completeness auto
termination
  by (relation "measure (\<lambda>(kern, w, step, inp, n, ctr, off, buf). n - off)") auto

declare apply_loop.simps [simp del]

definition chacha20_apply ::
  "target \<Rightarrow> bytes \<Rightarrow> u32 \<Rightarrow> bytes \<Rightarrow> input \<Rightarrow> bytes \<Rightarrow> bytes option"
where
  "chacha20_apply tgt key counter nonce inp buf =
     do {
       (case inp of Separate src \<Rightarrow> assert_that (length src = length buf) | _ \<Rightarrow> Some ());
       let n = length buf;
       (ctr, off, buf) \<leftarrow>
         (case tgt of
            X86_64 has_avx2 \<Rightarrow> do {
              (ctr, off, buf) \<leftarrow>
                (if has_avx2
                 then apply_loop (\<lambda>c. avx2_blocks8 key c nonce) 512 8 inp n counter 0 buf
                 else Some (counter, 0, buf));
              apply_loop (\<lambda>c. sse2_blocks4 key c nonce) 256 4 inp n ctr off buf
            }
          | Aarch64_Neon \<Rightarrow>
              apply_loop (\<lambda>c. neon_blocks4 key c nonce) 256 4 inp n counter 0 buf
          | Other_Target \<Rightarrow> Some (counter, 0, buf));
       (ctr, off, buf) \<leftarrow>
         apply_loop (\<lambda>c. chacha20_block_into key c nonce) CHACHA20_BLOCK 1 inp n ctr off buf;
       (if off < n
        then xor_or_copy inp buf off (take (n - off) (chacha20_block_into key ctr nonce))
        else Some buf)
     }"

definition chacha20_keystream ::
  "target \<Rightarrow> bytes \<Rightarrow> u32 \<Rightarrow> bytes \<Rightarrow> bytes \<Rightarrow> bytes \<Rightarrow> bytes option"
where
  "chacha20_keystream tgt key counter nonce inp buf =
     do {
       assert_that (length inp = length buf);
       chacha20_apply tgt key counter nonce (Separate inp) buf
     }"

definition chacha20_keystream_raw :: "target \<Rightarrow> bytes \<Rightarrow> u32 \<Rightarrow> bytes \<Rightarrow> bytes \<Rightarrow> bytes option" where
  "chacha20_keystream_raw tgt key counter nonce out = chacha20_apply tgt key counter nonce Keystream out"

subsection \<open>The reference: a byte stream\<close>

definition ks_byte :: "bytes \<Rightarrow> u32 \<Rightarrow> bytes \<Rightarrow> nat \<Rightarrow> u8" where
  "ks_byte key counter nonce i =
     chacha20_block_into key (counter + of_nat (i div 64)) nonce ! (i mod 64)"

definition chacha20_stream :: "bytes \<Rightarrow> u32 \<Rightarrow> bytes \<Rightarrow> nat \<Rightarrow> bytes" where
  "chacha20_stream key counter nonce n = map (ks_byte key counter nonce) [0..<n]"

definition stream_spec :: "input \<Rightarrow> bytes \<Rightarrow> bytes \<Rightarrow> bytes" where
  "stream_spec inp buf ks =
     (case inp of
        Separate src \<Rightarrow> xor_bytes src ks
      | InPlace \<Rightarrow> xor_bytes buf ks
      | Keystream \<Rightarrow> ks)"

lemma length_stream [simp, len_simps]: "length (chacha20_stream key counter nonce n) = n"
  by (simp add: chacha20_stream_def)

lemma nth_blocks:
  "i < 64 * n \<Longrightarrow> chacha20_blocks key counter nonce n ! i = ks_byte key counter nonce i"
  unfolding chacha20_blocks_def ks_byte_def
  by (subst nth_concat_uniform [where n = 64]) (auto simp: less_mult_imp_div_less mult.commute)

lemma ks_byte_shift:
  "64 dvd off \<Longrightarrow> ks_byte key (counter + of_nat (off div 64)) nonce i = ks_byte key counter nonce (off + i)"
proof -
  assume "64 dvd off"
  then obtain q where off: "off = 64 * q" by (auto elim: dvdE)
  then have "(off + i) div 64 = q + i div 64" "(off + i) mod 64 = i mod 64" by simp_all
  with off show ?thesis by (simp add: ks_byte_def add.assoc)
qed

lemma nth_stream_spec:
  "i < length buf \<Longrightarrow> (\<And>src. inp = Separate src \<Longrightarrow> length src = length buf) \<Longrightarrow>
   length ks = length buf \<Longrightarrow>
   stream_spec inp buf ks ! i =
     (case inp of Separate src \<Rightarrow> src ! i XOR ks ! i | InPlace \<Rightarrow> buf ! i XOR ks ! i | Keystream \<Rightarrow> ks ! i)"
  by (cases inp) (auto simp: stream_spec_def nth_xor_bytes)

lemma length_stream_spec [simp, len_simps]:
  "(\<And>src. inp = Separate src \<Longrightarrow> length src = length buf) \<Longrightarrow> length ks = length buf \<Longrightarrow>
   length (stream_spec inp buf ks) = length buf"
  by (cases inp) (auto simp: stream_spec_def)

subsection \<open>The loop invariant\<close>

text \<open>The bytes before \<open>off\<close> are done, the others are still the caller's.\<close>

definition progress :: "bytes \<Rightarrow> bytes \<Rightarrow> nat \<Rightarrow> bytes" where
  "progress done todo off = take off done @ drop off todo"

definition stream_inv ::
  "bytes \<Rightarrow> u32 \<Rightarrow> bytes \<Rightarrow> input \<Rightarrow> bytes \<Rightarrow> u32 \<times> nat \<times> bytes \<Rightarrow> bool"
where
  "stream_inv key counter nonce inp out0 st \<longleftrightarrow>
     (case st of (ctr, off, buf) \<Rightarrow>
        64 dvd off \<and> off \<le> length out0 \<and> ctr = counter + of_nat (off div 64) \<and>
        buf = progress (stream_spec inp out0 (chacha20_stream key counter nonce (length out0))) out0 off)"

lemma xor_or_copy_progress:
  assumes sep: "\<And>src. inp = Separate src \<Longrightarrow> length src = length out0"
    and bound: "off + m \<le> length out0" and len: "length ks = m"
    and ks: "\<And>i. i < m \<Longrightarrow> ks ! i = ks_byte key counter nonce (off + i)"
    and spec: "spec = stream_spec inp out0 (chacha20_stream key counter nonce (length out0))"
  shows "xor_or_copy inp (progress spec out0 off) off ks = Some (progress spec out0 (off + m))"
proof -
  have lspec: "length spec = length out0" unfolding spec by (rule length_stream_spec) (auto simp: sep)
  then have lp: "length (progress spec out0 k) = length out0" if "k \<le> length out0" for k
    using that by (simp add: progress_def)
  have nthp: "progress spec out0 k ! i = (if i < k then spec ! i else out0 ! i)"
    if "i < length out0" "k \<le> length out0" for i k
    using that lspec by (auto simp: progress_def nth_append)
  have nspec: "spec ! i = (case inp of Separate src \<Rightarrow> src ! i XOR ks_byte key counter nonce i
      | InPlace \<Rightarrow> out0 ! i XOR ks_byte key counter nonce i | Keystream \<Rightarrow> ks_byte key counter nonce i)"
    if "i < length out0" for i
    using that unfolding spec
    by (subst nth_stream_spec) (auto simp: sep chacha20_stream_def split: input.split)
  have nsub: "subslice off (off + m) xs ! i = xs ! (off + i)"
    if "i < m" "off + m \<le> length xs" for xs :: bytes and i
    using that by (simp add: subslice_def)
  define new where "new = (case inp of
      Separate src \<Rightarrow> xor_bytes (subslice off (off + m) src) ks
    | InPlace \<Rightarrow> xor_bytes (subslice off (off + m) (progress spec out0 off)) ks
    | Keystream \<Rightarrow> ks)"
  have new: "length new = m" "\<And>i. i < m \<Longrightarrow> new ! i = spec ! (off + i)"
    using bound len sep lp [of off] ks nspec nthp
    by (auto simp: new_def nth_xor_bytes nsub split: input.splits)
  have "put_slice off new (progress spec out0 off) = progress spec out0 (off + m)"
    by (rule nth_equalityI) (use bound new lp nthp in \<open>auto simp: nth_put_slice\<close>)
  moreover have "xor_or_copy inp (progress spec out0 off) off ks
      = Some (put_slice off new (progress spec out0 off))"
    using bound len lp [of off] sep by (auto simp: xor_or_copy_def new_def split: input.splits)
  ultimately show ?thesis by simp
qed


subsection \<open>What a kernel promises, and the loop over any kernel\<close>

text \<open>
  The interface between \<open>chacha20_apply\<close> and a kernel: \<open>nb\<close> consecutive scalar
  blocks.  Everything the dispatch needs is proved from that law alone.
\<close>

locale keystream_kernel =
  fixes kern :: "bytes \<Rightarrow> u32 \<Rightarrow> bytes \<Rightarrow> bytes"
    and nb :: nat
  assumes nb_pos: "0 < nb"
    and kern_blocks: "length key = 32 \<Longrightarrow> length nonce = 12 \<Longrightarrow>
      kern key c nonce = chacha20_blocks key c nonce nb"
begin

lemma kern_bytes:
  assumes "length key = 32" "length nonce = 12" "64 dvd off" "i < 64 * nb"
  shows "kern key (counter + of_nat (off div 64)) nonce ! i = ks_byte key counter nonce (off + i)"
  using assms by (simp add: kern_blocks nth_blocks ks_byte_shift)

lemma loop_step:
  assumes len: "length key = 32" "length nonce = 12"
    and sep: "\<And>src. inp = Separate src \<Longrightarrow> length src = length out0"
    and inv: "stream_inv key counter nonce inp out0 (ctr, off, buf)"
    and bound: "off + 64 * nb \<le> length out0"
  obtains buf' where
    "xor_or_copy inp buf off (kern key ctr nonce) = Some buf'"
    "stream_inv key counter nonce inp out0 (ctr + of_nat nb, off + 64 * nb, buf')"
proof
  define spec where "spec = stream_spec inp out0 (chacha20_stream key counter nonce (length out0))"
  from inv have off: "64 dvd off" and ctr: "ctr = counter + of_nat (off div 64)"
    and buf: "buf = progress spec out0 off"
    by (auto simp: stream_inv_def spec_def)
  show "xor_or_copy inp buf off (kern key ctr nonce) = Some (progress spec out0 (off + 64 * nb))"
    unfolding buf
    by (rule xor_or_copy_progress [OF sep bound _ _ spec_def])
      (use len off in \<open>auto simp: kern_blocks nth_blocks ks_byte_shift ctr\<close>)
  show "stream_inv key counter nonce inp out0
      (ctr + of_nat nb, off + 64 * nb, progress spec out0 (off + 64 * nb))"
    using off bound by (auto simp: stream_inv_def spec_def ctr)
qed

lemma loop_inv:
  assumes "length key = 32" "length nonce = 12"
    and "\<And>src. inp = Separate src \<Longrightarrow> length src = length out0"
    and "stream_inv key counter nonce inp out0 (ctr, off, buf)"
  shows "\<exists>ctr' off' buf'.
    apply_loop (\<lambda>c. kern key c nonce) (64 * nb) nb inp (length out0) ctr off buf
      = Some (ctr', off', buf')
    \<and> stream_inv key counter nonce inp out0 (ctr', off', buf') \<and> length out0 < off' + 64 * nb"
  using assms(4)
proof (induction "length out0 - off" arbitrary: ctr off buf rule: less_induct)
  case less
  show ?case
  proof (cases "off + 64 * nb \<le> length out0")
    case True
    obtain buf' where step: "xor_or_copy inp buf off (kern key ctr nonce) = Some buf'"
      and inv: "stream_inv key counter nonce inp out0 (ctr + of_nat nb, off + 64 * nb, buf')"
      using assms(1-3) less.prems True by (rule loop_step)
    have "length out0 - (off + 64 * nb) < length out0 - off" using True nb_pos by auto
    from less.hyps [OF this inv] show ?thesis
      using True nb_pos by (subst apply_loop.simps) (simp add: step)
  next
    case False
    with less.prems show ?thesis by (subst apply_loop.simps) auto
  qed
qed

end

lemma block_into_blocks: "chacha20_block_into key c nonce = chacha20_blocks key c nonce 1"
  by (simp add: chacha20_blocks_def)

interpretation scalar: keystream_kernel chacha20_block_into 1
  by unfold_locales (simp_all add: chacha20_blocks_def)

interpretation sse2: keystream_kernel sse2_blocks4 4
  by unfold_locales (simp_all add: sse2_blocks4_correct)

interpretation avx2: keystream_kernel avx2_blocks8 8
  by unfold_locales (simp_all add: avx2_blocks8_correct)

interpretation neon: keystream_kernel neon_blocks4 4
  by unfold_locales (simp_all add: neon_blocks4_correct)

subsection \<open>Every dispatch computes the same stream\<close>

lemma stream_inv_start: "stream_inv key counter nonce inp out0 (counter, 0, out0)"
  by (simp add: stream_inv_def progress_def)

lemma xor_or_copy_tail:
  assumes len: "length key = 32" "length nonce = 12"
    and sep: "\<And>src. inp = Separate src \<Longrightarrow> length src = length out0"
    and inv: "stream_inv key counter nonce inp out0 (ctr, off, buf)"
    and bound: "off < length out0" "length out0 < off + 64"
  shows "xor_or_copy inp buf off (take (length out0 - off) (chacha20_block_into key ctr nonce))
    = Some (stream_spec inp out0 (chacha20_stream key counter nonce (length out0)))"
proof -
  define spec where "spec = stream_spec inp out0 (chacha20_stream key counter nonce (length out0))"
  from inv have off: "64 dvd off" and ctr: "ctr = counter + of_nat (off div 64)"
    and buf: "buf = progress spec out0 off"
    by (auto simp: stream_inv_def spec_def)
  have "length spec = length out0"
    unfolding spec_def by (rule length_stream_spec) (auto simp: sep)
  then have "progress spec out0 (off + (length out0 - off)) = spec"
    using bound by (simp add: progress_def)
  moreover have "xor_or_copy inp (progress spec out0 off) off
      (take (length out0 - off) (chacha20_block_into key ctr nonce))
    = Some (progress spec out0 (off + (length out0 - off)))"
    by (rule xor_or_copy_progress [OF sep _ _ _ spec_def])
      (use len off bound in \<open>auto simp: ctr scalar.kern_bytes\<close>)
  ultimately show ?thesis by (simp add: buf spec_def)
qed

lemma scalar_finish:
  assumes len: "length key = 32" "length nonce = 12"
    and sep: "\<And>src. inp = Separate src \<Longrightarrow> length src = length out0"
    and inv: "stream_inv key counter nonce inp out0 (ctr, off, buf)"
  shows "(apply_loop (\<lambda>c. chacha20_block_into key c nonce) CHACHA20_BLOCK 1 inp (length out0) ctr off buf
      \<bind> (\<lambda>(ctr, off, buf).
        if off < length out0
        then xor_or_copy inp buf off (take (length out0 - off) (chacha20_block_into key ctr nonce))
        else Some buf))
    = Some (stream_spec inp out0 (chacha20_stream key counter nonce (length out0)))"
proof -
  have inv: "stream_inv key counter nonce inp out0 (ctr, off, buf)" by fact
  obtain ctr' off' buf' where
    loop: "apply_loop (\<lambda>c. chacha20_block_into key c nonce) CHACHA20_BLOCK 1 inp (length out0) ctr off buf
      = Some (ctr', off', buf')"
    and inv': "stream_inv key counter nonce inp out0 (ctr', off', buf')"
    and stop: "length out0 < off' + 64"
    using scalar.loop_inv [OF len sep inv] by (auto simp: CHACHA20_BLOCK_def)
  have lspec: "length (stream_spec inp out0 (chacha20_stream key counter nonce (length out0))) = length out0"
    by (rule length_stream_spec) (auto simp: sep)
  have "buf' = stream_spec inp out0 (chacha20_stream key counter nonce (length out0))"
    if "\<not> off' < length out0"
    using inv' that lspec by (auto simp: stream_inv_def progress_def)
  then show ?thesis
    unfolding loop using xor_or_copy_tail [OF len sep inv' _ stop] by (cases "off' < length out0") auto
qed

lemma chacha20_apply_correct:
  assumes len: "length key = 32" "length nonce = 12"
    and sep: "\<And>src. inp = Separate src \<Longrightarrow> length src = length buf"
  shows "chacha20_apply tgt key counter nonce inp buf
    = Some (stream_spec inp buf (chacha20_stream key counter nonce (length buf)))"
proof -
  note start = stream_inv_start [of key counter nonce inp buf]
  have guard: "(case inp of Separate src \<Rightarrow> assert_that (length src = length buf) | _ \<Rightarrow> Some ()) = Some ()"
    using sep by (auto split: input.split)
  note finish = scalar_finish [OF len sep]
  show ?thesis
  proof (cases tgt)
    case (X86_64 has_avx2)
    obtain ctr off out1 where a: "(if has_avx2
        then apply_loop (\<lambda>c. avx2_blocks8 key c nonce) 512 8 inp (length buf) counter 0 buf
        else Some (counter, 0, buf)) = Some (ctr, off, out1)"
      and inv: "stream_inv key counter nonce inp buf (ctr, off, out1)"
      using avx2.loop_inv [OF len sep start] start by (cases has_avx2) auto
    obtain ctr' off' out2 where
      "apply_loop (\<lambda>c. sse2_blocks4 key c nonce) 256 4 inp (length buf) ctr off out1 = Some (ctr', off', out2)"
      and "stream_inv key counter nonce inp buf (ctr', off', out2)"
      using sse2.loop_inv [OF len sep inv] by auto
    with a finish show ?thesis
      by (simp add: chacha20_apply_def guard X86_64 Let_def)
  next
    case Aarch64_Neon
    obtain ctr' off' out2 where
      "apply_loop (\<lambda>c. neon_blocks4 key c nonce) 256 4 inp (length buf) counter 0 buf = Some (ctr', off', out2)"
      and "stream_inv key counter nonce inp buf (ctr', off', out2)"
      using neon.loop_inv [OF len sep start] by auto
    with finish show ?thesis
      by (simp add: chacha20_apply_def guard Aarch64_Neon Let_def)
  next
    case Other_Target
    with finish start show ?thesis
      by (simp add: chacha20_apply_def guard Let_def)
  qed
qed

lemma chacha20_apply_in_place:
  "length key = 32 \<Longrightarrow> length nonce = 12 \<Longrightarrow>
   chacha20_apply tgt key counter nonce InPlace buf
     = Some (xor_bytes buf (chacha20_stream key counter nonce (length buf)))"
  by (subst chacha20_apply_correct) (auto simp: stream_spec_def)

lemma chacha20_apply_panics:
  "length src \<noteq> length buf \<Longrightarrow> chacha20_apply tgt key counter nonce (Separate src) buf = None"
  by (simp add: chacha20_apply_def)

lemma chacha20_keystream_correct:
  "length key = 32 \<Longrightarrow> length nonce = 12 \<Longrightarrow> length src = length buf \<Longrightarrow>
   chacha20_keystream tgt key counter nonce src buf
     = Some (xor_bytes src (chacha20_stream key counter nonce (length src)))"
  by (subst chacha20_keystream_def, subst chacha20_apply_correct) (auto simp: stream_spec_def)

lemma chacha20_keystream_raw_correct:
  "length key = 32 \<Longrightarrow> length nonce = 12 \<Longrightarrow>
   chacha20_keystream_raw tgt key counter nonce out = Some (chacha20_stream key counter nonce (length out))"
  by (subst chacha20_keystream_raw_def, subst chacha20_apply_correct) (auto simp: stream_spec_def)

subsection \<open>Properties\<close>

text \<open>C11. On every target (scalar only, SSE2 alone, SSE2 and AVX2, NEON) and in each of
  its three input modes, \<open>chacha20_apply\<close> returns without a panic and writes the same
  bytes: the RFC 8439 key stream of the scalar block, byte \<open>i\<close> taken from block
  \<open>counter + i div 64\<close> with the 32-bit counter wrapping.\<close>

theorem apply_is_stream_on_every_target:
  assumes "length key = 32" and "length nonce = 12"
    and "\<And>src. inp = Separate src \<Longrightarrow> length src = length buf"
  shows "chacha20_apply tgt key counter nonce inp buf
    = Some (stream_spec inp buf (chacha20_stream key counter nonce (length buf)))"
  using assms by (rule chacha20_apply_correct)

lemma apply_is_stream_witness:
  "chacha20_apply (X86_64 True) (replicate 32 7) 0xffffffff (replicate 12 1) (Separate [1, 2, 3]) [0, 0, 0]
    = Some (stream_spec (Separate [1, 2, 3]) [0, 0, 0]
        (chacha20_stream (replicate 32 7) 0xffffffff (replicate 12 1) (length [0 :: u8, 0, 0])))"
  by (rule apply_is_stream_on_every_target) auto

text \<open>Encrypting in place twice with the same key, counter and nonce restores the
  buffer, whichever targets the two runs used.\<close>

theorem stream_involution:
  assumes "length key = 32" and "length nonce = 12"
  shows "(chacha20_apply tgt key counter nonce InPlace buf
      \<bind> (\<lambda>ct. chacha20_apply tgt' key counter nonce InPlace ct)) = Some buf"
  using assms by (simp add: chacha20_apply_in_place xor_bytes_cancel)

lemma stream_involution_witness:
  "(chacha20_apply (X86_64 False) (replicate 32 7) 0 (replicate 12 1) InPlace [10, 20]
      \<bind> (\<lambda>ct. chacha20_apply Aarch64_Neon (replicate 32 7) 0 (replicate 12 1) InPlace ct)) = Some [10, 20]"
  by (rule stream_involution) simp_all

end
