(* ===== verification/Blake3_Compress.thy ===== *)
theory Blake3_Compress
  imports Siv_Prelude "HOL-Library.Monad_Syntax"
begin

section \<open>The BLAKE3 compression function and the portable kernels\<close>

text \<open>
  \<open>blake3/src/portable.rs\<close> with the constants of \<open>blake3/src/lib.rs\<close> and the
  word conversions of \<open>blake3/src/platform.rs\<close>: the compression function in its
  chaining and extendable-output forms, the hashing of one whole chunk or parent
  (\<open>hash1\<close>) and of several (\<open>hash_many\<close>).
\<close>

type_synonym cv_words = "u32 list"

definition OUT_LEN :: nat where "OUT_LEN = 32"
definition BLOCK_LEN :: nat where "BLOCK_LEN = 64"
definition CHUNK_LEN :: nat where "CHUNK_LEN = 1024"
definition MAX_DEPTH :: nat where "MAX_DEPTH = 54"

definition IV :: cv_words where
  "IV = [0x6A09E667, 0xBB67AE85, 0x3C6EF372, 0xA54FF53A, 0x510E527F, 0x9B05688C, 0x1F83D9AB, 0x5BE0CD19]"

definition MSG_SCHEDULE :: "nat list list" where
  "MSG_SCHEDULE =
     [[0, 1, 2, 3, 4, 5, 6, 7, 8, 9, 10, 11, 12, 13, 14, 15],
      [2, 6, 3, 10, 7, 0, 4, 13, 1, 11, 12, 5, 9, 14, 15, 8],
      [3, 4, 10, 12, 13, 2, 7, 14, 6, 5, 9, 0, 11, 15, 8, 1],
      [10, 7, 12, 9, 14, 3, 13, 15, 4, 0, 11, 2, 5, 8, 1, 6],
      [12, 13, 9, 11, 15, 10, 14, 8, 7, 2, 5, 3, 0, 1, 6, 4],
      [9, 14, 11, 5, 8, 12, 15, 1, 13, 3, 0, 10, 2, 6, 4, 7],
      [11, 15, 5, 0, 1, 9, 8, 6, 14, 10, 2, 12, 3, 4, 7, 13]]"

definition CHUNK_START :: u8 where "CHUNK_START = push_bit 0 1"
definition CHUNK_END :: u8 where "CHUNK_END = push_bit 1 1"
definition PARENT :: u8 where "PARENT = push_bit 2 1"
definition ROOT :: u8 where "ROOT = push_bit 3 1"
definition KEYED_HASH :: u8 where "KEYED_HASH = push_bit 4 1"
definition DERIVE_KEY_CONTEXT :: u8 where "DERIVE_KEY_CONTEXT = push_bit 5 1"
definition DERIVE_KEY_MATERIAL :: u8 where "DERIVE_KEY_MATERIAL = push_bit 6 1"

definition counter_low :: "u64 \<Rightarrow> u32" where "counter_low counter = ucast counter"
definition counter_high :: "u64 \<Rightarrow> u32" where "counter_high counter = ucast (drop_bit 32 counter)"

definition words_from_le_bytes_32 :: "bytes \<Rightarrow> cv_words" where
  "words_from_le_bytes_32 bs = le_words 8 bs"

definition words_from_le_bytes_64 :: "bytes \<Rightarrow> u32 list" where
  "words_from_le_bytes_64 bs = le_words 16 bs"

definition le_bytes_from_words_32 :: "cv_words \<Rightarrow> bytes" where
  "le_bytes_from_words_32 ws = words_bytes ws"

definition le_bytes_from_words_64 :: "u32 list \<Rightarrow> bytes" where
  "le_bytes_from_words_64 ws = words_bytes ws"

subsection \<open>The rounds\<close>

definition g_b3 :: "u32 list \<Rightarrow> nat \<Rightarrow> nat \<Rightarrow> nat \<Rightarrow> nat \<Rightarrow> u32 \<Rightarrow> u32 \<Rightarrow> u32 list" where
  "g_b3 state a b c d x y =
     (let s = state[a := state ! a + state ! b + x];
          s = s[d := rotate_right (s ! d XOR s ! a) 16];
          s = s[c := s ! c + s ! d];
          s = s[b := rotate_right (s ! b XOR s ! c) 12];
          s = s[a := s ! a + s ! b + y];
          s = s[d := rotate_right (s ! d XOR s ! a) 8];
          s = s[c := s ! c + s ! d];
          s = s[b := rotate_right (s ! b XOR s ! c) 7]
      in s)"

definition round_b3 :: "u32 list \<Rightarrow> u32 list \<Rightarrow> nat \<Rightarrow> u32 list" where
  "round_b3 state msg r =
     (let schedule = MSG_SCHEDULE ! r;
          s = g_b3 state 0 4 8 12 (msg ! (schedule ! 0)) (msg ! (schedule ! 1));
          s = g_b3 s 1 5 9 13 (msg ! (schedule ! 2)) (msg ! (schedule ! 3));
          s = g_b3 s 2 6 10 14 (msg ! (schedule ! 4)) (msg ! (schedule ! 5));
          s = g_b3 s 3 7 11 15 (msg ! (schedule ! 6)) (msg ! (schedule ! 7));
          s = g_b3 s 0 5 10 15 (msg ! (schedule ! 8)) (msg ! (schedule ! 9));
          s = g_b3 s 1 6 11 12 (msg ! (schedule ! 10)) (msg ! (schedule ! 11));
          s = g_b3 s 2 7 8 13 (msg ! (schedule ! 12)) (msg ! (schedule ! 13));
          s = g_b3 s 3 4 9 14 (msg ! (schedule ! 14)) (msg ! (schedule ! 15))
      in s)"

definition compress_pre :: "cv_words \<Rightarrow> bytes \<Rightarrow> u8 \<Rightarrow> u64 \<Rightarrow> u8 \<Rightarrow> u32 list" where
  "compress_pre cv block block_len counter flags =
     (let block_words = words_from_le_bytes_64 block;
          state = [cv ! 0, cv ! 1, cv ! 2, cv ! 3, cv ! 4, cv ! 5, cv ! 6, cv ! 7,
                   IV ! 0, IV ! 1, IV ! 2, IV ! 3,
                   counter_low counter, counter_high counter, ucast block_len, ucast flags];
          state = round_b3 state block_words 0;
          state = round_b3 state block_words 1;
          state = round_b3 state block_words 2;
          state = round_b3 state block_words 3;
          state = round_b3 state block_words 4;
          state = round_b3 state block_words 5;
          state = round_b3 state block_words 6
      in state)"

definition compress_in_place :: "cv_words \<Rightarrow> bytes \<Rightarrow> u8 \<Rightarrow> u64 \<Rightarrow> u8 \<Rightarrow> cv_words" where
  "compress_in_place cv block block_len counter flags =
     (let state = compress_pre cv block block_len counter flags
      in [state ! 0 XOR state ! 8, state ! 1 XOR state ! 9, state ! 2 XOR state ! 10,
          state ! 3 XOR state ! 11, state ! 4 XOR state ! 12, state ! 5 XOR state ! 13,
          state ! 6 XOR state ! 14, state ! 7 XOR state ! 15])"

definition compress_xof :: "cv_words \<Rightarrow> bytes \<Rightarrow> u8 \<Rightarrow> u64 \<Rightarrow> u8 \<Rightarrow> bytes" where
  "compress_xof cv block block_len counter flags =
     (let state = compress_pre cv block block_len counter flags
      in le_bytes_from_words_64
         [state ! 0 XOR state ! 8, state ! 1 XOR state ! 9, state ! 2 XOR state ! 10,
          state ! 3 XOR state ! 11, state ! 4 XOR state ! 12, state ! 5 XOR state ! 13,
          state ! 6 XOR state ! 14, state ! 7 XOR state ! 15,
          state ! 8 XOR cv ! 0, state ! 9 XOR cv ! 1, state ! 10 XOR cv ! 2, state ! 11 XOR cv ! 3,
          state ! 12 XOR cv ! 4, state ! 13 XOR cv ! 5, state ! 14 XOR cv ! 6, state ! 15 XOR cv ! 7])"

subsection \<open>Whole chunks and parents\<close>

text \<open>The \<open>while slice.len() >= BLOCK_LEN\<close> loop of \<open>hash1\<close>.\<close>

function hash1_loop :: "cv_words \<Rightarrow> u8 \<Rightarrow> bytes \<Rightarrow> u64 \<Rightarrow> u8 \<Rightarrow> u8 \<Rightarrow> cv_words" where
  "hash1_loop cv block_flags xs counter flags flags_end =
     (if BLOCK_LEN \<le> length xs then
        let block_flags = (if length xs = BLOCK_LEN then block_flags OR flags_end else block_flags);
            cv = compress_in_place cv (take BLOCK_LEN xs) (of_nat BLOCK_LEN) counter block_flags
        in hash1_loop cv flags (drop BLOCK_LEN xs) counter flags flags_end
      else cv)"
  by pat_completeness auto
termination
  by (relation "measure (\<lambda>(cv, block_flags, xs, counter, flags, flags_end). length xs)")
    (auto simp: BLOCK_LEN_def)

declare hash1_loop.simps [simp del]

definition hash1 :: "bytes \<Rightarrow> cv_words \<Rightarrow> u64 \<Rightarrow> u8 \<Rightarrow> u8 \<Rightarrow> u8 \<Rightarrow> bytes" where
  "hash1 inp key counter flags flags_start flags_end =
     le_bytes_from_words_32 (hash1_loop key (flags OR flags_start) inp counter flags flags_end)"

text \<open>\<open>zip\<close> with \<open>chunks_exact_mut\<close> stops at the shorter of the two.\<close>

fun hash_many :: "bytes list \<Rightarrow> cv_words \<Rightarrow> u64 \<Rightarrow> bool \<Rightarrow> u8 \<Rightarrow> u8 \<Rightarrow> u8 \<Rightarrow> bytes \<Rightarrow> bytes" where
  "hash_many [] key counter increment flags flags_start flags_end out = out"
| "hash_many (inp # inputs) key counter increment flags flags_start flags_end out =
     (if length out < OUT_LEN then out
      else hash1 inp key counter flags flags_start flags_end
           @ hash_many inputs key (if increment then counter + 1 else counter) increment
               flags flags_start flags_end (drop OUT_LEN out))"

subsection \<open>Lengths and relations\<close>

lemma length_g_b3 [simp, len_simps]: "length (g_b3 s a b c d x y) = length s"
  by (simp add: g_b3_def Let_def)

lemma length_round [simp, len_simps]: "length (round_b3 s m r) = length s"
  by (simp add: round_b3_def Let_def)

lemma length_compress_pre [simp, len_simps]: "length (compress_pre cv b l c f) = 16"
  by (simp add: compress_pre_def Let_def)

lemma length_compress_in_place [simp, len_simps]: "length (compress_in_place cv b l c f) = 8"
  by (simp add: compress_in_place_def Let_def)

lemma length_compress_xof [simp, len_simps]: "length (compress_xof cv b l c f) = 64"
  by (simp add: compress_xof_def le_bytes_from_words_64_def Let_def)

lemma length_hash1_loop: "length cv = 8 \<Longrightarrow> length (hash1_loop cv bf xs c f fe) = 8"
  by (induction cv bf xs c f fe rule: hash1_loop.induct) (subst hash1_loop.simps, simp add: Let_def)

lemma length_hash1 [simp, len_simps]: "length key = 8 \<Longrightarrow> length (hash1 inp key c f fs fe) = 32"
  by (simp add: hash1_def le_bytes_from_words_32_def length_hash1_loop)

text \<open>The first half of the extendable output is the next chaining value.\<close>

lemma compress_xof_prefix:
  "take 32 (compress_xof cv b l c f) = le_bytes_from_words_32 (compress_in_place cv b l c f)"
  by (simp add: compress_xof_def compress_in_place_def le_bytes_from_words_64_def
      le_bytes_from_words_32_def Let_def numeral_eq_Suc)

text \<open>The chaining values \<open>hash_many\<close> writes, and where.\<close>

fun hash_many_cvs :: "bytes list \<Rightarrow> cv_words \<Rightarrow> u64 \<Rightarrow> bool \<Rightarrow> u8 \<Rightarrow> u8 \<Rightarrow> u8 \<Rightarrow> bytes list" where
  "hash_many_cvs [] key c inc f fs fe = []"
| "hash_many_cvs (x # xs) key c inc f fs fe =
     hash1 x key c f fs fe # hash_many_cvs xs key (if inc then c + 1 else c) inc f fs fe"

lemma length_hash_many_cvs [simp, len_simps]: "length (hash_many_cvs xs key c inc f fs fe) = length xs"
  by (induction xs arbitrary: c) auto

lemma set_hash_many_cvs: "length key = 8 \<Longrightarrow> x \<in> set (hash_many_cvs xs key c inc f fs fe) \<Longrightarrow> length x = 32"
  by (induction xs arbitrary: c) auto

lemma hash_many_cvs_append:
  "hash_many_cvs (xs @ ys) key c inc f fs fe =
     hash_many_cvs xs key c inc f fs fe
     @ hash_many_cvs ys key (if inc then c + of_nat (length xs) else c) inc f fs fe"
  by (induction xs arbitrary: c) (auto simp: add.assoc)

lemma length_concat_cvs [simp]:
  "length key = 8 \<Longrightarrow> length (concat (hash_many_cvs xs key c inc f fs fe)) = 32 * length xs"
  using length_concat_uniform [of "hash_many_cvs xs key c inc f fs fe" 32] by (auto dest: set_hash_many_cvs)

lemma hash_many_writes:
  "length key = 8 \<Longrightarrow> 32 * length inputs \<le> length out \<Longrightarrow>
   hash_many inputs key c inc f fs fe out = put_slice 0 (concat (hash_many_cvs inputs key c inc f fs fe)) out"
proof (induction inputs arbitrary: c out)
  case Nil
  then show ?case by (simp add: put_slice_def)
next
  case (Cons x xs)
  let ?c = "if inc then c + 1 else c"
  have "hash_many xs key ?c inc f fs fe (drop 32 out)
      = put_slice 0 (concat (hash_many_cvs xs key ?c inc f fs fe)) (drop 32 out)"
    by (rule Cons.IH) (use Cons.prems in auto)
  moreover have "\<not> length out < 32" using Cons.prems by simp
  ultimately show ?case
    using Cons.prems by (simp add: OUT_LEN_def put_slice_def add.commute)
qed

lemma length_hash_many:
  "length key = 8 \<Longrightarrow> length (hash_many inputs key c inc f fs fe out) = length out"
  by (induction inputs arbitrary: c out) (auto simp: OUT_LEN_def)

end
