(* ===== verification/Blake3_Platform.thy ===== *)
theory Blake3_Platform
  imports Blake3_Compress
begin

section \<open>BLAKE3 platform dispatch\<close>

text \<open>
  \<open>blake3/src/platform.rs\<close>: which kernel a call reaches.  The kernels themselves (C,
  assembly and intrinsics) and the features of the processor are fields of
  \<open>b3_build\<close>, a parameter of the model; \<open>kernels_ok\<close> is what the crate relies on.
  A kernel call is \<open>None\<close> when it reads outside its inputs: the AVX2 and AVX-512
  \<open>hash_many\<close> kernels do so in their 2- and 4-wide tails (the guard-page fault described
  above \<open>Platform::hash_many\<close>), hence their contract covers whole groups only.
\<close>

datatype platform_kind = Portable | SSE2 | SSE41 | AVX2 | AVX512 | NEON | WASM32_SIMD

type_synonym compress_fn = "cv_words \<Rightarrow> bytes \<Rightarrow> u8 \<Rightarrow> u64 \<Rightarrow> u8 \<Rightarrow> cv_words"
type_synonym compress_xof_fn = "cv_words \<Rightarrow> bytes \<Rightarrow> u8 \<Rightarrow> u64 \<Rightarrow> u8 \<Rightarrow> bytes"
type_synonym hash_many_fn =
  "bytes list \<Rightarrow> cv_words \<Rightarrow> u64 \<Rightarrow> bool \<Rightarrow> u8 \<Rightarrow> u8 \<Rightarrow> u8 \<Rightarrow> bytes \<Rightarrow> bytes option"
type_synonym xof_many_fn = "cv_words \<Rightarrow> bytes \<Rightarrow> u8 \<Rightarrow> u64 \<Rightarrow> u8 \<Rightarrow> bytes \<Rightarrow> bytes option"

datatype cpu_feature = CPU_SSE2 | CPU_SSE41 | CPU_AVX2 | CPU_AVX512F | CPU_AVX512VL

record b3_build =
  cfg_miri :: bool
  cfg_x86 :: bool
  cfg_avx512_ffi :: bool
  cfg_neon :: bool
  cfg_wasm32_simd :: bool
  cfg_unix :: bool
  no_avx512 :: bool
  no_avx2 :: bool
  no_sse41 :: bool
  no_sse2 :: bool
  cpu_has :: "cpu_feature \<Rightarrow> bool"
  kern_compress_in_place :: "platform_kind \<Rightarrow> compress_fn"
  kern_compress_xof :: "platform_kind \<Rightarrow> compress_xof_fn"
  kern_hash_many :: "platform_kind \<Rightarrow> hash_many_fn"
  kern_xof_many :: "xof_many_fn"

record platform =
  build :: b3_build
  kind :: platform_kind

definition MAX_SIMD_DEGREE :: "b3_build \<Rightarrow> nat" where
  "MAX_SIMD_DEGREE b =
     (if cfg_x86 b then (if cfg_avx512_ffi b then 16 else 8)
      else if cfg_neon b then 4
      else if cfg_wasm32_simd b then 4
      else 1)"

definition MAX_SIMD_DEGREE_OR_2 :: "b3_build \<Rightarrow> nat" where
  "MAX_SIMD_DEGREE_OR_2 b =
     (if cfg_x86 b then (if cfg_avx512_ffi b then 16 else 8)
      else if cfg_neon b then 4
      else if cfg_wasm32_simd b then 4
      else 2)"

text \<open>The \<open>no_\<close> fields are cargo features for testing; \<open>cpu_has\<close> is the crate \<open>cpufeatures\<close>.\<close>

definition avx512_detected :: "b3_build \<Rightarrow> bool" where
  "avx512_detected b =
     (if cfg_miri b then False
      else if no_avx512 b then False
      else cpu_has b CPU_AVX512F \<and> cpu_has b CPU_AVX512VL)"

definition avx2_detected :: "b3_build \<Rightarrow> bool" where
  "avx2_detected b = (if cfg_miri b then False else if no_avx2 b then False else cpu_has b CPU_AVX2)"

definition sse41_detected :: "b3_build \<Rightarrow> bool" where
  "sse41_detected b = (if cfg_miri b then False else if no_sse41 b then False else cpu_has b CPU_SSE41)"

definition sse2_detected :: "b3_build \<Rightarrow> bool" where
  "sse2_detected b = (if cfg_miri b then False else if no_sse2 b then False else cpu_has b CPU_SSE2)"

definition detect :: "b3_build \<Rightarrow> platform" where
  "detect b =
     (if cfg_miri b then \<lparr>build = b, kind = Portable\<rparr>
      else if cfg_x86 b \<and> cfg_avx512_ffi b \<and> avx512_detected b then \<lparr>build = b, kind = AVX512\<rparr>
      else if cfg_x86 b \<and> avx2_detected b then \<lparr>build = b, kind = AVX2\<rparr>
      else if cfg_x86 b \<and> sse41_detected b then \<lparr>build = b, kind = SSE41\<rparr>
      else if cfg_x86 b \<and> sse2_detected b then \<lparr>build = b, kind = SSE2\<rparr>
      else if cfg_neon b then \<lparr>build = b, kind = NEON\<rparr>
      else if cfg_wasm32_simd b then \<lparr>build = b, kind = WASM32_SIMD\<rparr>
      else \<lparr>build = b, kind = Portable\<rparr>)"

text \<open>The checked constructors; one that the \<open>cfg\<close> leaves out of the build gives nothing.\<close>

definition portable_platform :: "b3_build \<Rightarrow> platform" where
  "portable_platform b = \<lparr>build = b, kind = Portable\<rparr>"

definition sse2_platform :: "b3_build \<Rightarrow> platform option" where
  "sse2_platform b = (if cfg_x86 b \<and> sse2_detected b then Some \<lparr>build = b, kind = SSE2\<rparr> else None)"

definition sse41_platform :: "b3_build \<Rightarrow> platform option" where
  "sse41_platform b = (if cfg_x86 b \<and> sse41_detected b then Some \<lparr>build = b, kind = SSE41\<rparr> else None)"

definition avx2_platform :: "b3_build \<Rightarrow> platform option" where
  "avx2_platform b = (if cfg_x86 b \<and> avx2_detected b then Some \<lparr>build = b, kind = AVX2\<rparr> else None)"

definition avx512_platform :: "b3_build \<Rightarrow> platform option" where
  "avx512_platform b =
     (if cfg_x86 b \<and> cfg_avx512_ffi b \<and> avx512_detected b then Some \<lparr>build = b, kind = AVX512\<rparr> else None)"

definition neon_platform :: "b3_build \<Rightarrow> platform option" where
  "neon_platform b = (if cfg_neon b then Some \<lparr>build = b, kind = NEON\<rparr> else None)"

definition wasm32_platform :: "b3_build \<Rightarrow> platform option" where
  "wasm32_platform b = (if cfg_wasm32_simd b then Some \<lparr>build = b, kind = WASM32_SIMD\<rparr> else None)"

fun kind_degree :: "platform_kind \<Rightarrow> nat" where
  "kind_degree Portable = 1"
| "kind_degree SSE2 = 4"
| "kind_degree SSE41 = 4"
| "kind_degree AVX2 = 8"
| "kind_degree AVX512 = 16"
| "kind_degree NEON = 4"
| "kind_degree WASM32_SIMD = 4"

definition simd_degree :: "platform \<Rightarrow> nat" where
  "simd_degree p = kind_degree (kind p)"

definition p_compress_in_place :: "platform \<Rightarrow> compress_fn" where
  "p_compress_in_place p cv block block_len counter flags =
     (case kind p of
        Portable \<Rightarrow> compress_in_place cv block block_len counter flags
      | SSE2 \<Rightarrow> kern_compress_in_place (build p) SSE2 cv block block_len counter flags
      | SSE41 \<Rightarrow> kern_compress_in_place (build p) SSE41 cv block block_len counter flags
      | AVX2 \<Rightarrow> kern_compress_in_place (build p) SSE41 cv block block_len counter flags
      | AVX512 \<Rightarrow> kern_compress_in_place (build p) AVX512 cv block block_len counter flags
      | NEON \<Rightarrow> compress_in_place cv block block_len counter flags
      | WASM32_SIMD \<Rightarrow> kern_compress_in_place (build p) WASM32_SIMD cv block block_len counter flags)"

definition p_compress_xof :: "platform \<Rightarrow> compress_xof_fn" where
  "p_compress_xof p cv block block_len counter flags =
     (case kind p of
        Portable \<Rightarrow> compress_xof cv block block_len counter flags
      | SSE2 \<Rightarrow> kern_compress_xof (build p) SSE2 cv block block_len counter flags
      | SSE41 \<Rightarrow> kern_compress_xof (build p) SSE41 cv block block_len counter flags
      | AVX2 \<Rightarrow> kern_compress_xof (build p) SSE41 cv block block_len counter flags
      | AVX512 \<Rightarrow> kern_compress_xof (build p) AVX512 cv block block_len counter flags
      | NEON \<Rightarrow> compress_xof cv block block_len counter flags
      | WASM32_SIMD \<Rightarrow> kern_compress_xof (build p) WASM32_SIMD cv block block_len counter flags)"

subsection \<open>\<open>hash_many\<close>\<close>

text \<open>\<open>f(.., &mut out[a..b])\<close>: the callee sees, and rewrites, a window of the buffer.\<close>

definition on_window :: "nat \<Rightarrow> nat \<Rightarrow> bytes \<Rightarrow> (bytes \<Rightarrow> bytes option) \<Rightarrow> bytes option" where
  "on_window a b out f =
     do {
       assert_that (a \<le> b \<and> b \<le> length out);
       w \<leftarrow> f (subslice a b out);
       Some (put_slice a w out)
     }"

definition hash_many_simd :: "platform \<Rightarrow> hash_many_fn" where
  "hash_many_simd p inputs key counter inc flags fs fe out =
     (case kind p of
        Portable \<Rightarrow> Some (hash_many inputs key counter inc flags fs fe out)
      | k \<Rightarrow> kern_hash_many (build p) k inputs key counter inc flags fs fe out)"

function hash_many_tail :: "platform \<Rightarrow> hash_many_fn" where
  "hash_many_tail p inputs key counter inc flags fs fe out =
     (if cfg_x86 (build p) then
        (if cfg_avx512_ffi (build p) \<and> kind p = AVX512 \<and> 8 \<le> length inputs then
           do {
             out \<leftarrow> on_window 0 (8 * OUT_LEN) out
               (hash_many_simd p (take 8 inputs) key counter inc flags fs fe);
             (if length inputs = 8 then Some out
              else do {
                let rest_counter = (if inc then counter + 8 else counter);
                on_window (8 * OUT_LEN) (length out) out
                  (hash_many_tail p (drop 8 inputs) key rest_counter inc flags fs fe)
              })
           }
         else
           (case kind p of
              SSE41 \<Rightarrow> kern_hash_many (build p) SSE41 inputs key counter inc flags fs fe out
            | AVX2 \<Rightarrow>
                (if sse41_detected (build p)
                 then kern_hash_many (build p) SSE41 inputs key counter inc flags fs fe out
                 else Some (hash_many inputs key counter inc flags fs fe out))
            | AVX512 \<Rightarrow>
                (if sse41_detected (build p)
                 then kern_hash_many (build p) SSE41 inputs key counter inc flags fs fe out
                 else Some (hash_many inputs key counter inc flags fs fe out))
            | SSE2 \<Rightarrow> kern_hash_many (build p) SSE2 inputs key counter inc flags fs fe out
            | _ \<Rightarrow> Some (hash_many inputs key counter inc flags fs fe out)))
      else Some (hash_many inputs key counter inc flags fs fe out))"
  by pat_completeness auto
termination
  by (relation "measure (\<lambda>(p, inputs, rest). length inputs)") auto

declare hash_many_tail.simps [simp del]

text \<open>
  \<open>N\<close> is the constant length of the inputs.  A slice of inputs that exists in memory has
  fewer than \<open>isize::MAX\<close> bytes, so \<open>checked_mul\<close> does not fail.
\<close>

definition p_hash_many :: "platform \<Rightarrow> nat \<Rightarrow> hash_many_fn" where
  "p_hash_many p N inputs key counter inc flags fs fe out =
     do {
       assert_that (N mod BLOCK_LEN = 0);
       let out_needed = length inputs * OUT_LEN;
       assert_that (out_needed < 2 ^ 64);
       assert_that (out_needed \<le> length out);
       let degree = simd_degree p;
       let full = (length inputs div degree) * degree;
       out \<leftarrow> (if 0 < full
               then on_window 0 (full * OUT_LEN) out
                 (hash_many_simd p (take full inputs) key counter inc flags fs fe)
               else Some out);
       (if full < length inputs then do {
          let tail_counter = (if inc then counter + of_nat full else counter);
          on_window (full * OUT_LEN) (length out) out
            (hash_many_tail p (drop full inputs) key tail_counter inc flags fs fe)
        } else Some out)
     }"

subsection \<open>\<open>xof_many\<close>\<close>

function xof_partial ::
  "platform \<Rightarrow> cv_words \<Rightarrow> bytes \<Rightarrow> u8 \<Rightarrow> u64 \<Rightarrow> u8 \<Rightarrow> nat \<Rightarrow> u64 \<Rightarrow> nat \<Rightarrow> bytes \<Rightarrow> bytes"
where
  "xof_partial p cv block block_len counter flags n block_index written out =
     (if written < n then
        let produced = p_compress_xof p cv block block_len (counter + block_index) flags;
            m = min BLOCK_LEN (n - written);
            out = put_slice written (take m produced) out
        in xof_partial p cv block block_len counter flags n (block_index + 1) (written + m) out
      else out)"
  by pat_completeness auto
termination
  by (relation "measure (\<lambda>(p, cv, block, block_len, counter, flags, n, block_index, written, out).
        n - written)") (auto simp: BLOCK_LEN_def)

declare xof_partial.simps [simp del]

text \<open>The loop over \<open>out.chunks_exact_mut(BLOCK_LEN)\<close>, for the number of whole blocks of \<open>out\<close>.\<close>

fun xof_blocks :: "platform \<Rightarrow> cv_words \<Rightarrow> bytes \<Rightarrow> u8 \<Rightarrow> u64 \<Rightarrow> u8 \<Rightarrow> nat \<Rightarrow> bytes" where
  "xof_blocks p cv block block_len counter flags 0 = []"
| "xof_blocks p cv block block_len counter flags (Suc n) =
     p_compress_xof p cv block block_len counter flags
     @ xof_blocks p cv block block_len (counter + 1) flags n"

definition xof_many :: "platform \<Rightarrow> xof_many_fn" where
  "xof_many p cv block block_len counter flags out =
     (if length out mod BLOCK_LEN \<noteq> 0 then
        Some (xof_partial p cv block block_len counter flags (length out) 0 0 out)
      else if out = [] then Some out
      else if BLOCK_LEN < length out then
        Some (xof_blocks p cv block block_len counter flags (length out div BLOCK_LEN))
      else if kind p = AVX512 \<and> cfg_avx512_ffi (build p) \<and> cfg_unix (build p) \<and> cfg_x86 (build p) then
        kern_xof_many (build p) cv block block_len counter flags out
      else Some (xof_blocks p cv block block_len counter flags (length out div BLOCK_LEN)))"

subsection \<open>What the crate relies on\<close>

fun safe_group :: "platform_kind \<Rightarrow> nat \<Rightarrow> bool" where
  "safe_group AVX2 n \<longleftrightarrow> 8 dvd n"
| "safe_group AVX512 n \<longleftrightarrow> 16 dvd n \<or> n = 8"
| "safe_group _ n \<longleftrightarrow> True"

definition kernels_ok :: "b3_build \<Rightarrow> bool" where
  "kernels_ok b \<longleftrightarrow>
     (\<forall>k cv block block_len counter flags. length cv = 8 \<and> length block = 64 \<longrightarrow>
        kern_compress_in_place b k cv block block_len counter flags
          = compress_in_place cv block block_len counter flags
        \<and> kern_compress_xof b k cv block block_len counter flags
          = compress_xof cv block block_len counter flags) \<and>
     (\<forall>k N inputs key counter inc flags fs fe out.
        safe_group k (length inputs) \<and> length key = 8 \<and> N mod 64 = 0 \<and> (\<forall>x \<in> set inputs. length x = N)
          \<and> 32 * length inputs \<le> length out \<longrightarrow>
        kern_hash_many b k inputs key counter inc flags fs fe out
          = Some (hash_many inputs key counter inc flags fs fe out)) \<and>
     (\<forall>cv block block_len counter flags out.
        length cv = 8 \<and> length block = 64 \<and> length out = 64 \<longrightarrow>
        kern_xof_many b cv block block_len counter flags out
          = Some (compress_xof cv block block_len counter flags))"

text \<open>A kind exists only in the builds whose \<open>cfg\<close> has it.\<close>

fun kind_in_build :: "b3_build \<Rightarrow> platform_kind \<Rightarrow> bool" where
  "kind_in_build b Portable \<longleftrightarrow> True"
| "kind_in_build b SSE2 \<longleftrightarrow> cfg_x86 b"
| "kind_in_build b SSE41 \<longleftrightarrow> cfg_x86 b"
| "kind_in_build b AVX2 \<longleftrightarrow> cfg_x86 b"
| "kind_in_build b AVX512 \<longleftrightarrow> cfg_x86 b \<and> cfg_avx512_ffi b"
| "kind_in_build b NEON \<longleftrightarrow> \<not> cfg_x86 b \<and> cfg_neon b"
| "kind_in_build b WASM32_SIMD \<longleftrightarrow> \<not> cfg_x86 b \<and> cfg_wasm32_simd b"

definition platform_ok :: "platform \<Rightarrow> bool" where
  "platform_ok p \<longleftrightarrow> kernels_ok (build p) \<and> kind_in_build (build p) (kind p)"

text \<open>A build whose kernels are as unsafe as the contract permits: it shows the contract can hold.\<close>

definition strict_build :: "bool \<Rightarrow> b3_build" where
  "strict_build avx512 =
     \<lparr>cfg_miri = False, cfg_x86 = True, cfg_avx512_ffi = True, cfg_neon = False, cfg_wasm32_simd = False,
      cfg_unix = True, no_avx512 = \<not> avx512, no_avx2 = False, no_sse41 = False, no_sse2 = False,
      cpu_has = (\<lambda>_. True),
      kern_compress_in_place = (\<lambda>k. compress_in_place),
      kern_compress_xof = (\<lambda>k. compress_xof),
      kern_hash_many = (\<lambda>k inputs key counter inc flags fs fe out.
         if safe_group k (length inputs) then Some (hash_many inputs key counter inc flags fs fe out) else None),
      kern_xof_many = (\<lambda>cv block block_len counter flags out.
         if length out = 64 then Some (compress_xof cv block block_len counter flags) else None)\<rparr>"

lemma strict_build_ok [simp]: "kernels_ok (strict_build avx512)"
  by (simp add: kernels_ok_def strict_build_def)

lemma detect_ok: "kernels_ok b \<Longrightarrow> \<not> (cfg_x86 b \<and> (cfg_neon b \<or> cfg_wasm32_simd b)) \<Longrightarrow> platform_ok (detect b)"
  by (auto simp: platform_ok_def detect_def)

lemma strict_platform_ok [simp]: "platform_ok (detect (strict_build avx512))"
  by (rule detect_ok) (simp_all, simp add: strict_build_def)

subsection \<open>The dispatch computes the portable functions\<close>

lemma compress_in_place_ok [simp]:
  "platform_ok p \<Longrightarrow> length cv = 8 \<Longrightarrow> length block = 64 \<Longrightarrow>
   p_compress_in_place p cv block bl c f = compress_in_place cv block bl c f"
  by (cases "kind p") (simp_all add: p_compress_in_place_def platform_ok_def kernels_ok_def)

lemma compress_xof_ok [simp]:
  "platform_ok p \<Longrightarrow> length cv = 8 \<Longrightarrow> length block = 64 \<Longrightarrow>
   p_compress_xof p cv block bl c f = compress_xof cv block bl c f"
  by (cases "kind p") (simp_all add: p_compress_xof_def platform_ok_def kernels_ok_def)

lemma kern_hash_many_ok:
  assumes "kernels_ok b" "safe_group k (length inputs)" "length key = 8" "N mod 64 = 0"
    and "\<forall>x \<in> set inputs. length x = N" "32 * length inputs \<le> length out"
  shows "kern_hash_many b k inputs key c inc f fs fe out
    = Some (put_slice 0 (concat (hash_many_cvs inputs key c inc f fs fe)) out)"
proof -
  have "kern_hash_many b k inputs key c inc f fs fe out = Some (hash_many inputs key c inc f fs fe out)"
    by (rule assms(1) [unfolded kernels_ok_def, THEN conjunct2, THEN conjunct1, rule_format, where N = N])
      (use assms in simp)
  then show ?thesis using assms by (simp add: hash_many_writes)
qed

lemma hash_many_simd_ok:
  assumes "platform_ok p" "safe_group (kind p) (length inputs)" "length key = 8" "N mod 64 = 0"
    and "\<forall>x \<in> set inputs. length x = N" "32 * length inputs \<le> length out"
  shows "hash_many_simd p inputs key c inc f fs fe out
    = Some (put_slice 0 (concat (hash_many_cvs inputs key c inc f fs fe)) out)"
  using assms by (cases "kind p") (auto simp: hash_many_simd_def platform_ok_def kern_hash_many_ok hash_many_writes)

lemma on_window_put:
  assumes "f (subslice a b out) = Some (put_slice 0 s (subslice a b out))"
    and "a + length s \<le> b" "b \<le> length out"
  shows "on_window a b out f = Some (put_slice a s out)"
proof -
  have "put_slice a (put_slice 0 s (subslice a b out)) out = put_slice a s out"
    by (rule nth_equalityI) (use assms in \<open>auto simp: nth_put_slice subslice_def\<close>)
  then show ?thesis using assms by (simp add: on_window_def)
qed

lemma put_slice_put_slice:
  "a + length s + length t \<le> length out \<Longrightarrow> b = a + length s \<Longrightarrow>
   put_slice b t (put_slice a s out) = put_slice a (s @ t) out"
  by (rule nth_equalityI) (auto simp: nth_put_slice nth_append)

lemma put_slice_Nil [simp]: "put_slice n [] xs = xs"
  by (simp add: put_slice_def)

lemma hash_many_tail_ok:
  assumes "platform_ok p" "length key = 8" "N mod 64 = 0"
    and "\<forall>x \<in> set inputs. length x = N" "32 * length inputs \<le> length out"
  shows "hash_many_tail p inputs key c inc f fs fe out
    = Some (put_slice 0 (concat (hash_many_cvs inputs key c inc f fs fe)) out)"
  using assms(4,5)
proof (induction "length inputs" arbitrary: inputs c out rule: less_induct)
  case less
  have k: "kernels_ok (build p)" using assms by (simp add: platform_ok_def)
  have inputs: "\<forall>x \<in> set (take 8 inputs). length x = N" "\<forall>x \<in> set (drop 8 inputs). length x = N"
    using less.prems by (auto dest: in_set_takeD in_set_dropD)
  show ?case
  proof (cases "cfg_x86 (build p) \<and> cfg_avx512_ffi (build p) \<and> kind p = AVX512 \<and> 8 \<le> length inputs")
    case True
    let ?c = "if inc then c + 8 else c"
    let ?s = "concat (hash_many_cvs (take 8 inputs) key c inc f fs fe)"
    let ?t = "concat (hash_many_cvs (drop 8 inputs) key ?c inc f fs fe)"
    have first: "on_window 0 256 out (hash_many_simd p (take 8 inputs) key c inc f fs fe)
        = Some (put_slice 0 ?s out)"
      by (rule on_window_put, rule hash_many_simd_ok) (use assms True inputs less.prems in auto)
    have rest: "on_window 256 (length out) (put_slice 0 ?s out) (hash_many_tail p (drop 8 inputs) key ?c inc f fs fe)
        = Some (put_slice 256 ?t (put_slice 0 ?s out))"
    proof (rule on_window_put)
      show "hash_many_tail p (drop 8 inputs) key ?c inc f fs fe (subslice 256 (length out) (put_slice 0 ?s out))
        = Some (put_slice 0 ?t (subslice 256 (length out) (put_slice 0 ?s out)))"
        by (rule less.hyps) (use True less.prems inputs assms in auto)
    qed (use True less.prems assms in auto)
    have split: "hash_many_cvs inputs key c inc f fs fe
        = hash_many_cvs (take 8 inputs) key c inc f fs fe @ hash_many_cvs (drop 8 inputs) key ?c inc f fs fe"
      using hash_many_cvs_append [of "take 8 inputs" "drop 8 inputs" key c inc f fs fe] True by simp
    have "put_slice 256 ?t (put_slice 0 ?s out) = put_slice 0 (?s @ ?t) out"
      by (rule put_slice_put_slice) (use True less.prems assms in auto)
    then have joined: "put_slice 256 ?t (put_slice 0 ?s out)
        = put_slice 0 (concat (hash_many_cvs inputs key c inc f fs fe)) out"
      by (simp only: split concat_append)
    have unfolded: "hash_many_tail p inputs key c inc f fs fe out
        = (if length inputs = 8 then Some (put_slice 0 ?s out)
           else on_window 256 (length out) (put_slice 0 ?s out)
             (hash_many_tail p (drop 8 inputs) key ?c inc f fs fe))"
      using True first length_put_slice [of 0 ?s out] less.prems assms(2)
      unfolding hash_many_tail.simps [of p inputs] OUT_LEN_def Let_def by simp
    show ?thesis
    proof (cases "length inputs = 8")
      case True
      then have "?t = []" by simp
      with True unfolded joined show ?thesis by simp
    next
      case False
      then show ?thesis unfolding unfolded rest joined by simp
    qed
  next
    case False
    note kernels = kern_hash_many_ok [OF k _ assms(2,3) less.prems] hash_many_writes [OF assms(2) less.prems(2)]
    show ?thesis
    proof (cases "cfg_x86 (build p)")
      case True
      with False have "(cfg_avx512_ffi (build p) \<and> kind p = AVX512 \<and> 8 \<le> length inputs) = False"
        by blast
      then show ?thesis
        unfolding hash_many_tail.simps [of p inputs] by (simp only: True if_True if_False)
          (cases "kind p", simp_all add: kernels)
    next
      case False
      then show ?thesis unfolding hash_many_tail.simps [of p inputs] by (simp add: kernels)
    qed
  qed
qed

lemma simd_degree_pos [simp]: "0 < simd_degree p"
  by (cases "kind p") (simp_all add: simd_degree_def)

lemma p_hash_many_ok:
  assumes p: "platform_ok p" and key: "length key = 8" and N: "N mod 64 = 0"
    and inputs: "\<forall>x \<in> set inputs. length x = N" and out: "32 * length inputs \<le> length out"
    and mem: "length inputs < 2 ^ 59"
  shows "p_hash_many p N inputs key c inc f fs fe out
    = Some (put_slice 0 (concat (hash_many_cvs inputs key c inc f fs fe)) out)"
proof -
  define full where "full = (length inputs div simd_degree p) * simd_degree p"
  have full: "full \<le> length inputs" by (simp add: full_def)
  let ?c = "if inc then c + of_nat full else c"
  let ?s = "concat (hash_many_cvs (take full inputs) key c inc f fs fe)"
  let ?t = "concat (hash_many_cvs (drop full inputs) key ?c inc f fs fe)"
  have safe: "safe_group (kind p) full"
    by (cases "kind p") (simp_all add: full_def simd_degree_def)
  have parts: "\<forall>x \<in> set (take full inputs). length x = N" "\<forall>x \<in> set (drop full inputs). length x = N"
    using inputs by (auto dest: in_set_takeD in_set_dropD)
  have first: "(if 0 < full then on_window 0 (full * 32) out
      (hash_many_simd p (take full inputs) key c inc f fs fe) else Some out) = Some (put_slice 0 ?s out)"
  proof (cases "0 < full")
    case True
    have "on_window 0 (full * 32) out (hash_many_simd p (take full inputs) key c inc f fs fe)
        = Some (put_slice 0 ?s out)"
      by (rule on_window_put, rule hash_many_simd_ok) (use full safe parts p key N out in auto)
    with True show ?thesis by simp
  qed (simp add: put_slice_def)
  have rest: "(if full < length inputs then on_window (full * 32) (length out) (put_slice 0 ?s out)
      (hash_many_tail p (drop full inputs) key ?c inc f fs fe) else Some (put_slice 0 ?s out))
      = Some (put_slice (full * 32) ?t (put_slice 0 ?s out))"
  proof (cases "full < length inputs")
    case True
    have "on_window (full * 32) (length out) (put_slice 0 ?s out)
        (hash_many_tail p (drop full inputs) key ?c inc f fs fe)
        = Some (put_slice (full * 32) ?t (put_slice 0 ?s out))"
      by (rule on_window_put, rule hash_many_tail_ok) (use full parts p key N out in auto)
    with True show ?thesis by simp
  next
    case False
    with full have "drop full inputs = []" by simp
    with False show ?thesis by simp
  qed
  have split: "hash_many_cvs inputs key c inc f fs fe
      = hash_many_cvs (take full inputs) key c inc f fs fe @ hash_many_cvs (drop full inputs) key ?c inc f fs fe"
    using hash_many_cvs_append [of "take full inputs" "drop full inputs" key c inc f fs fe] full
    by (simp add: min_def)
  have "put_slice (full * 32) ?t (put_slice 0 ?s out) = put_slice 0 (?s @ ?t) out"
    by (rule put_slice_put_slice) (use full key out in auto)
  then have joined: "put_slice (full * 32) ?t (put_slice 0 ?s out)
      = put_slice 0 (concat (hash_many_cvs inputs key c inc f fs fe)) out"
    by (simp only: split concat_append)
  have len: "length (put_slice 0 ?s out) = length out"
    by (rule length_put_slice) (use full key out in simp)
  have "assert_that (N mod 64 = 0) = Some ()" "assert_that (length inputs * 32 < 2 ^ 64) = Some ()"
    "assert_that (length inputs * 32 \<le> length out) = Some ()"
    using N out mem by simp_all
  then show ?thesis
    unfolding p_hash_many_def Let_def BLOCK_LEN_def OUT_LEN_def full_def [symmetric]
    by (simp only: bind.bind_lunit first len rest joined)
qed

subsection \<open>\<open>xof_many\<close> writes the output stream\<close>

definition xof_stream :: "cv_words \<Rightarrow> bytes \<Rightarrow> u8 \<Rightarrow> u64 \<Rightarrow> u8 \<Rightarrow> nat \<Rightarrow> bytes" where
  "xof_stream cv block block_len counter flags n =
     block_stream (\<lambda>i. compress_xof cv block block_len (counter + of_nat i) flags) n"

lemma length_xof_stream [simp, len_simps]: "length (xof_stream cv b l c f n) = n"
  by (simp add: xof_stream_def)

lemma xof_partial_stop [simp]: "xof_partial p cv block bl c f n k n out = out"
  by (subst xof_partial.simps) simp

lemma xof_partial_ok:
  assumes p: "platform_ok p" "length cv = 8" "length block = 64"
  shows "64 * q \<le> n \<Longrightarrow> length out = n \<Longrightarrow>
    take (64 * q) out = take (64 * q) (xof_stream cv block bl c f n) \<Longrightarrow>
    xof_partial p cv block bl c f n (of_nat q) (64 * q) out = xof_stream cv block bl c f n"
proof (induction "n - 64 * q" arbitrary: q out rule: less_induct)
  case less
  let ?S = "xof_stream cv block bl c f n"
  let ?m = "min 64 (n - 64 * q)"
  let ?out = "put_slice (64 * q) (take ?m (compress_xof cv block bl (c + of_nat q) f)) out"
  show ?case
  proof (cases "64 * q < n")
    case True
    have step: "xof_partial p cv block bl c f n (of_nat q) (64 * q) out
        = xof_partial p cv block bl c f n (of_nat (Suc q)) (64 * q + ?m) ?out"
      using True p by (subst xof_partial.simps) (simp add: BLOCK_LEN_def Let_def add.commute)
    have nth: "?out ! i = ?S ! i" if "i < 64 * q + ?m" for i
    proof (cases "i < 64 * q")
      case True
      then have "?out ! i = take (64 * q) out ! i"
        using that less.prems(1,2) by (simp add: nth_put_slice)
      also have "\<dots> = take (64 * q) ?S ! i" by (simp only: less.prems)
      also have "\<dots> = ?S ! i" using True by simp
      finally show ?thesis .
    next
      case False
      then have "i div 64 = q" using that by (auto simp: div_nat_eqI)
      then have "i div 64 = q" "i mod 64 = i - 64 * q" by (auto simp: modulo_nat_def)
      moreover have lt: "i - 64 * q < ?m" using False that by linarith
      moreover have "i < n" using that True by linarith
      ultimately have "?S ! i = compress_xof cv block bl (c + of_nat q) f ! (i - 64 * q)"
        by (simp add: xof_stream_def nth_block_stream)
      moreover have "?out ! i = compress_xof cv block bl (c + of_nat q) f ! (i - 64 * q)"
        using False that less.prems(1,2) lt \<open>i < n\<close> by (simp add: nth_put_slice)
      ultimately show ?thesis by simp
    qed
    show ?thesis
    proof (cases "64 * q + 64 \<le> n")
      case True
      then have m: "?m = 64" by simp
      have "xof_partial p cv block bl c f n (of_nat (Suc q)) (64 * Suc q) ?out = ?S"
      proof (rule less.hyps)
        show "take (64 * Suc q) ?out = take (64 * Suc q) ?S"
          using True nth less.prems by (intro nth_equalityI) auto
      qed (use True less.prems in auto)
      then show ?thesis using step m by (simp add: add.commute)
    next
      case False
      then have m: "64 * q + ?m = n" using True by simp
      then have "?out = ?S"
        using nth less.prems by (intro nth_equalityI) auto
      then show ?thesis using step m by simp
    qed
  next
    case False
    then show ?thesis using less.prems by simp
  qed
qed

lemma xof_blocks_ok:
  assumes p: "platform_ok p" "length cv = 8" "length block = 64"
  shows "xof_blocks p cv block bl c f n = xof_stream cv block bl c f (64 * n)"
proof -
  have "xof_blocks p cv block bl c f n
      = concat (map (\<lambda>i. compress_xof cv block bl (c + of_nat i) f) [0..<n])"
  proof (induction n arbitrary: c)
    case 0
    then show ?case by simp
  next
    case (Suc n)
    have "map (\<lambda>i. compress_xof cv block bl (c + of_nat i) f) [0..<Suc n]
        = compress_xof cv block bl c f # map (\<lambda>i. compress_xof cv block bl (c + 1 + of_nat i) f) [0..<n]"
      by (simp add: upt_conv_Cons map_Suc_upt [symmetric] add.assoc del: upt_Suc map_Suc_upt)
    then show ?case using Suc [of "c + 1"] p by (simp del: upt_Suc)
  qed
  then show ?thesis by (simp add: xof_stream_def block_stream_whole)
qed

lemma kern_xof_many_ok:
  "kernels_ok b \<Longrightarrow> length cv = 8 \<Longrightarrow> length block = 64 \<Longrightarrow> length out = 64 \<Longrightarrow>
   kern_xof_many b cv block bl c f out = Some (compress_xof cv block bl c f)"
  by (simp add: kernels_ok_def)

lemma xof_many_ok:
  assumes p: "platform_ok p" "length cv = 8" "length block = 64"
  shows "xof_many p cv block bl c f out = Some (xof_stream cv block bl c f (length out))"
proof -
  have one: "xof_stream cv block bl c f 64 = compress_xof cv block bl c f"
    using xof_blocks_ok [OF p, of bl c f 1] p by simp
  show ?thesis
  proof (cases "length out mod 64 = 0")
    case True
    then have "64 * (length out div 64) = length out" by auto
    with True one p xof_blocks_ok [OF p, of bl c f "length out div 64"] show ?thesis
      by (auto simp: xof_many_def BLOCK_LEN_def kern_xof_many_ok platform_ok_def xof_stream_def
          block_stream_def not_less le_less)
  next
    case False
    then show ?thesis
      using xof_partial_ok [OF p, of 0 "length out" out bl c f] by (simp add: xof_many_def BLOCK_LEN_def)
  qed
qed

subsection \<open>Properties\<close>

text \<open>C22. \<open>hash_many\<close> on any detected platform, with its splitting of the inputs at the AVX
  degrees and its fall back to the portable code for the tail, writes exactly the chaining values of
  the portable \<open>hash_many\<close> at the front of the output and leaves the rest of the buffer alone.
  The AVX-512 kernel is never given a group it must not see.\<close>

theorem hash_many_dispatch_is_portable:
  assumes "platform_ok p" and "length key = 8" and "N mod 64 = 0"
    and "\<forall>x \<in> set inputs. length x = N" and "32 * length inputs \<le> length out"
    and "length inputs < 2 ^ 59"
  shows "p_hash_many p N inputs key c inc f fs fe out
    = Some (put_slice 0 (concat (hash_many_cvs inputs key c inc f fs fe)) out)"
  using assms by (intro p_hash_many_ok)

lemma hash_many_dispatch_is_portable_witness:
  "p_hash_many (detect (strict_build True)) 64 (replicate 21 (replicate 64 5)) IV 7 True 0 1 2 (replicate 700 0)
    = Some (put_slice 0 (concat (hash_many_cvs (replicate 21 (replicate 64 5)) IV 7 True 0 1 2)) (replicate 700 0))"
  by (rule hash_many_dispatch_is_portable) (simp_all add: IV_def)

text \<open>\<open>xof_many\<close> fills every byte of the output with the root output stream from the given
  block counter on, on every platform and for lengths that are not a multiple of the block.\<close>

theorem xof_many_is_stream:
  assumes "platform_ok p" and "length cv = 8" and "length block = 64"
  shows "xof_many p cv block bl c f out = Some (xof_stream cv block bl c f (length out))"
  using assms by (rule xof_many_ok)

lemma xof_many_is_stream_witness:
  "xof_many (detect (strict_build True)) IV (replicate 64 1) 64 0xffffffffffffffff 8 (replicate 130 0)
    = Some (xof_stream IV (replicate 64 1) 64 0xffffffffffffffff 8 (length (replicate 130 (0 :: u8))))"
  by (rule xof_many_is_stream) (simp_all add: IV_def)

text \<open>
  The instruction sets a kind needs; NEON and WebAssembly are fixed when the crate is built.  A
  processor with a wider vector set has the narrower ones.
\<close>

fun isa_supported :: "b3_build \<Rightarrow> platform_kind \<Rightarrow> bool" where
  "isa_supported b Portable \<longleftrightarrow> True"
| "isa_supported b SSE2 \<longleftrightarrow> cfg_x86 b \<and> cpu_has b CPU_SSE2"
| "isa_supported b SSE41 \<longleftrightarrow> cfg_x86 b \<and> cpu_has b CPU_SSE41"
| "isa_supported b AVX2 \<longleftrightarrow> cfg_x86 b \<and> cpu_has b CPU_AVX2"
| "isa_supported b AVX512 \<longleftrightarrow> cfg_x86 b \<and> cpu_has b CPU_AVX512F \<and> cpu_has b CPU_AVX512VL"
| "isa_supported b NEON \<longleftrightarrow> cfg_neon b"
| "isa_supported b WASM32_SIMD \<longleftrightarrow> cfg_wasm32_simd b"

lemmas detected_defs = avx512_detected_def avx2_detected_def sse41_detected_def sse2_detected_def

text \<open>What \<open>detect\<close> takes has at least the degree of each kind that is there.\<close>

lemma detect_degree:
  assumes "\<not> cfg_miri b" "\<not> (cfg_x86 b \<and> (cfg_neon b \<or> cfg_wasm32_simd b))"
  shows "1 \<le> kind_degree (kind (detect b))"
    and "cfg_x86 b \<and> (sse2_detected b \<or> sse41_detected b) \<or> cfg_neon b \<or> cfg_wasm32_simd b \<Longrightarrow> 4 \<le> kind_degree (kind (detect b))"
    and "cfg_x86 b \<and> avx2_detected b \<Longrightarrow> 8 \<le> kind_degree (kind (detect b))"
    and "cfg_x86 b \<and> cfg_avx512_ffi b \<and> avx512_detected b \<Longrightarrow> 16 \<le> kind_degree (kind (detect b))"
  using assms by (auto simp: detect_def)

text \<open>The platforms that code outside the module can get hold of.\<close>

inductive public_platform :: "b3_build \<Rightarrow> platform \<Rightarrow> bool" for b where
  detected: "public_platform b (detect b)"
| portable: "public_platform b (portable_platform b)"
| checked: "Some p \<in> {sse2_platform b, sse41_platform b, avx2_platform b, avx512_platform b, neon_platform b, wasm32_platform b}
    \<Longrightarrow> public_platform b p"

inductive_cases public_platformE: "public_platform b p"

text \<open>C29. The type \<open>Platform\<close> keeps its promise: whichever public function made it, a platform names
  an instruction set that the processor or the build has, for the build it was made in, so no safe
  caller reaches a kernel that would fault; and on one architecture, outside Miri, \<open>detect\<close> takes
  the widest of them.\<close>

theorem platform_names_supported_isa:
  assumes "public_platform b p"
  shows "build p = b \<and> isa_supported b (kind p)
    \<and> (\<not> cfg_miri b \<and> \<not> (cfg_x86 b \<and> (cfg_neon b \<or> cfg_wasm32_simd b)) \<longrightarrow> kind_degree (kind p) \<le> kind_degree (kind (detect b)))"
  using assms
proof cases
  case detected
  then show ?thesis by (simp add: detect_def detected_defs)
next
  case portable
  then show ?thesis using detect_degree(1) [of b] by (simp add: portable_platform_def)
next
  case checked
  then consider "Some p = sse2_platform b" | "Some p = sse41_platform b" | "Some p = avx2_platform b"
    | "Some p = avx512_platform b" | "Some p = neon_platform b" | "Some p = wasm32_platform b"
    by blast
  then show ?thesis
  proof cases
    case 1
    then have "cfg_x86 b" "sse2_detected b" "p = \<lparr>build = b, kind = SSE2\<rparr>"
      by (simp_all add: sse2_platform_def split: if_splits)
    then show ?thesis using detect_degree(2) [of b] by (simp add: detected_defs split: if_splits)
  next
    case 2
    then have "cfg_x86 b" "sse41_detected b" "p = \<lparr>build = b, kind = SSE41\<rparr>"
      by (simp_all add: sse41_platform_def split: if_splits)
    then show ?thesis using detect_degree(2) [of b] by (simp add: detected_defs split: if_splits)
  next
    case 3
    then have "cfg_x86 b" "avx2_detected b" "p = \<lparr>build = b, kind = AVX2\<rparr>"
      by (simp_all add: avx2_platform_def split: if_splits)
    then show ?thesis using detect_degree(3) [of b] by (simp add: detected_defs split: if_splits)
  next
    case 4
    then have "cfg_x86 b" "cfg_avx512_ffi b" "avx512_detected b" "p = \<lparr>build = b, kind = AVX512\<rparr>"
      by (simp_all add: avx512_platform_def split: if_splits)
    then show ?thesis using detect_degree(4) [of b] by (simp add: detected_defs split: if_splits)
  next
    case 5
    then have "cfg_neon b" "p = \<lparr>build = b, kind = NEON\<rparr>" by (simp_all add: neon_platform_def split: if_splits)
    then show ?thesis using detect_degree(2) [of b] by simp
  next
    case 6
    then have "cfg_wasm32_simd b" "p = \<lparr>build = b, kind = WASM32_SIMD\<rparr>"
      by (simp_all add: wasm32_platform_def split: if_splits)
    then show ?thesis using detect_degree(2) [of b] by simp
  qed
qed

lemma platform_names_supported_isa_witness: "kind_degree SSE41 \<le> kind_degree (kind (detect (strict_build True)))"
proof -
  have "public_platform (strict_build True) \<lparr>build = strict_build True, kind = SSE41\<rparr>"
    by (rule public_platform.checked) (simp add: sse41_platform_def sse41_detected_def strict_build_def)
  from platform_names_supported_isa [OF this] show ?thesis by (simp add: strict_build_def)
qed

end
