(* ===== verification/Blake3_Chunk.thy ===== *)
theory Blake3_Chunk
  imports Blake3_Platform
begin

section \<open>BLAKE3 outputs and chunk states\<close>

text \<open>
  \<open>Output\<close> and \<open>ChunkState\<close> of \<open>blake3/src/lib.rs\<close> with their methods.  A chunk
  state is determined by the bytes it has absorbed: \<open>state_of\<close> is that function, and
  \<open>update\<close> is shown to compute it.  \<open>buf_len\<close> and \<open>blocks_compressed\<close> are bytes,
  as in the code.
\<close>

record b3_output =
  input_chaining_value :: cv_words
  o_block :: bytes
  o_block_len :: u8
  o_counter :: u64
  o_flags :: u8
  o_platform :: platform

definition chaining_value :: "b3_output \<Rightarrow> bytes" where
  "chaining_value ou =
     le_bytes_from_words_32
       (p_compress_in_place (o_platform ou) (input_chaining_value ou) (o_block ou) (o_block_len ou)
          (o_counter ou) (o_flags ou))"

definition root_hash :: "b3_output \<Rightarrow> bytes" where
  "root_hash ou =
     le_bytes_from_words_32
       (p_compress_in_place (o_platform ou) (input_chaining_value ou) (o_block ou) (o_block_len ou)
          0 (o_flags ou OR ROOT))"

definition root_output_block :: "b3_output \<Rightarrow> bytes" where
  "root_output_block ou =
     p_compress_xof (o_platform ou) (input_chaining_value ou) (o_block ou) (o_block_len ou)
       (o_counter ou) (o_flags ou OR ROOT)"

subsection \<open>\<open>ChunkState\<close>\<close>

record chunk_state =
  cs_cv :: cv_words
  chunk_counter :: u64
  cs_buf :: bytes
  cs_buf_len :: u8
  blocks_compressed :: u8
  cs_flags :: u8
  cs_platform :: platform

definition cs_new :: "cv_words \<Rightarrow> u64 \<Rightarrow> u8 \<Rightarrow> platform \<Rightarrow> chunk_state" where
  "cs_new key counter flags p =
     \<lparr>cs_cv = key, chunk_counter = counter, cs_buf = replicate BLOCK_LEN 0, cs_buf_len = 0,
      blocks_compressed = 0, cs_flags = flags, cs_platform = p\<rparr>"

definition cs_count :: "chunk_state \<Rightarrow> nat" where
  "cs_count cs = BLOCK_LEN * unat (blocks_compressed cs) + unat (cs_buf_len cs)"

text \<open>\<open>fill_buf\<close> returns the state and what is left of the input.\<close>

definition fill_buf :: "chunk_state \<Rightarrow> bytes \<Rightarrow> chunk_state \<times> bytes" where
  "fill_buf cs inp =
     (let want = BLOCK_LEN - unat (cs_buf_len cs);
          n = min want (length inp);
          cs = cs\<lparr>cs_buf := put_slice (unat (cs_buf_len cs)) (take n inp) (cs_buf cs),
                  cs_buf_len := cs_buf_len cs + of_nat n\<rparr>
      in (cs, drop n inp))"

definition start_flag :: "chunk_state \<Rightarrow> u8" where
  "start_flag cs = (if blocks_compressed cs = 0 then CHUNK_START else 0)"

text \<open>\<open>while input.len() > BLOCK_LEN\<close>: blocks compressed straight from the input.\<close>

function cs_blocks :: "chunk_state \<Rightarrow> bytes \<Rightarrow> chunk_state \<times> bytes" where
  "cs_blocks cs inp =
     (if BLOCK_LEN < length inp then
        let block_flags = cs_flags cs OR start_flag cs;
            cs = cs\<lparr>cs_cv := p_compress_in_place (cs_platform cs) (cs_cv cs) (take BLOCK_LEN inp)
                              (of_nat BLOCK_LEN) (chunk_counter cs) block_flags,
                    blocks_compressed := blocks_compressed cs + 1\<rparr>
        in cs_blocks cs (drop BLOCK_LEN inp)
      else (cs, inp))"
  by pat_completeness auto
termination
  by (relation "measure (\<lambda>(cs, inp). length inp)") (auto simp: BLOCK_LEN_def)

declare cs_blocks.simps [simp del]

text \<open>The first part of \<open>update\<close>: a partial block in the buffer is completed first.\<close>

definition cs_flush :: "chunk_state \<Rightarrow> bytes \<Rightarrow> chunk_state \<times> bytes" where
  "cs_flush cs inp =
     (if 0 < cs_buf_len cs then
        (case fill_buf cs inp of (cs, inp) \<Rightarrow>
           if inp \<noteq> [] then
             let block_flags = cs_flags cs OR start_flag cs;
                 cs = cs\<lparr>cs_cv := p_compress_in_place (cs_platform cs) (cs_cv cs) (cs_buf cs)
                                   (of_nat BLOCK_LEN) (chunk_counter cs) block_flags,
                         cs_buf_len := 0,
                         cs_buf := replicate BLOCK_LEN 0,
                         blocks_compressed := blocks_compressed cs + 1\<rparr>
             in (cs, inp)
           else (cs, inp))
      else (cs, inp))"

definition cs_update :: "chunk_state \<Rightarrow> bytes \<Rightarrow> chunk_state option" where
  "cs_update cs inp =
     do {
       assert_that (cs_count cs \<le> CHUNK_LEN \<and> length inp \<le> CHUNK_LEN - cs_count cs);
       let (cs, inp) = cs_flush cs inp;
       let (cs, inp) = cs_blocks cs inp;
       Some (fst (fill_buf cs inp))
     }"

definition cs_output :: "chunk_state \<Rightarrow> b3_output" where
  "cs_output cs =
     (let block_flags = cs_flags cs OR start_flag cs OR CHUNK_END
      in \<lparr>input_chaining_value = cs_cv cs, o_block = cs_buf cs, o_block_len = cs_buf_len cs,
          o_counter = chunk_counter cs, o_flags = block_flags, o_platform = cs_platform cs\<rparr>)"

definition parent_node_output :: "bytes \<Rightarrow> bytes \<Rightarrow> cv_words \<Rightarrow> u8 \<Rightarrow> platform \<Rightarrow> b3_output" where
  "parent_node_output left_child right_child key flags p =
     \<lparr>input_chaining_value = key, o_block = left_child @ right_child, o_block_len = of_nat BLOCK_LEN,
      o_counter = 0, o_flags = flags OR PARENT, o_platform = p\<rparr>"

subsection \<open>Outputs, as functions of the node\<close>

text \<open>
  \<open>out_cv\<close> is the chaining value of a node without the dispatch; \<open>output_wf\<close> says the
  node's arrays have their sizes.
\<close>

definition out_cv :: "b3_output \<Rightarrow> bytes" where
  "out_cv ou =
     le_bytes_from_words_32
       (compress_in_place (input_chaining_value ou) (o_block ou) (o_block_len ou) (o_counter ou) (o_flags ou))"

definition output_wf :: "b3_output \<Rightarrow> bool" where
  "output_wf ou \<longleftrightarrow> length (input_chaining_value ou) = 8 \<and> length (o_block ou) = 64 \<and> platform_ok (o_platform ou)"

lemma length_out_cv [simp, len_simps]: "length (out_cv ou) = 32"
  by (simp add: out_cv_def le_bytes_from_words_32_def)

lemma chaining_value_ok [simp]: "output_wf ou \<Longrightarrow> chaining_value ou = out_cv ou"
  by (simp add: chaining_value_def out_cv_def output_wf_def)

lemma parent_output_wf [simp]:
  "length l = 32 \<Longrightarrow> length r = 32 \<Longrightarrow> length key = 8 \<Longrightarrow> platform_ok p \<Longrightarrow>
   output_wf (parent_node_output l r key flags p)"
  by (simp add: output_wf_def parent_node_output_def)

subsection \<open>A chunk state is determined by its bytes\<close>

text \<open>
  The last block, even a full one, stays in the buffer: of \<open>n\<close> bytes,
  \<open>(n - 1) div 64\<close> blocks have been compressed.
\<close>

definition full_blocks :: "bytes \<Rightarrow> nat" where
  "full_blocks xs = (length xs - 1) div 64"

definition last_block :: "bytes \<Rightarrow> bytes" where
  "last_block xs = drop (64 * full_blocks xs) xs"

definition pad_block :: "bytes \<Rightarrow> bytes" where
  "pad_block xs = xs @ replicate (64 - length xs) 0"

fun chunk_cv :: "cv_words \<Rightarrow> u64 \<Rightarrow> u8 \<Rightarrow> bytes \<Rightarrow> nat \<Rightarrow> cv_words" where
  "chunk_cv key counter flags xs 0 = key"
| "chunk_cv key counter flags xs (Suc n) =
     compress_in_place (chunk_cv key counter flags xs n) (subslice (64 * n) (64 * n + 64) xs) 64 counter
       (flags OR (if n = 0 then CHUNK_START else 0))"

definition state_of :: "cv_words \<Rightarrow> u64 \<Rightarrow> u8 \<Rightarrow> platform \<Rightarrow> bytes \<Rightarrow> chunk_state" where
  "state_of key counter flags p xs =
     \<lparr>cs_cv = chunk_cv key counter flags xs (full_blocks xs), chunk_counter = counter,
      cs_buf = pad_block (last_block xs), cs_buf_len = of_nat (length (last_block xs)),
      blocks_compressed = of_nat (full_blocks xs), cs_flags = flags, cs_platform = p\<rparr>"

definition chunk_output :: "cv_words \<Rightarrow> u64 \<Rightarrow> u8 \<Rightarrow> platform \<Rightarrow> bytes \<Rightarrow> b3_output" where
  "chunk_output key counter flags p xs =
     \<lparr>input_chaining_value = chunk_cv key counter flags xs (full_blocks xs),
      o_block = pad_block (last_block xs), o_block_len = of_nat (length (last_block xs)),
      o_counter = counter,
      o_flags = flags OR (if full_blocks xs = 0 then CHUNK_START else 0) OR CHUNK_END, o_platform = p\<rparr>"

lemma length_chunk_cv [simp, len_simps]: "length key = 8 \<Longrightarrow> length (chunk_cv key c f xs n) = 8"
  by (cases n) simp_all

lemma length_last_block: "length (last_block xs) = length xs - 64 * full_blocks xs"
  by (simp add: last_block_def)

lemma last_block_bounds:
  "length (last_block xs) \<le> 64" "64 * full_blocks xs \<le> length xs" "xs \<noteq> [] \<Longrightarrow> last_block xs \<noteq> []"
proof -
  have div: "length xs - 1 = 64 * full_blocks xs + (length xs - 1) mod 64"
    by (simp add: full_blocks_def)
  have mod: "(length xs - 1) mod 64 < 64" by simp
  show "length (last_block xs) \<le> 64"
    unfolding length_last_block using div mod by linarith
  show "64 * full_blocks xs \<le> length xs" using div by linarith
  show "xs \<noteq> [] \<Longrightarrow> last_block xs \<noteq> []"
    unfolding length_greater_0_conv [symmetric] length_last_block using div by linarith
qed

lemma length_pad_block [simp, len_simps]: "length xs \<le> 64 \<Longrightarrow> length (pad_block xs) = 64"
  by (simp add: pad_block_def)

lemma chunk_output_wf [simp]: "length key = 8 \<Longrightarrow> platform_ok p \<Longrightarrow> output_wf (chunk_output key c f p xs)"
  by (simp add: output_wf_def chunk_output_def last_block_bounds)

lemma chunk_cv_append:
  "64 * n \<le> length xs \<Longrightarrow> chunk_cv key c f (xs @ ys) n = chunk_cv key c f xs n"
  by (induction n) (simp_all add: subslice_def)

lemma full_blocks_small: "length xs \<le> 1024 \<Longrightarrow> full_blocks xs < 16"
  by (simp add: full_blocks_def less_mult_imp_div_less)

lemma full_blocks_Nil [simp]: "full_blocks [] = 0" "last_block [] = []"
  by (simp_all add: full_blocks_def last_block_def)

lemma cs_new_state_of: "cs_new key c f p = state_of key c f p []"
  by (simp add: cs_new_def state_of_def pad_block_def BLOCK_LEN_def)

lemma unat_small_u8 [simp]: "n \<le> 64 \<Longrightarrow> unat (of_nat n :: u8) = n"
  by (simp add: unat_of_nat)

lemma cs_count_state_of [simp]: "length xs \<le> 1024 \<Longrightarrow> cs_count (state_of key c f p xs) = length xs"
proof -
  assume "length xs \<le> 1024"
  then have "unat (of_nat (full_blocks xs) :: u8) = full_blocks xs"
    using full_blocks_small [of xs] by simp
  moreover have "unat (of_nat (length (last_block xs)) :: u8) = length (last_block xs)"
    using last_block_bounds(1) [of xs] by (rule unat_small_u8)
  ultimately show ?thesis
    using last_block_bounds(2) [of xs] by (simp add: cs_count_def state_of_def BLOCK_LEN_def length_last_block)
qed

lemma start_flag_state_of [simp]:
  "length xs \<le> 1024 \<Longrightarrow> start_flag (state_of key c f p xs) = (if full_blocks xs = 0 then CHUNK_START else 0)"
proof -
  assume "length xs \<le> 1024"
  then have "full_blocks xs < 16" by (rule full_blocks_small)
  then have "(of_nat (full_blocks xs) = (0 :: u8)) = (full_blocks xs = 0)"
    using unat_eq_zero [of "of_nat (full_blocks xs) :: u8"] by simp
  then show ?thesis by (simp add: start_flag_def state_of_def)
qed

lemma cs_output_state_of [simp]:
  "length xs \<le> 1024 \<Longrightarrow> cs_output (state_of key c f p xs) = chunk_output key c f p xs"
  by (simp add: cs_output_def Let_def) (simp add: state_of_def chunk_output_def)

subsection \<open>\<open>update\<close> appends\<close>

text \<open>The state with \<open>k\<close> blocks compressed, whether or not the buffer could be flushed.\<close>

definition state_at :: "cv_words \<Rightarrow> u64 \<Rightarrow> u8 \<Rightarrow> platform \<Rightarrow> nat \<Rightarrow> bytes \<Rightarrow> chunk_state" where
  "state_at key counter flags p k xs =
     \<lparr>cs_cv = chunk_cv key counter flags xs k, chunk_counter = counter,
      cs_buf = pad_block (drop (64 * k) xs), cs_buf_len = of_nat (length xs - 64 * k),
      blocks_compressed = of_nat k, cs_flags = flags, cs_platform = p\<rparr>"

lemma state_of_at: "state_of key c f p xs = state_at key c f p (full_blocks xs) xs"
  by (simp add: state_of_def state_at_def last_block_def)

lemma state_at_fields:
  "cs_cv (state_at key c f p k xs) = chunk_cv key c f xs k"
  "chunk_counter (state_at key c f p k xs) = c"
  "cs_buf (state_at key c f p k xs) = pad_block (drop (64 * k) xs)"
  "cs_buf_len (state_at key c f p k xs) = of_nat (length xs - 64 * k)"
  "blocks_compressed (state_at key c f p k xs) = of_nat k"
  "cs_flags (state_at key c f p k xs) = f"
  "cs_platform (state_at key c f p k xs) = p"
  by (simp_all add: state_at_def)

lemma put_slice_pad:
  "length xs + length ys \<le> 64 \<Longrightarrow> put_slice (length xs) ys (pad_block xs) = pad_block (xs @ ys)"
  by (simp add: pad_block_def put_slice_at_end diff_diff_add)

lemma fill_buf_at:
  assumes "64 * k \<le> length xs" "length xs \<le> 64 * k + 64"
    and n: "n = min (64 * k + 64 - length xs) (length ys)"
  shows "fill_buf (state_at key c f p k xs) ys = (state_at key c f p k (xs @ take n ys), drop n ys)"
proof -
  have u: "unat (of_nat (length xs - 64 * k) :: u8) = length xs - 64 * k"
    by (rule unat_small_u8) (use assms in linarith)
  have n': "min (BLOCK_LEN - (length xs - 64 * k)) (length ys) = n"
    using assms by (simp add: BLOCK_LEN_def)
  have len: "of_nat (length xs - 64 * k) + of_nat n = (of_nat (length (xs @ take n ys) - 64 * k) :: u8)"
  proof -
    have "length (xs @ take n ys) - 64 * k = (length xs - 64 * k) + n" using assms by simp
    then show ?thesis by (simp only: of_nat_add)
  qed
  have buf: "put_slice (length xs - 64 * k) (take n ys) (pad_block (drop (64 * k) xs))
      = pad_block (drop (64 * k) (xs @ take n ys))"
    using put_slice_pad [of "drop (64 * k) xs" "take n ys"] assms by simp
  show ?thesis
    unfolding fill_buf_def Let_def state_at_fields u n' len buf
    by (simp add: state_at_def chunk_cv_append assms(1))
qed

lemma of_nat_block_len: "(of_nat BLOCK_LEN :: u8) = 64"
  by (simp add: BLOCK_LEN_def)

lemma of_nat_u8_eq_0: "k \<le> 64 \<Longrightarrow> (of_nat k = (0 :: u8)) = (k = 0)"
  using unat_eq_zero [of "of_nat k :: u8"] by simp

lemma start_flag_at: "k \<le> 64 \<Longrightarrow> start_flag (state_at key c f p k xs) = (if k = 0 then CHUNK_START else 0)"
  by (simp add: start_flag_def state_at_def of_nat_u8_eq_0)

text \<open>Compressing the next whole block, from the buffer or from the input.\<close>

lemma compress_block_at:
  assumes "platform_ok p" "length key = 8" "length xs = 64 * k" "length b = 64" "k \<le> 64"
  shows "(state_at key c f p k xs)
      \<lparr>cs_cv := p_compress_in_place p (chunk_cv key c f xs k) b 64 c (f OR (if k = 0 then CHUNK_START else 0)),
       blocks_compressed := of_nat k + 1\<rparr>
    = state_at key c f p (Suc k) (xs @ b)"
proof -
  have "subslice (64 * k) (64 * k + 64) (xs @ b) = b"
    using assms by (simp add: subslice_def)
  then show ?thesis
    using assms by (simp add: state_at_def chunk_cv_append pad_block_def add.commute)
qed

lemma cs_blocks_at:
  assumes "platform_ok p" "length key = 8"
  shows "length xs = 64 * k \<Longrightarrow> length xs + length ys \<le> 1024 \<Longrightarrow>
    cs_blocks (state_at key c f p k xs) ys
      = (state_at key c f p (k + full_blocks ys) (xs @ take (64 * full_blocks ys) ys),
         drop (64 * full_blocks ys) ys)"
proof (induction "length ys" arbitrary: k xs ys rule: less_induct)
  case less
  show ?case
  proof (cases "64 < length ys")
    case True
    let ?b = "take 64 ys" and ?r = "drop 64 ys"
    have k: "k \<le> 64" using less.prems by simp
    have fb: "full_blocks ys = Suc (full_blocks ?r)"
      using True le_div_geq [of 64 "length ys - 1"] by (simp add: full_blocks_def)
    have "cs_blocks (state_at key c f p k xs) ys = cs_blocks (state_at key c f p (Suc k) (xs @ ?b)) ?r"
    proof -
      have "length ?b = 64" using True by simp
      note compress_block_at [OF assms less.prems(1) this k, of c f]
      with True show ?thesis
        unfolding cs_blocks.simps [of "state_at key c f p k xs" ys] Let_def of_nat_block_len
          start_flag_at [OF k] state_at_fields
        by (simp only: BLOCK_LEN_def if_True)
    qed
    also have "\<dots> = (state_at key c f p (Suc k + full_blocks ?r) ((xs @ ?b) @ take (64 * full_blocks ?r) ?r),
        drop (64 * full_blocks ?r) ?r)"
      by (rule less.hyps) (use True less.prems in auto)
    finally show ?thesis
      using take_add [of 64 "64 * full_blocks ?r" ys] by (simp add: fb add.commute)
  next
    case False
    then have "full_blocks ys = 0" by (simp add: full_blocks_def)
    with False show ?thesis by (subst cs_blocks.simps) (simp add: BLOCK_LEN_def)
  qed
qed

lemma cs_blocks_fill:
  assumes "platform_ok p" "length key = 8" "length xs = 64 * k" "length xs + length ys \<le> 1024" "ys \<noteq> []"
  shows "(case cs_blocks (state_at key c f p k xs) ys of (cs, inp) \<Rightarrow> fst (fill_buf cs inp))
    = state_of key c f p (xs @ ys)"
proof -
  let ?q = "full_blocks ys"
  have fb: "full_blocks (xs @ ys) = k + ?q"
    using assms(3,5) by (cases ys) (simp_all add: full_blocks_def)
  have "fst (fill_buf (state_at key c f p (k + ?q) (xs @ take (64 * ?q) ys)) (drop (64 * ?q) ys))
      = state_at key c f p (k + ?q) ((xs @ take (64 * ?q) ys) @ drop (64 * ?q) ys)"
    using last_block_bounds [of ys] assms(3)
    by (subst fill_buf_at [OF _ _ refl]) (auto simp: last_block_def)
  then show ?thesis
    using assms by (simp add: cs_blocks_at state_of_at fb)
qed

lemma cs_update_ok:
  assumes p: "platform_ok p" "length key = 8" and len: "length xs + length ys \<le> 1024"
  shows "cs_update (state_of key c f p xs) ys = Some (state_of key c f p (xs @ ys))"
proof -
  let ?k = "full_blocks xs"
  let ?n = "min (64 * ?k + 64 - length xs) (length ys)"
  note lb = last_block_bounds [of xs]
  have guard: "cs_count (state_of key c f p xs) \<le> CHUNK_LEN
      \<and> length ys \<le> CHUNK_LEN - cs_count (state_of key c f p xs)"
    using len by (simp add: CHUNK_LEN_def)
  have bounds: "64 * ?k \<le> length xs" "length xs \<le> 64 * ?k + 64"
    using lb by (auto simp: length_last_block)
  have k: "?k \<le> 64" using full_blocks_small [of xs] len by simp
  have buf: "(0 < cs_buf_len (state_of key c f p xs)) = (xs \<noteq> [])"
    using of_nat_u8_eq_0 [of "length (last_block xs)"] lb by (auto simp: state_of_def word_neq_0_conv [symmetric])
  note fill = fill_buf_at [OF bounds refl, of key c f p ys, folded state_of_at]
  consider "xs = []" "ys = []" | "xs = []" "ys \<noteq> []" | "xs \<noteq> []" "drop ?n ys = []" | "xs \<noteq> []" "drop ?n ys \<noteq> []"
    by blast
  then have "(case cs_flush (state_of key c f p xs) ys of (cs, inp) \<Rightarrow>
      case cs_blocks cs inp of (cs, inp) \<Rightarrow> fst (fill_buf cs inp)) = state_of key c f p (xs @ ys)"
  proof cases
    case 1
    then show ?thesis
      using fill buf by (simp add: cs_flush_def cs_blocks.simps [of _ "[]"] state_of_at)
  next
    case 2
    then show ?thesis
      using buf cs_blocks_fill [OF p, of "[]" 0 ys c f] len by (simp add: cs_flush_def state_of_at)
  next
    case 3
    then have n: "?n = length ys" by auto
    have "0 < length xs" "length xs + length ys \<le> 64 * ?k + 64"
      using 3 bounds n by auto
    then have "full_blocks (xs @ ys) = ?k"
      using lb(3) 3 unfolding full_blocks_def [of "xs @ ys"] length_last_block length_greater_0_conv [symmetric]
      by (intro div_nat_eqI) auto
    then have flush: "cs_flush (state_of key c f p xs) ys = (state_of key c f p (xs @ ys), [])"
      using 3 buf fill n by (simp add: cs_flush_def state_of_at)
    have "fst (fill_buf (state_of key c f p (xs @ ys)) []) = state_of key c f p (xs @ ys)"
      using last_block_bounds [of "xs @ ys"]
      unfolding state_of_at by (subst fill_buf_at [OF _ _ refl]) (auto simp: length_last_block)
    then show ?thesis by (simp add: flush cs_blocks.simps [of _ "[]"])
  next
    case 4
    then have n: "?n = 64 * ?k + 64 - length xs" by auto
    let ?zs = "xs @ take ?n ys"
    let ?cs = "state_at key c f p ?k ?zs"
    have zs: "length ?zs = 64 * Suc ?k" using n 4 bounds by auto
    have "drop (64 * ?k) ?zs = pad_block (drop (64 * ?k) ?zs)"
      using zs by (simp add: pad_block_def)
    moreover have "subslice (64 * ?k) (64 * ?k + 64) ?zs = drop (64 * ?k) ?zs"
      using zs by (simp add: subslice_def)
    ultimately have "?cs\<lparr>cs_cv := p_compress_in_place p (chunk_cv key c f ?zs ?k) (pad_block (drop (64 * ?k) ?zs)) 64 c
          (f OR (if ?k = 0 then CHUNK_START else 0)),
        cs_buf_len := 0, cs_buf := replicate BLOCK_LEN 0, blocks_compressed := of_nat ?k + 1\<rparr>
        = state_at key c f p (Suc ?k) ?zs"
      using zs p by (simp add: state_at_def pad_block_def BLOCK_LEN_def add.commute)
    then have flush: "cs_flush (state_of key c f p xs) ys = (state_at key c f p (Suc ?k) ?zs, drop ?n ys)"
      using 4 buf fill start_flag_at [OF k, of key c f p ?zs]
      by (simp only: cs_flush_def of_nat_block_len Let_def state_at_fields prod.case if_True not_False_eq_True)
    show ?thesis
      unfolding flush using cs_blocks_fill [OF p zs, of "drop ?n ys" c f] 4 len by simp
  qed
  then show ?thesis
    using guard by (simp add: cs_update_def case_prod_beta)
qed

subsection \<open>Properties\<close>

text \<open>Feeding a chunk state in two pieces is feeding it their concatenation, whatever the
  cut: the output depends on the bytes only, the count is their number, and the three assertions of
  \<open>update\<close> never fail while the chunk has room.\<close>

theorem chunk_update_append:
  assumes "platform_ok p" and "length key = 8" and "length xs + length ys \<le> 1024"
  shows "(cs_update (cs_new key c f p) xs \<bind> (\<lambda>cs. cs_update cs ys)) = cs_update (cs_new key c f p) (xs @ ys)
    \<and> map_option cs_count (cs_update (cs_new key c f p) (xs @ ys)) = Some (length xs + length ys)
    \<and> map_option cs_output (cs_update (cs_new key c f p) (xs @ ys)) = Some (chunk_output key c f p (xs @ ys))"
  using assms cs_update_ok [OF assms(1,2), of "[]" xs c f] cs_update_ok [OF assms(1,2), of xs ys c f]
    cs_update_ok [OF assms(1,2), of "[]" "xs @ ys" c f]
  by (simp_all add: cs_new_state_of)

lemma chunk_update_append_witness:
  "(cs_update (cs_new IV 3 0 (detect (strict_build True))) (replicate 70 1)
      \<bind> (\<lambda>cs. cs_update cs (replicate 954 2)))
    = cs_update (cs_new IV 3 0 (detect (strict_build True))) (replicate 70 1 @ replicate 954 2)"
  using chunk_update_append [of "detect (strict_build True)" IV "replicate 70 1" "replicate 954 2" 3 0]
  by (simp add: IV_def)

end
