(* ===== verification/Blake3_Tree.thy ===== *)
theory Blake3_Tree
  imports Blake3_Chunk
begin

section \<open>The BLAKE3 tree: wide compression of subtrees\<close>

text \<open>
  The subtree functions of \<open>blake3/src/lib.rs\<close> and \<open>left_subtree_len\<close> of
  \<open>blake3/src/hazmat.rs\<close>.  The specification is the recursive tree \<open>tree_output\<close>;
  the code works on arrays of chaining values, several levels at once, and is shown to
  return the two children of the root.  Buffers are byte lists with their capacities: a
  write that does not fit is the panic of the source.
\<close>

text \<open>\<open>next_power_of_two\<close> of the standard library.\<close>

fun next_power_of_two :: "nat \<Rightarrow> nat" where
  "next_power_of_two n = (if n \<le> 1 then 1 else 2 * next_power_of_two ((n + 1) div 2))"

declare next_power_of_two.simps [simp del]

definition largest_power_of_two_leq :: "nat \<Rightarrow> nat" where
  "largest_power_of_two_leq n = next_power_of_two (n div 2 + 1)"

definition div_ceil :: "nat \<Rightarrow> nat \<Rightarrow> nat" where
  "div_ceil a b = (if a mod b = 0 then a div b else a div b + 1)"

definition left_subtree_len :: "nat \<Rightarrow> nat" where
  "left_subtree_len n = next_power_of_two (div_ceil n 2)"

subsection \<open>The code\<close>

definition compress_chunks_parallel ::
  "platform \<Rightarrow> bytes \<Rightarrow> cv_words \<Rightarrow> u64 \<Rightarrow> u8 \<Rightarrow> bytes \<Rightarrow> (nat \<times> bytes) option"
where
  "compress_chunks_parallel p inp key counter flags out =
     do {
       let chunks_array = chunks_exact CHUNK_LEN inp;
       let rest = remainder CHUNK_LEN inp;
       assert_that (length chunks_array \<le> MAX_SIMD_DEGREE (build p));
       out \<leftarrow> p_hash_many p CHUNK_LEN chunks_array key counter True flags CHUNK_START CHUNK_END out;
       let chunks_so_far = length chunks_array;
       (if rest \<noteq> [] then do {
          let counter = counter + of_nat chunks_so_far;
          cs \<leftarrow> cs_update (cs_new key counter flags p) rest;
          assert_that (chunks_so_far * OUT_LEN + OUT_LEN \<le> length out);
          Some (chunks_so_far + 1,
                put_slice (chunks_so_far * OUT_LEN) (chaining_value (cs_output cs)) out)
        } else Some (chunks_so_far, out))
     }"

definition compress_parents_parallel ::
  "platform \<Rightarrow> bytes \<Rightarrow> cv_words \<Rightarrow> u8 \<Rightarrow> bytes \<Rightarrow> (nat \<times> bytes) option"
where
  "compress_parents_parallel p child_chaining_values key flags out =
     do {
       let parents_array = chunks_exact BLOCK_LEN child_chaining_values;
       let rest = remainder BLOCK_LEN child_chaining_values;
       assert_that (length parents_array \<le> MAX_SIMD_DEGREE_OR_2 (build p));
       out \<leftarrow> p_hash_many p BLOCK_LEN parents_array key 0 False (flags OR PARENT) 0 0 out;
       let parents_so_far = length parents_array;
       (if rest \<noteq> [] then do {
          assert_that (parents_so_far * OUT_LEN + OUT_LEN \<le> length out \<and> length rest = OUT_LEN);
          Some (parents_so_far + 1, put_slice (parents_so_far * OUT_LEN) rest out)
        } else Some (parents_so_far, out))
     }"

text \<open>
  \<open>cv_array.split_at_mut(degree * OUT_LEN)\<close> gives the two recursive calls the two parts
  of one array.  \<open>J::join\<close> runs both calls; they share no state, so their order is
  irrelevant.  The guard on the length only makes the recursion well founded: it holds for
  every input longer than a chunk.
\<close>

function compress_subtree_wide ::
  "platform \<Rightarrow> bytes \<Rightarrow> cv_words \<Rightarrow> u64 \<Rightarrow> u8 \<Rightarrow> bytes \<Rightarrow> (nat \<times> bytes) option"
where
  "compress_subtree_wide p inp key counter flags out =
     (if length inp \<le> simd_degree p * CHUNK_LEN then
        compress_chunks_parallel p inp key counter flags out
      else do {
        let l = left_subtree_len (length inp);
        assert_that (0 < l \<and> l < length inp);
        let left = take l inp;
        let right = drop l inp;
        let right_chunk_counter = counter + of_nat (length left div CHUNK_LEN);
        let cv_array = replicate (2 * MAX_SIMD_DEGREE_OR_2 (build p) * OUT_LEN) 0;
        let degree = (if length left = CHUNK_LEN then 1 else max (simd_degree p) 2);
        assert_that (degree * OUT_LEN \<le> length cv_array);
        (left_n, left_out) \<leftarrow>
          compress_subtree_wide p left key counter flags (take (degree * OUT_LEN) cv_array);
        (right_n, right_out) \<leftarrow>
          compress_subtree_wide p right key right_chunk_counter flags (drop (degree * OUT_LEN) cv_array);
        let cv_array = left_out @ right_out;
        (if left_n = 1 then do {
           assert_that (2 * OUT_LEN \<le> length out);
           Some (2, put_slice 0 (take (2 * OUT_LEN) cv_array) out)
         } else do {
           let num_children = left_n + right_n;
           assert_that (num_children * OUT_LEN \<le> length cv_array);
           compress_parents_parallel p (take (num_children * OUT_LEN) cv_array) key flags out
         })
      })"
  by pat_completeness auto
termination
  by (relation "measure (\<lambda>(p, inp, rest). length inp)") auto

declare compress_subtree_wide.simps [simp del]

text \<open>The \<open>while num_cvs > 2\<close> loop; the count goes down, as \<open>(n + 1) div 2 < n\<close> there.\<close>

function condense :: "platform \<Rightarrow> cv_words \<Rightarrow> u8 \<Rightarrow> nat \<Rightarrow> bytes \<Rightarrow> bytes \<Rightarrow> bytes option" where
  "condense p key flags num_cvs cv_array out_array =
     (if 2 < num_cvs then
        (case compress_parents_parallel p (take (num_cvs * OUT_LEN) cv_array) key flags out_array of
           None \<Rightarrow> None
         | Some (n, out_array) \<Rightarrow>
             if n < num_cvs
             then condense p key flags n (put_slice 0 (take (n * OUT_LEN) out_array) cv_array) out_array
             else None)
      else Some (take (2 * OUT_LEN) cv_array))"
  by pat_completeness auto
termination
  by (relation "measure (\<lambda>(p, key, flags, num_cvs, rest). num_cvs)") auto

declare condense.simps [simp del]

definition compress_subtree_to_parent_node ::
  "platform \<Rightarrow> bytes \<Rightarrow> cv_words \<Rightarrow> u64 \<Rightarrow> u8 \<Rightarrow> bytes option"
where
  "compress_subtree_to_parent_node p inp key counter flags =
     do {
       let cv_array = replicate (MAX_SIMD_DEGREE_OR_2 (build p) * OUT_LEN) 0;
       (num_cvs, cv_array) \<leftarrow> compress_subtree_wide p inp key counter flags cv_array;
       let out_array = replicate (MAX_SIMD_DEGREE_OR_2 (build p) * OUT_LEN div 2) 0;
       condense p key flags num_cvs cv_array out_array
     }"

definition hash_all_at_once :: "platform \<Rightarrow> bytes \<Rightarrow> cv_words \<Rightarrow> u8 \<Rightarrow> b3_output option" where
  "hash_all_at_once p inp key flags =
     (if length inp \<le> CHUNK_LEN then do {
        cs \<leftarrow> cs_update (cs_new key 0 flags p) inp;
        Some (cs_output cs)
      } else do {
        block \<leftarrow> compress_subtree_to_parent_node p inp key 0 flags;
        Some \<lparr>input_chaining_value = key, o_block = block, o_block_len = of_nat BLOCK_LEN,
              o_counter = 0, o_flags = flags OR PARENT, o_platform = p\<rparr>
      })"

subsection \<open>Powers of two\<close>

lemma next_power_of_two_spec:
  "\<exists>k. next_power_of_two n = 2 ^ k \<and> n \<le> 2 ^ k \<and> (2 \<le> n \<longrightarrow> 2 ^ k < 2 * n) \<and> (n \<le> 1 \<longrightarrow> k = 0)"
proof (induction n rule: next_power_of_two.induct)
  case (1 n)
  show ?case
  proof (cases "n \<le> 1")
    case True
    then show ?thesis by (subst next_power_of_two.simps) (auto intro: exI [of _ 0])
  next
    case False
    then obtain k where k: "next_power_of_two ((n + 1) div 2) = 2 ^ k" "(n + 1) div 2 \<le> 2 ^ k"
      "2 \<le> (n + 1) div 2 \<longrightarrow> 2 ^ k < 2 * ((n + 1) div 2)" "(n + 1) div 2 \<le> 1 \<longrightarrow> k = 0"
      using 1 by blast
    have bound: "2 ^ Suc k < 2 * n"
    proof (cases "2 \<le> (n + 1) div 2")
      case True
      then have "even (2 ^ k :: nat)" using k(2) by (cases k) auto
      moreover have "2 ^ k < 2 * ((n + 1) div 2)" using k(3) True by blast
      ultimately have "(2 :: nat) ^ k + 2 \<le> 2 * ((n + 1) div 2)" by presburger
      then show ?thesis by simp
    next
      case small: False
      then have "k = 0" "n = 2" using k(4) False by auto
      then show ?thesis by simp
    qed
    moreover have "n \<le> 2 ^ Suc k" using k(2) by simp
    moreover have "next_power_of_two n = 2 ^ Suc k"
      using False k(1) by (subst next_power_of_two.simps) simp
    ultimately show ?thesis using False by blast
  qed
qed

lemma next_power_of_two_eq:
  assumes "n \<le> 2 ^ k" "2 ^ k < 2 * n"
  shows "next_power_of_two n = 2 ^ k"
proof -
  obtain j where j: "next_power_of_two n = 2 ^ j" "n \<le> 2 ^ j" "2 \<le> n \<longrightarrow> 2 ^ j < 2 * n" "n \<le> 1 \<longrightarrow> j = 0"
    using next_power_of_two_spec by blast
  show ?thesis
  proof (cases "2 \<le> n")
    case True
    then have "(2 :: nat) ^ j < 2 ^ Suc k" "(2 :: nat) ^ k < 2 ^ Suc j" using j assms by auto
    then have "j < Suc k" "k < Suc j" by (simp_all only: power_strict_increasing_iff one_less_numeral_iff semiring_norm)
    then show ?thesis using j by simp
  next
    case False
    then have "n = 1" using assms by (cases n) auto
    then have "2 ^ k < (2 :: nat) ^ 1" using assms by simp
    then have "k = 0" by (simp only: power_strict_increasing_iff one_less_numeral_iff semiring_norm)
    with \<open>n = 1\<close> j show ?thesis by simp
  qed
qed

lemma div_ceil_2: "div_ceil n 2 = (n + 1) div 2"
  unfolding div_ceil_def by presburger

text \<open>The split point: a power of two of chunks, at least half of the input, not all of it.\<close>

lemma left_subtree_len_eq:
  assumes "0 < t" "t \<le> 1024 * 2 ^ a"
  shows "left_subtree_len (1024 * 2 ^ a + t) = 1024 * 2 ^ a"
proof -
  let ?n = "1024 * 2 ^ a + t"
  have p: "(1024 :: nat) * 2 ^ a = 2 ^ (a + 10)" by (simp add: power_add)
  have "(?n + 1) div 2 \<le> 2 ^ (a + 10)" "2 ^ (a + 10) < 2 * ((?n + 1) div 2)"
    using assms unfolding p by auto
  then have "next_power_of_two ((?n + 1) div 2) = 2 ^ (a + 10)" by (rule next_power_of_two_eq)
  then show ?thesis unfolding left_subtree_len_def div_ceil_2 by (simp only: p)
qed

lemma split_point:
  assumes "1024 < n"
  obtains a t where "n = 1024 * 2 ^ a + t" "0 < t" "t \<le> 1024 * 2 ^ a" "left_subtree_len n = 1024 * 2 ^ a"
proof -
  define m where "m = (n + 1) div 2"
  have m: "div_ceil n 2 = m" "2 \<le> m" "512 < m" "n \<le> 2 * m" "2 * m \<le> n + 1"
    using assms by (simp_all add: div_ceil_2 m_def)
  obtain k where k: "next_power_of_two m = 2 ^ k" "m \<le> 2 ^ k" "2 ^ k < 2 * m"
    using next_power_of_two_spec [of m] m by blast
  have "10 \<le> k"
  proof (rule ccontr)
    assume "\<not> 10 \<le> k"
    then have "(2 :: nat) ^ k \<le> 2 ^ 9" by (intro power_increasing) auto
    with k(2) m(3) show False by simp
  qed
  then obtain a where a: "k = a + 10" using le_Suc_ex by (metis add.commute)
  have p: "(2 :: nat) ^ k = 1024 * 2 ^ a" by (simp add: a power_add)
  have e: "(1024 :: nat) * 2 ^ a = 2 * (512 * 2 ^ a)" by simp
  have x: "512 * 2 ^ a < m" using k(3) unfolding p e by simp
  have "m \<le> 1024 * 2 ^ a" using k(2) unfolding p .
  then have hi: "n \<le> 2 * (1024 * 2 ^ a)" using m(4) by linarith
  have lo: "1024 * 2 ^ a < n" unfolding e using x m(5) by linarith
  show ?thesis
    using that [of a "n - 1024 * 2 ^ a"] lo hi k(1) m(1) p by (simp add: left_subtree_len_def)
qed

subsection \<open>The specification: the recursive tree\<close>

function tree_output :: "cv_words \<Rightarrow> u8 \<Rightarrow> platform \<Rightarrow> u64 \<Rightarrow> bytes \<Rightarrow> b3_output" where
  "tree_output key flags p c xs =
     (if length xs \<le> 1024 then chunk_output key c flags p xs
      else let l = left_subtree_len (length xs)
           in if 0 < l \<and> l < length xs then
                parent_node_output (out_cv (tree_output key flags p c (take l xs)))
                  (out_cv (tree_output key flags p (c + of_nat (l div 1024)) (drop l xs))) key flags p
              else chunk_output key c flags p xs)"
  by pat_completeness auto
termination
  by (relation "measure (\<lambda>(key, flags, p, c, xs). length xs)") auto

declare tree_output.simps [simp del]

abbreviation tree_cv :: "cv_words \<Rightarrow> u8 \<Rightarrow> platform \<Rightarrow> u64 \<Rightarrow> bytes \<Rightarrow> bytes" where
  "tree_cv key flags p c xs \<equiv> out_cv (tree_output key flags p c xs)"

lemma tree_output_chunk: "length xs \<le> 1024 \<Longrightarrow> tree_output key flags p c xs = chunk_output key c flags p xs"
  by (simp add: tree_output.simps)

lemma tree_output_split:
  assumes "length s = 1024 * 2 ^ a" "0 < length t" "length t \<le> length s"
  shows "tree_output key flags p c (s @ t)
    = parent_node_output (tree_cv key flags p c s) (tree_cv key flags p (c + of_nat (2 ^ a)) t) key flags p"
proof -
  have l: "left_subtree_len (length (s @ t)) = length s"
    using left_subtree_len_eq [of "length t" a] assms by simp
  have "(1024 :: nat) * 1 \<le> 1024 * 2 ^ a" by (intro mult_left_mono) auto
  then have big: "\<not> length (s @ t) \<le> 1024" "0 < length s"
    using assms unfolding length_append by linarith+
  have "length s div 1024 = 2 ^ a" using assms(1) by simp
  then show ?thesis
    unfolding tree_output.simps [of key flags p c "s @ t"] l Let_def using big assms(2) by simp
qed

lemma tree_output_wf [simp]:
  assumes "length key = 8" "platform_ok p"
  shows "output_wf (tree_output key flags p c xs)"
  using assms by (subst tree_output.simps) (simp add: Let_def)

text \<open>The chaining values of the chunks of an input, left to right.\<close>

function leaf_cvs :: "cv_words \<Rightarrow> u8 \<Rightarrow> platform \<Rightarrow> u64 \<Rightarrow> bytes \<Rightarrow> bytes list" where
  "leaf_cvs key flags p c xs =
     (if length xs \<le> 1024 then [out_cv (chunk_output key c flags p xs)]
      else out_cv (chunk_output key c flags p (take 1024 xs)) # leaf_cvs key flags p (c + 1) (drop 1024 xs))"
  by pat_completeness auto
termination
  by (relation "measure (\<lambda>(key, flags, p, c, xs). length xs)") auto

declare leaf_cvs.simps [simp del]

text \<open>One level of parents; an odd one out is kept.\<close>

fun pair_cvs :: "cv_words \<Rightarrow> u8 \<Rightarrow> platform \<Rightarrow> bytes list \<Rightarrow> bytes list" where
  "pair_cvs key flags p (l # r # cvs) = out_cv (parent_node_output l r key flags p) # pair_cvs key flags p cvs"
| "pair_cvs key flags p cvs = cvs"

text \<open>The largest power of two below \<open>n\<close>, and the root of the tree over a list of chaining values.\<close>

definition below :: "nat \<Rightarrow> nat" where
  "below n = next_power_of_two ((n + 1) div 2)"

function combine :: "cv_words \<Rightarrow> u8 \<Rightarrow> platform \<Rightarrow> bytes list \<Rightarrow> bytes" where
  "combine key flags p cvs =
     (if length cvs \<le> 1 then hd cvs
      else let l = below (length cvs)
           in if 0 < l \<and> l < length cvs
              then out_cv (parent_node_output (combine key flags p (take l cvs)) (combine key flags p (drop l cvs)) key flags p)
              else hd cvs)"
  by pat_completeness auto
termination
  by (relation "measure (\<lambda>(key, flags, p, cvs). length cvs)") auto

declare combine.simps [simp del]

definition combine2 :: "cv_words \<Rightarrow> u8 \<Rightarrow> platform \<Rightarrow> bytes list \<Rightarrow> bytes \<times> bytes" where
  "combine2 key flags p cvs =
     (combine key flags p (take (below (length cvs)) cvs), combine key flags p (drop (below (length cvs)) cvs))"

subsection \<open>Levels of the tree\<close>

lemma below_eq:
  assumes "0 < t" "t \<le> 2 ^ a"
  shows "below (2 ^ a + t) = 2 ^ a"
  unfolding below_def by (rule next_power_of_two_eq) (use assms in auto)

lemma below_split:
  assumes "2 \<le> n"
  obtains a t where "n = 2 ^ a + t" "0 < t" "t \<le> 2 ^ a" "below n = 2 ^ a"
proof -
  define m where "m = (n + 1) div 2"
  have m: "1 \<le> m" "n \<le> 2 * m" "2 * m \<le> n + 1" using assms by (simp_all add: m_def)
  obtain a where a: "next_power_of_two m = 2 ^ a" "m \<le> 2 ^ a" "2 \<le> m \<longrightarrow> 2 ^ a < 2 * m" "m \<le> 1 \<longrightarrow> a = 0"
    using next_power_of_two_spec by blast
  have lo: "2 ^ a < n"
  proof (cases "2 \<le> m")
    case True
    then obtain b where "a = Suc b" using a(2) by (cases a) auto
    then show ?thesis using a(3) True m(3) by simp
  next
    case False
    then show ?thesis using a(4) assms by simp
  qed
  have "n \<le> 2 * 2 ^ a" using m(2) a(2) by linarith
  then show ?thesis
    using that [of a "n - 2 ^ a"] lo a(1) by (simp add: below_def m_def)
qed

lemma below_bounds: "2 \<le> n \<Longrightarrow> 0 < below n \<and> below n < n"
  by (rule below_split [of n]) auto

lemma combine_split:
  "2 \<le> length cvs \<Longrightarrow> combine key flags p cvs
     = (case combine2 key flags p cvs of (l, r) \<Rightarrow> out_cv (parent_node_output l r key flags p))"
  using below_bounds [of "length cvs"] by (subst combine.simps) (simp add: combine2_def Let_def)

lemma combine_single [simp]: "combine key flags p [x] = x"
  by (simp add: combine.simps)

lemma combine2_append:
  "length xs = 2 ^ a \<Longrightarrow> 0 < length ys \<Longrightarrow> length ys \<le> 2 ^ a \<Longrightarrow>
   combine2 key flags p (xs @ ys) = (combine key flags p xs, combine key flags p ys)"
  using below_eq [of "length ys" a] by (simp add: combine2_def)

lemma length_pair_cvs: "length (pair_cvs key flags p cvs) = (length cvs + 1) div 2"
  by (induction key flags p cvs rule: pair_cvs.induct) auto

lemma pair_cvs_append:
  "even (length xs) \<Longrightarrow> pair_cvs key flags p (xs @ ys) = pair_cvs key flags p xs @ pair_cvs key flags p ys"
  by (induction key flags p xs rule: pair_cvs.induct) auto

text \<open>Pairing moves up one level and keeps the root, and, above two values, its children.\<close>

lemma combine_pair:
  "1 \<le> length cvs \<Longrightarrow> combine key flags p (pair_cvs key flags p cvs) = combine key flags p cvs"
  "3 \<le> length cvs \<Longrightarrow> combine2 key flags p (pair_cvs key flags p cvs) = combine2 key flags p cvs"
proof (induction "length cvs" arbitrary: cvs rule: less_induct)
  case less
  have two: "combine2 key flags p (pair_cvs key flags p cvs) = combine2 key flags p cvs" if big: "3 \<le> length cvs"
  proof -
    have "2 \<le> length cvs" using big by simp
    then obtain a t where n: "length cvs = 2 ^ a + t" "0 < t" "t \<le> 2 ^ a" "below (length cvs) = 2 ^ a"
      by (rule below_split)
    have "a \<noteq> 0" using n big by (cases a) auto
    then obtain b where b: "a = Suc b" using not0_implies_Suc by blast
    define xs ys where "xs = take (2 ^ a) cvs" and "ys = drop (2 ^ a) cvs"
    have len: "length xs = 2 ^ a" "length ys = t" and cvs: "cvs = xs @ ys"
      using n by (simp_all add: xs_def ys_def)
    have pos: "(0 :: nat) < 2 ^ b" by simp
    have IH: "combine key flags p (pair_cvs key flags p xs) = combine key flags p xs"
      "combine key flags p (pair_cvs key flags p ys) = combine key flags p ys"
      using less.hyps(1) [of xs] less.hyps(1) [of ys] len n by auto
    have "combine2 key flags p (pair_cvs key flags p xs @ pair_cvs key flags p ys)
        = (combine key flags p (pair_cvs key flags p xs), combine key flags p (pair_cvs key flags p ys))"
      by (rule combine2_append [where a = b]) (use len n pos in \<open>auto simp: length_pair_cvs b\<close>)
    also have "\<dots> = combine2 key flags p (xs @ ys)"
      by (subst combine2_append [where a = a]) (use len n IH in auto)
    finally show ?thesis
      using len by (simp add: cvs pair_cvs_append b)
  qed
  {
    case 1
    consider "length cvs = 1" | "length cvs = 2" | "3 \<le> length cvs" using 1 by linarith
    then show ?case
    proof cases
      case 1
      then obtain x where "cvs = [x]" by (cases cvs) auto
      then show ?thesis by simp
    next
      case 2
      then obtain x y where "cvs = [x, y]" by (cases cvs; cases "tl cvs") auto
      then show ?thesis
        using below_eq [of 1 0] by (simp add: combine_split combine2_def numeral_2_eq_2)
    next
      case 3
      then show ?thesis
        using two by (subst (1 2) combine_split) (auto simp: length_pair_cvs)
    qed
  next
    case 2
    then show ?case by (rule two)
  }
qed

lemma leaf_cvs_append:
  assumes "length xs = 1024 * n" "0 < n" "0 < length ys"
  shows "leaf_cvs key flags p c (xs @ ys) = leaf_cvs key flags p c xs @ leaf_cvs key flags p (c + of_nat n) ys"
  using assms
proof (induction n arbitrary: c xs)
  case 0
  then show ?case by simp
next
  case (Suc n)
  have step: "leaf_cvs key flags p c (xs @ ys)
      = out_cv (chunk_output key c flags p (take 1024 xs)) # leaf_cvs key flags p (c + 1) (drop 1024 xs @ ys)"
    using Suc.prems by (subst leaf_cvs.simps) simp
  show ?case
  proof (cases n)
    case 0
    then show ?thesis
      using Suc.prems step by (simp add: leaf_cvs.simps [of key flags p c xs])
  next
    case (Suc n')
    with Suc.prems have "leaf_cvs key flags p c xs
      = out_cv (chunk_output key c flags p (take 1024 xs)) # leaf_cvs key flags p (c + 1) (drop 1024 xs)"
      by (subst leaf_cvs.simps) simp
    then show ?thesis
      using Suc.IH [of "drop 1024 xs" "c + 1"] Suc.prems Suc step by (simp add: add.assoc)
  qed
qed

definition nchunks :: "nat \<Rightarrow> nat" where
  "nchunks n = (n + 1023) div 1024"

lemma nchunks_mult: "nchunks (1024 * k) = k"
  unfolding nchunks_def by (rule div_nat_eqI) auto

lemma nchunks_pos: "0 < n \<Longrightarrow> 0 < nchunks n"
  by (simp add: nchunks_def)

lemma nchunks_le: "n \<le> 1024 * k \<Longrightarrow> nchunks n \<le> k"
  using div_le_mono [of "n + 1023" "1024 * k + 1023" 1024] nchunks_mult [of k] by (simp add: nchunks_def)

lemma nchunks_add: "nchunks (1024 * k + n) = k + nchunks n"
  by (simp add: nchunks_def add.assoc)

lemma nchunks_le_iff: "nchunks n \<le> k \<longleftrightarrow> n \<le> 1024 * k"
proof
  assume "nchunks n \<le> k"
  moreover have "n \<le> 1024 * nchunks n"
    unfolding nchunks_def using div_mult_mod_eq [of "n + 1023" 1024] mod_less_divisor [of 1024 "n + 1023"]
    by linarith
  ultimately show "n \<le> 1024 * k" by (meson mult_le_mono2 order_trans)
qed (rule nchunks_le)

lemma length_leaf_cvs: "xs \<noteq> [] \<Longrightarrow> length (leaf_cvs key flags p c xs) = nchunks (length xs)"
proof (induction "length xs" arbitrary: xs c rule: less_induct)
  case less
  show ?case
  proof (cases "length xs \<le> 1024")
    case True
    then have "nchunks (length xs) = 1"
      using nchunks_le [of "length xs" 1] nchunks_pos [of "length xs"] less.prems by simp
    with True show ?thesis by (simp add: leaf_cvs.simps)
  next
    case False
    then have "nchunks (length xs) = Suc (nchunks (length xs - 1024))"
      using nchunks_add [of 1 "length xs - 1024"] by simp
    with False less.hyps [of "drop 1024 xs" "c + 1"] show ?thesis
      by (subst leaf_cvs.simps) simp
  qed
qed

lemma leaf_cvs_32: "x \<in> set (leaf_cvs key flags p c xs) \<Longrightarrow> length x = 32"
  by (induction key flags p c xs rule: leaf_cvs.induct) (subst (asm) (2) leaf_cvs.simps, auto split: if_splits)

lemma split_bytes:
  assumes "1024 < length xs"
  obtains a s t where "xs = s @ t" "length s = 1024 * 2 ^ a" "0 < length t" "length t \<le> length s"
    "left_subtree_len (length xs) = length s"
proof -
  obtain a t where n: "length xs = 1024 * 2 ^ a + t" "0 < t" "t \<le> 1024 * 2 ^ a"
    "left_subtree_len (length xs) = 1024 * 2 ^ a"
    using assms by (rule split_point)
  then show ?thesis
    using that [of "take (1024 * 2 ^ a) xs" "drop (1024 * 2 ^ a) xs" a] by simp
qed

lemma combine2_leaf:
  assumes "length s = 1024 * 2 ^ a" "0 < length t" "length t \<le> length s"
  shows "combine2 key flags p (leaf_cvs key flags p c (s @ t))
    = (combine key flags p (leaf_cvs key flags p c s), combine key flags p (leaf_cvs key flags p (c + of_nat (2 ^ a)) t))"
proof -
  have "s \<noteq> []" "t \<noteq> []" using assms by auto
  moreover have "nchunks (length t) \<le> 2 ^ a" using assms by (simp add: nchunks_le)
  ultimately show ?thesis
    using assms leaf_cvs_append [of s "2 ^ a" t key flags p c]
    by (subst leaf_cvs_append [where n = "2 ^ a"])
      (auto simp: combine2_append [where a = a] length_leaf_cvs nchunks_mult nchunks_pos)
qed

lemma two_leaves: "1024 < length xs \<Longrightarrow> 2 \<le> length (leaf_cvs key flags p c xs)"
proof -
  assume big: "1024 < length xs"
  then have "\<not> nchunks (length xs) \<le> 1" by (simp add: nchunks_le_iff)
  moreover have "xs \<noteq> []" using big by auto
  ultimately show ?thesis by (simp add: length_leaf_cvs)
qed

lemma combine_leaf: "combine key flags p (leaf_cvs key flags p c xs) = tree_cv key flags p c xs"
proof (induction "length xs" arbitrary: xs c rule: less_induct)
  case less
  show ?case
  proof (cases "length xs \<le> 1024")
    case True
    then show ?thesis by (simp add: leaf_cvs.simps tree_output_chunk)
  next
    case False
    then have "1024 < length xs" by simp
    then obtain a s t where xs: "xs = s @ t" "length s = 1024 * 2 ^ a" "0 < length t" "length t \<le> length s"
      by (rule split_bytes)
    then have "0 < length s" by simp
    then show ?thesis
      using less.hyps [of s c] less.hyps [of t "c + of_nat (2 ^ a)"] two_leaves [OF \<open>1024 < length xs\<close>] xs
      by (simp add: combine_split combine2_leaf [where a = a] tree_output_split [where a = a])
  qed
qed

subsection \<open>The leaves: chunks and parents through \<open>hash_many\<close>\<close>

lemma hash1_loop_chunk:
  assumes "length xs = 64 * Suc m" "n \<le> m"
  shows "hash1_loop (chunk_cv key c f xs n) (f OR (if n = 0 then CHUNK_START else 0)) (drop (64 * n) xs) c f CHUNK_END
    = compress_in_place (chunk_cv key c f xs m) (drop (64 * m) xs) 64 c
        ((f OR (if m = 0 then CHUNK_START else 0)) OR CHUNK_END)"
  using assms(2)
proof (induction "m - n" arbitrary: n)
  case 0
  then have n: "n = m" by simp
  have len: "length (drop (64 * m) xs) = 64" using assms by simp
  then show ?case
    unfolding n by (subst hash1_loop.simps) (simp add: BLOCK_LEN_def Let_def hash1_loop.simps [of _ _ "[]"])
next
  case (Suc k)
  then have n: "n < m" by simp
  have len: "length (drop (64 * n) xs) = 64 * (m - n) + 64" using assms(1) n by simp
  have "hash1_loop (chunk_cv key c f xs n) (f OR (if n = 0 then CHUNK_START else 0)) (drop (64 * n) xs) c f CHUNK_END
      = hash1_loop (chunk_cv key c f xs (Suc n)) f (drop (64 * Suc n) xs) c f CHUNK_END"
    using n len by (subst hash1_loop.simps) (simp add: BLOCK_LEN_def Let_def subslice_def add.commute)
  then show ?case
    using Suc.hyps(1) [of "Suc n"] Suc.hyps(2) n by simp
qed

lemma hash1_chunk:
  assumes "length xs = 1024"
  shows "hash1 xs key c f CHUNK_START CHUNK_END = out_cv (chunk_output key c f p xs)"
proof -
  have fb: "full_blocks xs = 15" using assms by (simp add: full_blocks_def)
  have "hash1_loop key (f OR CHUNK_START) xs c f CHUNK_END
      = compress_in_place (chunk_cv key c f xs 15) (drop (64 * 15) xs) 64 c (f OR 0 OR CHUNK_END)"
    using hash1_loop_chunk [of xs 15 0 key c f] assms by (simp add: or.assoc)
  then show ?thesis
    using assms by (simp add: hash1_def out_cv_def chunk_output_def fb last_block_def pad_block_def)
qed

lemma hash1_parent:
  assumes "length l = 32" "length r = 32"
  shows "hash1 (l @ r) key 0 (f OR PARENT) 0 0 = out_cv (parent_node_output l r key f p)"
  using assms
  by (simp add: hash1_def hash1_loop.simps [of _ _ "l @ r"] hash1_loop.simps [of _ _ "[]"] BLOCK_LEN_def Let_def
      out_cv_def parent_node_output_def)

lemma remainder_drop: "0 < n \<Longrightarrow> n \<le> length xs \<Longrightarrow> remainder n xs = remainder n (drop n xs)"
  by (simp add: remainder_def le_div_geq) (simp add: add.commute)

lemma remainder_short: "length xs < n \<Longrightarrow> remainder n xs = xs"
  by (simp add: remainder_def)

lemma chunks_exact_long: "0 < n \<Longrightarrow> n \<le> length xs \<Longrightarrow> chunks_exact n xs = take n xs # chunks_exact n (drop n xs)"
  by (subst chunks_exact.simps) simp

lemma chunks_exact_length: "x \<in> set (chunks_exact n xs) \<Longrightarrow> length x = n"
  by (induction n xs rule: chunks_exact.induct) (subst (asm) (2) chunks_exact.simps, auto split: if_splits)

lemma chunk_leaves:
  "xs \<noteq> [] \<Longrightarrow>
   leaf_cvs key f p c xs =
     hash_many_cvs (chunks_exact 1024 xs) key c True f CHUNK_START CHUNK_END
     @ (if remainder 1024 xs = [] then []
        else [out_cv (chunk_output key (c + of_nat (length (chunks_exact 1024 xs))) f p (remainder 1024 xs))])"
proof (induction "length xs" arbitrary: xs c rule: less_induct)
  case less
  consider "length xs < 1024" | "length xs = 1024" | "1024 < length xs" by linarith
  then show ?case
  proof cases
    case 1
    then show ?thesis using less.prems by (subst leaf_cvs.simps) (simp add: remainder_short)
  next
    case 2
    then show ?thesis
      by (subst leaf_cvs.simps)
        (simp add: chunks_exact_long remainder_drop remainder_short hash1_chunk [where p = p])
  next
    case 3
    then have "drop 1024 xs \<noteq> []" "length (drop 1024 xs) < length xs" by simp_all
    from less.hyps [OF this(2,1), of "c + 1"] 3 show ?thesis
      by (subst leaf_cvs.simps)
        (simp add: chunks_exact_long remainder_drop [of 1024 xs] hash1_chunk [where p = p] add.assoc)
  qed
qed

lemma pair_leaves:
  "\<forall>x \<in> set cvs. length x = 32 \<Longrightarrow>
   pair_cvs key f p cvs =
     hash_many_cvs (chunks_exact 64 (concat cvs)) key 0 False (f OR PARENT) 0 0
     @ (if remainder 64 (concat cvs) = [] then [] else [remainder 64 (concat cvs)])
   \<and> length (remainder 64 (concat cvs)) \<in> {0, 32}
   \<and> length (chunks_exact 64 (concat cvs)) = length cvs div 2"
proof (induction key f p cvs rule: pair_cvs.induct)
  case (1 key flags p l r cvs)
  then have "length l = 32" "length r = 32" by simp_all
  then have "chunks_exact 64 (l @ r @ concat cvs) = (l @ r) # chunks_exact 64 (concat cvs)"
    "remainder 64 (l @ r @ concat cvs) = remainder 64 (concat cvs)"
    using chunks_exact_append [of 64 "l @ r" "concat cvs"] remainder_drop [of 64 "l @ r @ concat cvs"] by simp_all
  with 1 show ?case by (simp add: hash1_parent [where p = p])
qed (auto simp: remainder_short)

lemma concat_32: "\<forall>x \<in> set cvs. length x = 32 \<Longrightarrow> length (concat cvs) = 32 * length cvs"
  by (rule length_concat_uniform)

lemma put_slice_last:
  "length s = 32 * n \<Longrightarrow> 32 * n + length t \<le> length out \<Longrightarrow>
   put_slice (n * 32) t (put_slice 0 s out) = put_slice 0 (s @ t) out"
  by (rule put_slice_put_slice) (simp_all add: mult.commute)

lemma degree_bounds:
  assumes "platform_ok p"
  shows "simd_degree p \<le> MAX_SIMD_DEGREE (build p)" "MAX_SIMD_DEGREE (build p) \<le> 16"
    "max (simd_degree p) 2 \<le> MAX_SIMD_DEGREE_OR_2 (build p)" "MAX_SIMD_DEGREE_OR_2 (build p) \<le> 16"
    "even (MAX_SIMD_DEGREE_OR_2 (build p))"
  using assms
  by (cases "kind p"; auto simp: platform_ok_def simd_degree_def MAX_SIMD_DEGREE_def MAX_SIMD_DEGREE_OR_2_def)+

lemma compress_chunks_ok:
  assumes p: "platform_ok p" "length key = 8"
    and inp: "inp \<noteq> []" "length inp \<le> simd_degree p * 1024" and out: "32 * nchunks (length inp) \<le> length out"
  shows "compress_chunks_parallel p inp key c f out
    = Some (nchunks (length inp), put_slice 0 (concat (leaf_cvs key f p c inp)) out)"
proof -
  let ?cs = "chunks_exact 1024 inp" and ?r = "remainder 1024 inp"
  let ?h = "hash_many_cvs ?cs key c True f CHUNK_START CHUNK_END"
  note leaves = chunk_leaves [OF inp(1), of key f p c]
  have lr: "length ?r < 1024"
    by (simp add: remainder_def minus_mult_div_eq_mod)
  have n: "length ?h + (if ?r = [] then 0 else 1) = nchunks (length inp)"
    using leaves length_leaf_cvs [OF inp(1), of key f p c] by auto
  have "nchunks (length inp) \<le> simd_degree p"
    using inp(2) by (simp add: nchunks_le mult.commute)
  then have small: "length ?cs \<le> MAX_SIMD_DEGREE (build p)" "length ?cs < 2 ^ 59"
    using n degree_bounds [OF p(1)] by auto
  have hm: "p_hash_many p 1024 ?cs key c True f CHUNK_START CHUNK_END out = Some (put_slice 0 (concat ?h) out)"
    by (rule p_hash_many_ok) (use p n out small in \<open>auto dest: chunks_exact_length\<close>)
  have cs: "cs_update (cs_new key (c + of_nat (length ?cs)) f p) ?r
      = Some (state_of key (c + of_nat (length ?cs)) f p ?r)"
    using cs_update_ok [OF p, of "[]" ?r] lr by (simp add: cs_new_state_of)
  have h32: "length (concat ?h) = 32 * length ?cs"
    using p by simp
  show ?thesis
  proof (cases "?r = []")
    case True
    then show ?thesis
      using n leaves small unfolding compress_chunks_parallel_def CHUNK_LEN_def Let_def
      by (simp add: hm)
  next
    case False
    let ?last = "out_cv (chunk_output key (c + of_nat (length ?cs)) f p ?r)"
    have fit: "length ?cs * 32 + 32 \<le> length (put_slice 0 (concat ?h) out)"
      using n False out h32 by simp
    have "put_slice (length ?cs * 32) ?last (put_slice 0 (concat ?h) out) = put_slice 0 (concat ?h @ ?last) out"
      by (rule put_slice_last) (use n False out h32 in auto)
    then show ?thesis
      using False n leaves small fit lr p cs unfolding compress_chunks_parallel_def CHUNK_LEN_def OUT_LEN_def Let_def
      by (simp add: hm)
  qed
qed

lemma compress_parents_ok:
  assumes p: "platform_ok p" "length key = 8"
    and cvs: "\<forall>x \<in> set cvs. length x = 32" "length cvs \<le> 2 * MAX_SIMD_DEGREE_OR_2 (build p)"
    and out: "32 * ((length cvs + 1) div 2) \<le> length out"
  shows "compress_parents_parallel p (concat cvs) key f out
    = Some ((length cvs + 1) div 2, put_slice 0 (concat (pair_cvs key f p cvs)) out)"
proof -
  let ?ps = "chunks_exact 64 (concat cvs)" and ?r = "remainder 64 (concat cvs)"
  let ?h = "hash_many_cvs ?ps key 0 False (f OR PARENT) 0 0"
  have pairs: "pair_cvs key f p cvs = ?h @ (if ?r = [] then [] else [?r])"
    and lr: "length ?r \<in> {0, 32}" and lp: "length ?ps = length cvs div 2"
    using pair_leaves [OF cvs(1), of key f p] by auto
  have n: "length ?h + (if ?r = [] then 0 else 1) = (length cvs + 1) div 2"
    using pairs length_pair_cvs [of key f p cvs] by auto
  have small: "length ?ps \<le> MAX_SIMD_DEGREE_OR_2 (build p)" "length ?ps < 2 ^ 59"
    using lp cvs(2) degree_bounds(4) [OF p(1)] by auto
  have hm: "p_hash_many p 64 ?ps key 0 False (f OR PARENT) 0 0 out = Some (put_slice 0 (concat ?h) out)"
    by (rule p_hash_many_ok) (use p n out small in \<open>auto dest: chunks_exact_length\<close>)
  have h32: "length (concat ?h) = 32 * length ?ps" using p by simp
  show ?thesis
  proof (cases "?r = []")
    case True
    then show ?thesis
      using n pairs small unfolding compress_parents_parallel_def BLOCK_LEN_def Let_def
      by (simp add: hm)
  next
    case False
    have fit: "length ?ps * 32 + 32 \<le> length (put_slice 0 (concat ?h) out)" "length ?r = 32"
      using n False out h32 lr by auto
    have "put_slice (length ?ps * 32) ?r (put_slice 0 (concat ?h) out) = put_slice 0 (concat ?h @ ?r) out"
      by (rule put_slice_last) (use n False out h32 fit in auto)
    then show ?thesis
      using False n pairs small fit unfolding compress_parents_parallel_def BLOCK_LEN_def OUT_LEN_def Let_def
      by (simp add: hm)
  qed
qed

subsection \<open>The wide recursion\<close>

text \<open>
  What \<open>compress_subtree_wide\<close> writes: at least two chaining values above one chunk,
  no more than the SIMD degree (or two), exactly that many for a complete subtree, and with
  the children of the subtree's root as their combination.
\<close>

definition wide_result :: "cv_words \<Rightarrow> u8 \<Rightarrow> platform \<Rightarrow> u64 \<Rightarrow> bytes \<Rightarrow> bytes list \<Rightarrow> bool" where
  "wide_result key f p c inp cvs \<longleftrightarrow>
     (\<forall>x \<in> set cvs. length x = 32) \<and> 1 \<le> length cvs
     \<and> length cvs \<le> min (nchunks (length inp)) (max (simd_degree p) 2)
     \<and> (length inp \<le> 1024 \<longrightarrow> cvs = leaf_cvs key f p c inp)
     \<and> (1024 < length inp \<longrightarrow> 2 \<le> length cvs \<and> combine2 key f p cvs = combine2 key f p (leaf_cvs key f p c inp))
     \<and> (\<forall>a. length inp = 1024 * 2 ^ a \<longrightarrow> length cvs = min (2 ^ a) (max (simd_degree p) 2))"

lemma wide_resultD:
  assumes "wide_result key f p c inp cvs"
  shows "\<forall>x \<in> set cvs. length x = 32" "1 \<le> length cvs"
    "length cvs \<le> nchunks (length inp)" "length cvs \<le> max (simd_degree p) 2"
    "length inp \<le> 1024 \<Longrightarrow> cvs = leaf_cvs key f p c inp"
    "1024 < length inp \<Longrightarrow> 2 \<le> length cvs"
    "1024 < length inp \<Longrightarrow> combine2 key f p cvs = combine2 key f p (leaf_cvs key f p c inp)"
    "length inp = 1024 * 2 ^ a \<Longrightarrow> length cvs = min (2 ^ a) (max (simd_degree p) 2)"
  using assms unfolding wide_result_def by auto

lemma wide_result_combine:
  "wide_result key f p c inp cvs \<Longrightarrow> combine key f p cvs = tree_cv key f p c inp"
  using two_leaves [of inp key f p c]
  by (cases "length inp \<le> 1024") (auto simp: wide_result_def combine_leaf [symmetric] combine_split)

lemma wide_result_leaves:
  assumes "inp \<noteq> []" "length inp \<le> simd_degree p * 1024"
  shows "wide_result key f p c inp (leaf_cvs key f p c inp)"
proof -
  have "nchunks (length inp) \<le> simd_degree p" using assms(2) by (simp add: nchunks_le mult.commute)
  moreover have "0 < nchunks (length inp)" using assms(1) by (simp add: nchunks_pos)
  ultimately show ?thesis
    using assms(1) two_leaves [of inp key f p c]
    by (auto simp: wide_result_def length_leaf_cvs nchunks_mult dest: leaf_cvs_32)
qed

lemma simd_degree_power:
  obtains j where "simd_degree p = 2 ^ j"
proof -
  have "simd_degree p \<in> {2 ^ 0, 2 ^ 2, 2 ^ 3, 2 ^ 4}" by (cases "kind p") (simp_all add: simd_degree_def)
  then show ?thesis using that by blast
qed

lemma wide_degree_power:
  obtains i where "max (simd_degree p) 2 = 2 ^ i"
proof -
  have "max (simd_degree p) 2 \<in> {2 ^ 1, 2 ^ 2, 2 ^ 3, 2 ^ 4}" by (cases "kind p") (simp_all add: simd_degree_def)
  then show ?thesis using that by blast
qed

lemma left_part_big:
  assumes "simd_degree p * 1024 < 1024 * 2 ^ a + t" "t \<le> 1024 * 2 ^ a"
  shows "simd_degree p \<le> 2 ^ a"
proof -
  obtain j where j: "simd_degree p = 2 ^ j" by (rule simd_degree_power)
  have "1024 * (2 :: nat) ^ j < 1024 * 2 ^ Suc a" using assms j by simp
  then have "(2 :: nat) ^ j < 2 ^ Suc a" by (simp only: mult_less_cancel1)
  then have "j < Suc a" by (rule power_less_imp_less_exp [rotated]) simp
  then show ?thesis by (simp add: j)
qed

lemma wide_parents_result:
  assumes L: "wide_result key f p c s L" and R: "wide_result key f p (c + of_nat (2 ^ a)) t R"
    and s: "length s = 1024 * 2 ^ a" and t: "0 < length t" "length t \<le> length s"
    and big: "max (simd_degree p) 2 \<le> 2 ^ a"
  shows "wide_result key f p c (s @ t) (pair_cvs key f p (L @ R))"
proof -
  let ?d = "max (simd_degree p) 2"
  obtain i where i: "?d = 2 ^ i" by (rule wide_degree_power)
  have tn: "nchunks (length t) \<le> 2 ^ a" "0 < nchunks (length t)" using s t by (auto simp: nchunks_le nchunks_pos)
  have lens: "length L = ?d" "1 \<le> length R" "length R \<le> ?d"
    using wide_resultD(8) [OF L s] wide_resultD(2,4) [OF R] big by simp_all
  have m: "nchunks (length (s @ t)) = 2 ^ a + nchunks (length t)" using s by (simp add: nchunks_add)
  have "combine2 key f p (pair_cvs key f p (L @ R)) = combine2 key f p (L @ R)"
    by (rule combine_pair(2)) (use lens in auto)
  also have "\<dots> = (combine key f p L, combine key f p R)"
    by (rule combine2_append [where a = i]) (use lens i in auto)
  also have "\<dots> = combine2 key f p (leaf_cvs key f p c (s @ t))"
    using s t by (simp add: combine2_leaf [where a = a] wide_result_combine [OF L] wide_result_combine [OF R] combine_leaf)
  finally have c2: "combine2 key f p (pair_cvs key f p (L @ R)) = combine2 key f p (leaf_cvs key f p c (s @ t))" .
  let ?P = "pair_cvs key f p (L @ R)"
  have exact: "length ?P = min (2 ^ b) ?d" if "length (s @ t) = 1024 * 2 ^ b" for b
  proof -
    have b: "2 ^ b = 2 ^ a + nchunks (length t)" using m that by (simp only: nchunks_mult)
    then have lo: "(2 :: nat) ^ a < 2 ^ b" and hi: "(2 :: nat) ^ b \<le> 2 ^ Suc a" using tn by auto
    have "a < b" using lo by (rule power_less_imp_less_exp [rotated]) simp
    moreover have "b \<le> Suc a" using hi by (rule power_le_imp_le_exp [rotated]) simp
    ultimately have "b = Suc a" by simp
    then have "length t = 1024 * 2 ^ a" using that s by simp
    then have "length R = ?d" using wide_resultD(8) [OF R] big by simp
    moreover have "?d \<le> 2 ^ b" using b big by simp
    ultimately show ?thesis using lens by (simp add: length_pair_cvs)
  qed
  have "\<forall>x \<in> set zs. length x = 32 \<Longrightarrow> \<forall>x \<in> set (pair_cvs key f p zs). length x = 32" for zs
    by (induction key f p zs rule: pair_cvs.induct) auto
  moreover have "\<forall>x \<in> set (L @ R). length x = 32"
    using wide_resultD(1) [OF L] wide_resultD(1) [OF R] by auto
  ultimately have w: "\<forall>x \<in> set ?P. length x = 32" by blast
  have "(1024 :: nat) * 1 \<le> 1024 * 2 ^ a" by (intro mult_left_mono) auto
  then have "1024 < length (s @ t)" using s t(1) unfolding length_append by linarith
  moreover have "length ?P \<le> ?d" "2 \<le> length ?P" "?d \<le> nchunks (length (s @ t))"
    using lens m big by (auto simp: length_pair_cvs)
  ultimately show ?thesis
    unfolding wide_result_def using w c2 exact by simp
qed

lemma wide_pair_result:
  assumes L: "wide_result key f p c s L" and R: "wide_result key f p (c + 1) t R"
    and s: "length s = 1024" and t: "0 < length t" "length t \<le> 1024"
  shows "wide_result key f p c (s @ t) (L @ R)" "length L = 1" "length R = 1"
proof -
  have one: "nchunks 1024 = 1" "nchunks (length t) = 1"
    using nchunks_mult [of 1] nchunks_le [of "length t" 1] nchunks_pos [OF t(1)] t by auto
  have leaves: "L = leaf_cvs key f p c s" "R = leaf_cvs key f p (c + 1) t"
    using wide_resultD(5) [OF L] wide_resultD(5) [OF R] s t by simp_all
  then show len: "length L = 1" "length R = 1"
    using one s t by (simp_all add: leaf_cvs.simps)
  have "leaf_cvs key f p c (s @ t) = L @ R"
    using leaf_cvs_append [of s 1 t key f p c] s t by (simp add: leaves)
  moreover have m: "nchunks (length (s @ t)) = 2"
    using nchunks_add [of 1 "length t"] one s by simp
  moreover have "\<forall>x \<in> set (L @ R). length x = 32"
    using wide_resultD(1) [OF L] wide_resultD(1) [OF R] by auto
  moreover have "1024 < length (s @ t)" using s t by simp
  moreover have "min (2 ^ b) (max (simd_degree p) 2) = 2" if "length (s @ t) = 1024 * 2 ^ b" for b
  proof -
    have "(2 :: nat) ^ b = 2" using m that by (simp only: nchunks_mult)
    then show ?thesis by simp
  qed
  ultimately show "wide_result key f p c (s @ t) (L @ R)"
    unfolding wide_result_def using len by simp
qed

lemma put_slice_fits: "length s = length out \<Longrightarrow> put_slice 0 s out = s"
  by (simp add: put_slice_def)

lemma take_put_slice_0: "length s = n \<Longrightarrow> take n (put_slice 0 s out) = s"
  by (simp add: put_slice_def)

lemma compress_wide_ok:
  assumes p: "platform_ok p" "length key = 8"
  shows "inp \<noteq> [] \<Longrightarrow> 32 * min (nchunks (length inp)) (max (simd_degree p) 2) \<le> length out \<Longrightarrow>
    \<exists>cvs. compress_subtree_wide p inp key c f out = Some (length cvs, put_slice 0 (concat cvs) out)
      \<and> wide_result key f p c inp cvs"
proof (induction "length inp" arbitrary: inp c out rule: less_induct)
  case less
  let ?d = "max (simd_degree p) 2"
  show ?case
  proof (cases "length inp \<le> simd_degree p * 1024")
    case True
    have "nchunks (length inp) \<le> simd_degree p" using True by (simp add: nchunks_le mult.commute)
    then have "32 * nchunks (length inp) \<le> length out" using less.prems(2) by simp
    from compress_chunks_ok [OF p less.prems(1) True this, of c f]
    show ?thesis
      using True wide_result_leaves [OF less.prems(1) True, of key f c] less.prems(1)
      by (intro exI [of _ "leaf_cvs key f p c inp"])
        (simp add: compress_subtree_wide.simps [of p inp] CHUNK_LEN_def length_leaf_cvs)
  next
    case False
    have "1 \<le> simd_degree p" using simd_degree_pos [of p] by linarith
    then have "1024 < length inp" using False by simp
    then obtain a s t where inp: "inp = s @ t" "length s = 1024 * 2 ^ a" "0 < length t" "length t \<le> length s"
      "left_subtree_len (length inp) = length s"
      by (rule split_bytes)
    have s0: "0 < length s" using inp(3,4) by linarith
    have a: "simd_degree p \<le> 2 ^ a"
      by (rule left_part_big [of p a "length t"]) (use False inp in auto)
    define M where "M = MAX_SIMD_DEGREE_OR_2 (build p)"
    have M: "?d \<le> M" unfolding M_def by (rule degree_bounds(3) [OF p(1)])
    define degree where "degree = (if length s = 1024 then 1 else ?d)"
    have degree: "degree = min (2 ^ a) ?d"
    proof (cases a)
      case 0
      then show ?thesis using inp(2) by (simp add: degree_def)
    next
      case (Suc b)
      have "(2 :: nat) \<le> 2 ^ a" using Suc by simp
      then have "?d \<le> 2 ^ a" using a by simp
      moreover have "length s \<noteq> 1024" using Suc inp(2) by simp
      ultimately have "?d \<le> 2 ^ a" "length s \<noteq> 1024" by simp_all
      then show ?thesis by (simp add: degree_def min_absorb2)
    qed
    have dM: "degree \<le> M" "degree \<le> ?d" using degree M by auto
    define arr :: bytes where "arr = replicate (2 * M * 32) 0"
    have la: "length (take (degree * 32) arr) = degree * 32"
      "length (drop (degree * 32) arr) = 2 * M * 32 - degree * 32"
      using dM by (simp_all add: arr_def)
    have ns: "nchunks (length s) = 2 ^ a" by (simp add: inp(2) nchunks_mult)
    have nt: "0 < nchunks (length t)" "nchunks (length t) \<le> 2 ^ a"
      using inp by (auto simp: nchunks_pos nchunks_le)
    have lt: "length s < length inp" "length t < length inp" and ne: "s \<noteq> []" "t \<noteq> []"
      using inp(1,3) s0 by auto
    have capL: "32 * min (nchunks (length s)) ?d \<le> length (take (degree * 32) arr)"
      using la(1) ns degree by simp
    obtain Lc where L: "compress_subtree_wide p s key c f (take (degree * 32) arr)
        = Some (length Lc, put_slice 0 (concat Lc) (take (degree * 32) arr))" "wide_result key f p c s Lc"
      using less.hyps [OF lt(1) ne(1) capL, of c] by blast
    have capR: "32 * min (nchunks (length t)) ?d \<le> length (drop (degree * 32) arr)"
      using la dM M by linarith
    obtain R where R: "compress_subtree_wide p t key (c + of_nat (2 ^ a)) f (drop (degree * 32) arr)
        = Some (length R, put_slice 0 (concat R) (drop (degree * 32) arr))"
      "wide_result key f p (c + of_nat (2 ^ a)) t R"
      using less.hyps [OF lt(2) ne(2) capR, of "c + of_nat (2 ^ a)"] by blast
    have lens: "length Lc = degree" "length R \<le> degree" "1 \<le> length R"
      using wide_resultD(8) [OF L(2) inp(2)] wide_resultD(2,3,4) [OF R(2)] nt degree by simp_all
    have c32: "length (concat Lc) = 32 * degree" "length (concat R) = 32 * length R"
      "length (concat (Lc @ R)) = 32 * (degree + length R)"
      using concat_32 [OF wide_resultD(1) [OF L(2)]] concat_32 [OF wide_resultD(1) [OF R(2)]] lens
      by simp_all
    have left_full: "put_slice 0 (concat Lc) (take (degree * 32) arr) = concat Lc"
      by (rule put_slice_fits) (simp only: c32 la mult.commute)
    have front: "take ((degree + length R) * 32)
        (put_slice 0 (concat Lc) (take (degree * 32) arr) @ put_slice 0 (concat R) (drop (degree * 32) arr))
        = concat (Lc @ R)"
      unfolding left_full using c32 by (simp add: put_slice_def)
    have total: "length (put_slice 0 (concat Lc) (take (degree * 32) arr)
        @ put_slice 0 (concat R) (drop (degree * 32) arr)) = 2 * M * 32"
      using c32 la lens dM by simp
    have fits: "(degree + length R) * 32 \<le> 2 * M * 32" using lens(2) dM(1) by simp
    have unfolded: "compress_subtree_wide p inp key c f out
      = (if degree = 1 then do {
           assert_that (64 \<le> length out);
           Some (2, put_slice 0 (take 64 (put_slice 0 (concat Lc) (take (degree * 32) arr)
              @ put_slice 0 (concat R) (drop (degree * 32) arr))) out)
         } else compress_parents_parallel p (concat (Lc @ R)) key f out)"
    proof -
      have "take (length s) inp = s" "drop (length s) inp = t" "length s div 1024 = 2 ^ a" "length s < length inp"
        using inp(1,2,3) by simp_all
      moreover have "degree * 32 \<le> length arr" using dM by (simp add: arr_def)
      ultimately show ?thesis
        unfolding compress_subtree_wide.simps [of p inp] Let_def CHUNK_LEN_def OUT_LEN_def inp(5)
          M_def [symmetric] arr_def [symmetric]
        using False s0 L(1) R(1) lens(1) front total fits
        by (simp add: degree_def [symmetric] arr_def [symmetric] del: concat_append)
    qed
    have m: "nchunks (length inp) = 2 ^ a + nchunks (length t)"
      using inp by (simp add: nchunks_add)
    show ?thesis
    proof (cases "degree = 1")
      case True
      then have "a = 0" using degree by (cases a) (auto simp: min_def split: if_splits)
      then have s: "length s = 1024" "length t \<le> 1024" using inp by simp_all
      have R': "wide_result key f p (c + 1) t R" using R(2) \<open>a = 0\<close> by simp
      note pr = wide_pair_result [OF L(2) R' s(1) inp(3) s(2)]
      have "2 \<le> min (nchunks (length inp)) ?d" using m nt by simp
      then have cap: "64 \<le> length out" using less.prems(2) by linarith
      have "compress_subtree_wide p inp key c f out = Some (length (Lc @ R), put_slice 0 (concat (Lc @ R)) out)"
        unfolding unfolded using True cap front pr(2,3) by simp
      then show ?thesis using pr(1) inp(1) by blast
    next
      case False
      then have "a \<noteq> 0" using degree by (cases a) auto
      then have big: "?d \<le> 2 ^ a" "degree = ?d"
        using a degree by (cases a; simp)+
      have cap: "32 * ((length (Lc @ R) + 1) div 2) \<le> length out"
      proof -
        have "(length (Lc @ R) + 1) div 2 \<le> ?d" using lens big by simp
        moreover have "min (nchunks (length inp)) ?d = ?d" using m big(1) by simp
        ultimately show ?thesis using less.prems(2) by linarith
      qed
      have "compress_parents_parallel p (concat (Lc @ R)) key f out
          = Some ((length (Lc @ R) + 1) div 2, put_slice 0 (concat (pair_cvs key f p (Lc @ R))) out)"
        by (rule compress_parents_ok [OF p _ _ cap])
          (use wide_resultD(1) [OF L(2)] wide_resultD(1) [OF R(2)] lens dM in \<open>auto simp: M_def\<close>)
      then have "compress_subtree_wide p inp key c f out
          = Some (length (pair_cvs key f p (Lc @ R)), put_slice 0 (concat (pair_cvs key f p (Lc @ R))) out)"
        using False by (simp only: unfolded if_False length_pair_cvs)
      moreover have "wide_result key f p c inp (pair_cvs key f p (Lc @ R))"
        unfolding inp(1) by (rule wide_parents_result [OF L(2) R(2) inp(2,3,4) big(1)])
      ultimately show ?thesis by blast
    qed
  qed
qed

text \<open>The two children of the root, and the whole input at once.\<close>

lemma condense_ok:
  assumes p: "platform_ok p" "length key = 8"
  shows "\<forall>x \<in> set cvs. length x = 32 \<Longrightarrow> 2 \<le> length cvs \<Longrightarrow>
    length cvs \<le> MAX_SIMD_DEGREE_OR_2 (build p) \<Longrightarrow> 32 * length cvs \<le> length arr \<Longrightarrow>
    take (32 * length cvs) arr = concat cvs \<Longrightarrow>
    length oarr = MAX_SIMD_DEGREE_OR_2 (build p) * 32 div 2 \<Longrightarrow>
    condense p key f (length cvs) arr oarr = Some (fst (combine2 key f p cvs) @ snd (combine2 key f p cvs))"
proof (induction "length cvs" arbitrary: cvs arr oarr rule: less_induct)
  case less
  let ?M = "MAX_SIMD_DEGREE_OR_2 (build p)"
  show ?case
  proof (cases "2 < length cvs")
    case True
    let ?P = "pair_cvs key f p cvs"
    have n: "(length cvs + 1) div 2 < length cvs" "2 \<le> (length cvs + 1) div 2" using True by auto
    have lP: "length ?P = (length cvs + 1) div 2" by (rule length_pair_cvs)
    have P32: "\<forall>x \<in> set ?P. length x = 32"
      using less.prems(1) by (induction key f p cvs rule: pair_cvs.induct) auto
    have cP: "length (concat ?P) = 32 * ((length cvs + 1) div 2)"
      using concat_32 [OF P32] lP by simp
    obtain h where h: "?M = 2 * h" using degree_bounds(5) [OF p(1)] by (elim evenE)
    have "(length cvs + 1) div 2 \<le> h" using less.prems(3) h by linarith
    then have fit: "32 * ((length cvs + 1) div 2) \<le> length oarr" using less.prems(6) h by simp
    have par: "compress_parents_parallel p (concat cvs) key f oarr
        = Some ((length cvs + 1) div 2, put_slice 0 (concat ?P) oarr)"
      by (rule compress_parents_ok [OF p less.prems(1) _ fit]) (use less.prems(3) in simp)
    let ?arr = "put_slice 0 (concat ?P) arr"
    have fit2: "32 * ((length cvs + 1) div 2) \<le> length arr" using n(1) less.prems(4) by linarith
    have "condense p key f (length cvs) arr oarr
        = condense p key f (length ?P) ?arr (put_slice 0 (concat ?P) oarr)"
      using True less.prems(5) par n cP unfolding condense.simps [of p key f "length cvs"] OUT_LEN_def
      by (simp add: lP mult.commute take_put_slice_0)
    also have "\<dots> = Some (fst (combine2 key f p ?P) @ snd (combine2 key f p ?P))"
    proof (rule less.hyps)
      show "take (32 * length ?P) ?arr = concat ?P"
        using cP lP by (simp add: take_put_slice_0)
    qed (use n lP P32 less.prems fit fit2 cP in auto)
    also have "combine2 key f p ?P = combine2 key f p cvs"
      by (rule combine_pair(2)) (use True in simp)
    finally show ?thesis .
  next
    case False
    then have two: "length cvs = 2" using less.prems(2) by simp
    then obtain x y where cvs: "cvs = [x, y]" by (cases cvs; cases "tl cvs") auto
    have "combine2 key f p cvs = (x, y)"
      using below_eq [of 1 0] by (simp add: cvs combine2_def numeral_2_eq_2)
    then show ?thesis
      using less.prems(5) two by (subst condense.simps) (simp add: OUT_LEN_def cvs)
  qed
qed

lemma compress_subtree_to_parent_ok:
  assumes p: "platform_ok p" "length key = 8"
    and inp: "length s = 1024 * 2 ^ a" "0 < length t" "length t \<le> length s"
  shows "compress_subtree_to_parent_node p (s @ t) key c f
    = Some (tree_cv key f p c s @ tree_cv key f p (c + of_nat (2 ^ a)) t)"
proof -
  let ?M = "MAX_SIMD_DEGREE_OR_2 (build p)"
  let ?arr = "replicate (?M * 32) 0 :: bytes"
  have "(1024 :: nat) * 1 \<le> 1024 * 2 ^ a" by (intro mult_left_mono) auto
  then have big: "1024 < length (s @ t)" using inp unfolding length_append by linarith
  have "min (nchunks (length (s @ t))) (max (simd_degree p) 2) \<le> ?M"
    by (rule order_trans [OF min.cobounded2 degree_bounds(3) [OF p(1)]])
  then have cap: "32 * min (nchunks (length (s @ t))) (max (simd_degree p) 2) \<le> length ?arr"
    unfolding length_replicate by linarith
  obtain cvs where w: "compress_subtree_wide p (s @ t) key c f ?arr = Some (length cvs, put_slice 0 (concat cvs) ?arr)"
    "wide_result key f p c (s @ t) cvs"
    using compress_wide_ok [OF p _ cap, of c f] inp(2) by auto
  note D = wide_resultD [OF w(2)]
  have M: "length cvs \<le> ?M" using D(4) degree_bounds(3) [OF p(1)] by (rule order_trans)
  have c32: "length (concat cvs) = 32 * length cvs" using D(1) by (rule concat_32)
  have "condense p key f (length cvs) (put_slice 0 (concat cvs) ?arr) (replicate (?M * 32 div 2) 0)
      = Some (fst (combine2 key f p cvs) @ snd (combine2 key f p cvs))"
    by (rule condense_ok [OF p D(1) D(6) [OF big] M]) (use c32 M in \<open>simp_all add: take_put_slice_0\<close>)
  then show ?thesis
    using D(7) [OF big] combine2_leaf [OF inp, of key f p c] w(1)
    by (simp add: compress_subtree_to_parent_node_def OUT_LEN_def combine_leaf Let_def)
qed

lemma hash_all_at_once_ok:
  assumes p: "platform_ok p" "length key = 8"
  shows "hash_all_at_once p inp key f = Some (tree_output key f p 0 inp)"
proof (cases "length inp \<le> 1024")
  case True
  then show ?thesis
    using cs_update_ok [OF p, of "[]" inp 0 f]
    by (simp add: hash_all_at_once_def CHUNK_LEN_def cs_new_state_of tree_output_chunk)
next
  case False
  then have "1024 < length inp" by simp
  then obtain a s t where inp: "inp = s @ t" "length s = 1024 * 2 ^ a" "0 < length t" "length t \<le> length s"
    by (rule split_bytes)
  then show ?thesis
    using False compress_subtree_to_parent_ok [OF p inp(2,3,4), of 0 f] tree_output_split [OF inp(2,3,4), of key f p 0]
    by (simp add: hash_all_at_once_def CHUNK_LEN_def parent_node_output_def)
qed

subsection \<open>Properties\<close>

text \<open>C10. The one-shot hash, with its wide recursion, its groups of \<open>simd_degree\<close> chunks and
  its in-place parent layers, builds the output of the BLAKE3 tree of the specification: the left
  subtree of every node is the largest power of two of chunks that leaves something on the right.\<close>

theorem one_shot_is_tree:
  assumes "platform_ok p" and "length key = 8"
  shows "hash_all_at_once p inp key f = Some (tree_output key f p 0 inp)"
  using assms by (rule hash_all_at_once_ok)

lemma one_shot_is_tree_witness:
  "hash_all_at_once (detect (strict_build False)) (replicate 5000 9) IV 0
    = Some (tree_output IV 0 (detect (strict_build False)) 0 (replicate 5000 9))"
  by (rule one_shot_is_tree) (simp_all add: IV_def)

text \<open>The split point of a node: \<open>left_subtree_len\<close> is a power of two of whole chunks,
  the left part is at least half of the input, and the right part is not empty.\<close>

theorem left_subtree_len_splits:
  assumes "1024 < n"
  shows "\<exists>a. left_subtree_len n = 1024 * 2 ^ a \<and> left_subtree_len n < n \<and> n \<le> 2 * left_subtree_len n"
proof -
  obtain a t where "n = 1024 * 2 ^ a + t" "0 < t" "t \<le> 1024 * 2 ^ a" "left_subtree_len n = 1024 * 2 ^ a"
    using assms by (rule split_point)
  then show ?thesis by (intro exI [of _ a]) simp
qed

lemma left_subtree_len_splits_witness:
  "\<exists>a. left_subtree_len 4096 = 1024 * 2 ^ a \<and> left_subtree_len 4096 < 4096 \<and> 4096 \<le> 2 * left_subtree_len 4096"
  by (rule left_subtree_len_splits) simp

end
