(* ===== verification/Blake3_Hasher.thy ===== *)
theory Blake3_Hasher
  imports Blake3_Tree
begin

section \<open>The incremental hasher and the output reader\<close>

text \<open>
  \<open>Hasher\<close> and \<open>OutputReader\<close> of \<open>blake3/src/lib.rs\<close>, with
  \<open>max_subtree_len\<close> and \<open>set_input_offset\<close> of \<open>blake3/src/hazmat.rs\<close>.  The
  stack of chaining values is merged lazily.  Its entries are subtrees of \<open>2 ^ e\<close> chunks
  for a list of exponents \<open>e\<close> that strictly decreases up to the last one; the count of
  one bits of the chunk counter tells the code how far to merge.
\<close>

definition count_ones :: "u64 \<Rightarrow> nat" where
  "count_ones w = length (filter (bit w) [0..<64])"

definition trailing_zeros :: "u64 \<Rightarrow> nat" where
  "trailing_zeros w = length (takeWhile (\<lambda>i. \<not> bit w i) [0..<64])"

text \<open>\<open>None\<close> is the panic on an offset that is not a chunk boundary.\<close>

definition max_subtree_len :: "u64 \<Rightarrow> u64 option option" where
  "max_subtree_len input_offset =
     (if input_offset = 0 then Some None
      else do {
        assert_that (unat input_offset mod CHUNK_LEN = 0);
        let counter = input_offset div of_nat CHUNK_LEN;
        let max_chunks = push_bit (trailing_zeros counter) 1;
        Some (Some (max_chunks * of_nat CHUNK_LEN))
      })"

record hasher =
  h_key :: cv_words
  h_chunk_state :: chunk_state
  initial_chunk_counter :: u64
  cv_stack :: "bytes list"

definition new_internal :: "platform \<Rightarrow> cv_words \<Rightarrow> u8 \<Rightarrow> hasher" where
  "new_internal p key flags =
     \<lparr>h_key = key, h_chunk_state = cs_new key 0 flags p, initial_chunk_counter = 0, cv_stack = []\<rparr>"

definition new_keyed :: "platform \<Rightarrow> bytes \<Rightarrow> hasher" where
  "new_keyed p key = new_internal p (words_from_le_bytes_32 key) KEYED_HASH"

definition h_new :: "platform \<Rightarrow> hasher" where
  "h_new p = new_internal p IV 0"

definition h_reset :: "hasher \<Rightarrow> hasher" where
  "h_reset h =
     h\<lparr>initial_chunk_counter := 0,
       h_chunk_state := cs_new (h_key h) 0 (cs_flags (h_chunk_state h)) (cs_platform (h_chunk_state h)),
       cv_stack := []\<rparr>"

definition h_count :: "hasher \<Rightarrow> u64" where
  "h_count h =
     (chunk_counter (h_chunk_state h) - initial_chunk_counter h) * of_nat CHUNK_LEN
     + of_nat (cs_count (h_chunk_state h))"

definition set_input_offset :: "hasher \<Rightarrow> u64 \<Rightarrow> hasher option" where
  "set_input_offset h offset =
     do {
       assert_that (h_count h = 0);
       assert_that (unat offset mod CHUNK_LEN = 0);
       let counter = offset div of_nat CHUNK_LEN;
       Some (h\<lparr>h_chunk_state := (h_chunk_state h)\<lparr>chunk_counter := counter\<rparr>,
               initial_chunk_counter := counter\<rparr>)
     }"

subsection \<open>The stack\<close>

function merge_loop :: "cv_words \<Rightarrow> u8 \<Rightarrow> platform \<Rightarrow> nat \<Rightarrow> bytes list \<Rightarrow> bytes list option" where
  "merge_loop key flags p post_merge_stack_len stack =
     (if post_merge_stack_len < length stack then
        (if length stack < 2 then None
         else let right_child = last stack;
                  left_child = last (butlast stack);
                  parent = parent_node_output left_child right_child key flags p
              in merge_loop key flags p post_merge_stack_len (butlast (butlast stack) @ [chaining_value parent]))
      else Some stack)"
  by pat_completeness auto
termination
  by (relation "measure (\<lambda>(key, flags, p, n, stack). length stack)") auto

declare merge_loop.simps [simp del]

definition merge_cv_stack :: "hasher \<Rightarrow> u64 \<Rightarrow> hasher option" where
  "merge_cv_stack h counter =
     do {
       let post_merge_stack_len = count_ones (counter - initial_chunk_counter h);
       stack \<leftarrow> merge_loop (h_key h) (cs_flags (h_chunk_state h)) (cs_platform (h_chunk_state h))
                 post_merge_stack_len (cv_stack h);
       Some (h\<lparr>cv_stack := stack\<rparr>)
     }"

definition push_cv :: "hasher \<Rightarrow> bytes \<Rightarrow> u64 \<Rightarrow> hasher option" where
  "push_cv h new_cv counter =
     do {
       h \<leftarrow> merge_cv_stack h counter;
       assert_that (length (cv_stack h) < MAX_DEPTH + 1);
       Some (h\<lparr>cv_stack := cv_stack h @ [new_cv]\<rparr>)
     }"

subsection \<open>\<open>update\<close>\<close>

text \<open>\<open>while (subtree_len - 1) as u64 & count_so_far != 0 { subtree_len /= 2 }\<close>.\<close>

function shrink :: "nat \<Rightarrow> u64 \<Rightarrow> nat" where
  "shrink subtree_len count_so_far =
     (if (of_nat (subtree_len - 1) :: u64) AND count_so_far \<noteq> 0
      then shrink (subtree_len div 2) count_so_far else subtree_len)"
  by pat_completeness auto
termination
proof (relation "measure fst")
  fix n :: nat and c :: u64
  assume "(of_nat (n - 1) :: u64) AND c \<noteq> 0"
  then have "n - 1 \<noteq> 0" by auto
  then show "((n div 2, c), n, c) \<in> measure fst" by simp
qed simp

declare shrink.simps [simp del]

lemma shrink_pos: "0 < n \<Longrightarrow> 0 < shrink n c"
proof (induction n c rule: shrink.induct)
  case (1 n c)
  show ?case
  proof (cases "(of_nat (n - 1) :: u64) AND c = 0")
    case True
    with 1 show ?thesis by (subst shrink.simps) simp
  next
    case False
    then have "n - 1 \<noteq> 0" by auto
    then have "0 < n div 2" by linarith
    with 1 False show ?thesis by (subst shrink.simps) simp
  qed
qed

lemma next_power_of_two_pos: "0 < next_power_of_two n"
  using next_power_of_two_spec [of n] by (metis zero_less_numeral zero_less_power)

text \<open>One round of \<open>while input.len() > CHUNK_LEN\<close>: a whole subtree onto the stack.\<close>

definition push_subtree :: "hasher \<Rightarrow> bytes \<Rightarrow> hasher option" where
  "push_subtree h subtree =
     do {
       let cs = h_chunk_state h;
       let subtree_chunks = (of_nat (length subtree div CHUNK_LEN) :: u64);
       h \<leftarrow>
         (if length subtree \<le> CHUNK_LEN then do {
            one \<leftarrow> cs_update (cs_new (h_key h) (chunk_counter cs) (cs_flags cs) (cs_platform cs)) subtree;
            push_cv h (chaining_value (cs_output one)) (chunk_counter cs)
          } else do {
            cv_pair \<leftarrow> compress_subtree_to_parent_node (cs_platform cs) subtree (h_key h)
                        (chunk_counter cs) (cs_flags cs);
            h \<leftarrow> push_cv h (take 32 cv_pair) (chunk_counter cs);
            push_cv h (subslice 32 64 cv_pair) (chunk_counter cs + subtree_chunks div 2)
          });
       Some (h\<lparr>h_chunk_state := (h_chunk_state h)\<lparr>chunk_counter :=
                 chunk_counter (h_chunk_state h) + subtree_chunks\<rparr>\<rparr>)
     }"

function update_loop :: "hasher \<Rightarrow> bytes \<Rightarrow> (hasher \<times> bytes) option" where
  "update_loop h inp =
     (if CHUNK_LEN < length inp then
        (let count_so_far = chunk_counter (h_chunk_state h) * of_nat CHUNK_LEN;
             subtree_len = shrink (largest_power_of_two_leq (length inp)) count_so_far
         in case push_subtree h (take subtree_len inp) of
              None \<Rightarrow> None
            | Some h \<Rightarrow> update_loop h (drop subtree_len inp))
      else Some (h, inp))"
  by pat_completeness auto
termination
  by (relation "measure (\<lambda>(h, inp). length inp)")
    (auto simp: largest_power_of_two_leq_def intro!: diff_less shrink_pos next_power_of_two_pos)

declare update_loop.simps [simp del]

text \<open>The partial chunk first: the state, what is left of the input, and whether to return early.\<close>

definition finish_chunk :: "hasher \<Rightarrow> bytes \<Rightarrow> (hasher \<times> bytes \<times> bool) option" where
  "finish_chunk h inp =
     (if 0 < cs_count (h_chunk_state h) then do {
        let want = CHUNK_LEN - cs_count (h_chunk_state h);
        let n = min want (length inp);
        cs \<leftarrow> cs_update (h_chunk_state h) (take n inp);
        let h = h\<lparr>h_chunk_state := cs\<rparr>;
        let inp = drop n inp;
        (if inp \<noteq> [] then do {
           let chunk_cv = chaining_value (cs_output cs);
           h \<leftarrow> push_cv h chunk_cv (chunk_counter cs);
           Some (h\<lparr>h_chunk_state :=
                     cs_new (h_key h) (chunk_counter cs + 1) (cs_flags cs) (cs_platform cs)\<rparr>, inp, False)
         } else Some (h, inp, True))
      } else Some (h, inp, False))"

definition h_update :: "hasher \<Rightarrow> bytes \<Rightarrow> hasher option" where
  "h_update h inp =
     do {
       let input_offset = initial_chunk_counter h * of_nat CHUNK_LEN;
       limit \<leftarrow> max_subtree_len input_offset;
       (case limit of
          None \<Rightarrow> Some ()
        | Some mx \<Rightarrow> assert_that (of_nat (length inp) \<le> mx - h_count h));
       (h, inp, finished) \<leftarrow> finish_chunk h inp;
       (if finished then Some h
        else do {
          (h, inp) \<leftarrow> update_loop h inp;
          (if inp \<noteq> [] then do {
             cs \<leftarrow> cs_update (h_chunk_state h) inp;
             let h = h\<lparr>h_chunk_state := cs\<rparr>;
             merge_cv_stack h (chunk_counter cs)
           } else Some h)
        })
     }"

subsection \<open>Finalisation\<close>

text \<open>\<open>while num_cvs_remaining > 0\<close> walks the stack from the top down.\<close>

definition merge_down :: "cv_words \<Rightarrow> u8 \<Rightarrow> platform \<Rightarrow> bytes list \<Rightarrow> b3_output \<Rightarrow> b3_output" where
  "merge_down key flags p stack ou =
     fold (\<lambda>cv ou. parent_node_output cv (chaining_value ou) key flags p) (rev stack) ou"

definition final_output :: "hasher \<Rightarrow> b3_output option" where
  "final_output h =
     (let cs = h_chunk_state h; stack = cv_stack h; n = length stack
      in if stack = [] then Some (cs_output cs)
         else if 0 < cs_count cs then
           Some (merge_down (h_key h) (cs_flags cs) (cs_platform cs) stack (cs_output cs))
         else if n < 2 then None
         else Some (merge_down (h_key h) (cs_flags cs) (cs_platform cs) (take (n - 2) stack)
                (parent_node_output (stack ! (n - 2)) (stack ! (n - 1)) (h_key h) (cs_flags cs) (cs_platform cs))))"

definition finalize :: "hasher \<Rightarrow> bytes option" where
  "finalize h =
     do {
       assert_that (initial_chunk_counter h = 0);
       ou \<leftarrow> final_output h;
       Some (root_hash ou)
     }"

definition finalize_non_root :: "hasher \<Rightarrow> bytes option" where
  "finalize_non_root h =
     do {
       assert_that (h_count h \<noteq> 0);
       ou \<leftarrow> final_output h;
       Some (chaining_value ou)
     }"

record output_reader =
  inner :: b3_output
  position_within_block :: u8

definition reader_new :: "b3_output \<Rightarrow> output_reader" where
  "reader_new ou = \<lparr>inner = ou, position_within_block = 0\<rparr>"

definition finalize_xof :: "hasher \<Rightarrow> output_reader option" where
  "finalize_xof h =
     do {
       assert_that (initial_chunk_counter h = 0);
       ou \<leftarrow> final_output h;
       Some (reader_new ou)
     }"

subsection \<open>The output reader\<close>

text \<open>\<open>fill_one_block\<close> returns the reader and the bytes it put at the front of the buffer.\<close>

definition fill_one_block :: "output_reader \<Rightarrow> nat \<Rightarrow> output_reader \<times> bytes" where
  "fill_one_block r len =
     (let output_block = root_output_block (inner r);
          output_bytes = drop (unat (position_within_block r)) output_block;
          n = min len (length output_bytes);
          pos = position_within_block r + of_nat n
      in if pos = of_nat BLOCK_LEN
         then (r\<lparr>inner := (inner r)\<lparr>o_counter := o_counter (inner r) + 1\<rparr>, position_within_block := 0\<rparr>,
               take n output_bytes)
         else (r\<lparr>position_within_block := pos\<rparr>, take n output_bytes))"

text \<open>\<open>fill\<close> for a buffer of \<open>len\<close> bytes returns the reader and the buffer's new contents.\<close>

definition reader_fill :: "output_reader \<Rightarrow> nat \<Rightarrow> (output_reader \<times> bytes) option" where
  "reader_fill r len =
     (if len = 0 then Some (r, [])
      else do {
        let (r, head) = (if position_within_block r \<noteq> 0 then fill_one_block r len else (r, []));
        let len = len - length head;
        let full_blocks = len div BLOCK_LEN;
        let full_blocks_len = full_blocks * BLOCK_LEN;
        (r, body) \<leftarrow>
          (if 0 < full_blocks then do {
             let ou = inner r;
             body \<leftarrow> xof_many (o_platform ou) (input_chaining_value ou) (o_block ou) (o_block_len ou)
                       (o_counter ou) (o_flags ou OR ROOT) (replicate full_blocks_len 0);
             Some (r\<lparr>inner := ou\<lparr>o_counter := o_counter ou + of_nat full_blocks\<rparr>\<rparr>, body)
           } else Some (r, []));
        let len = len - full_blocks_len;
        let (r, rest) = (if len \<noteq> 0 then fill_one_block r len else (r, []));
        Some (r, head @ body @ rest)
      })"

definition reader_position :: "output_reader \<Rightarrow> u64" where
  "reader_position r =
     (let m = unat (o_counter (inner r)) * BLOCK_LEN;
          m = min m (2 ^ 64 - 1);
          m = min (m + unat (position_within_block r)) (2 ^ 64 - 1)
      in of_nat m)"

definition reader_set_position :: "output_reader \<Rightarrow> u64 \<Rightarrow> output_reader" where
  "reader_set_position r position =
     r\<lparr>position_within_block := ucast (position mod of_nat BLOCK_LEN),
       inner := (inner r)\<lparr>o_counter := position div of_nat BLOCK_LEN\<rparr>\<rparr>"

subsection \<open>Exponents: the shape of the stack\<close>

definition chunks_of :: "nat list \<Rightarrow> nat" where
  "chunks_of es = sum_list (map (\<lambda>e. 2 ^ e) es)"

lemma chunks_of_simps [simp]:
  "chunks_of [] = 0" "chunks_of (e # es) = 2 ^ e + chunks_of es"
  "chunks_of (es @ es') = chunks_of es + chunks_of es'" "chunks_of (rev es) = chunks_of es"
  by (simp_all add: chunks_of_def rev_map [symmetric] sum_list_rev)

text \<open>Bottom first: strictly decreasing, and the form with a lazily unmerged last entry.\<close>

definition strict :: "nat list \<Rightarrow> bool" where
  "strict es \<longleftrightarrow> sorted_wrt (>) es"

definition lazy :: "nat list \<Rightarrow> bool" where
  "lazy es \<longleftrightarrow> strict (butlast es) \<and> (2 \<le> length es \<longrightarrow> last es \<le> last (butlast es))"

lemma strict_Nil [simp]: "strict []" by (simp add: strict_def)
lemma strict_single [simp]: "strict [e]" by (simp add: strict_def)

lemma strict_snoc: "strict (es @ [e]) \<longleftrightarrow> strict es \<and> (es = [] \<or> e < last es)"
proof (cases es rule: rev_cases)
  case Nil
  then show ?thesis by (simp add: strict_def)
next
  case (snoc ys y)
  then show ?thesis by (auto simp: strict_def sorted_wrt_append)
qed

lemma lazy_snoc: "lazy (es @ [e]) \<longleftrightarrow> strict es \<and> (es = [] \<or> e \<le> last es)"
  by (cases es rule: rev_cases) (auto simp: lazy_def butlast_append)

lemma strict_lazy: "strict es \<Longrightarrow> lazy es"
  by (cases es rule: rev_cases) (auto simp: lazy_snoc strict_snoc, simp add: lazy_def)

lemma strict_distinct: "strict es \<Longrightarrow> distinct es"
  by (induction es rule: rev_induct) (auto simp: strict_def sorted_wrt_append)

lemma strict_prefix: "strict (es @ es') \<Longrightarrow> strict es"
  by (simp add: strict_def sorted_wrt_append)

lemma bit_chunks_of: "distinct es \<Longrightarrow> bit (chunks_of es) i \<longleftrightarrow> i \<in> set es"
proof (induction es arbitrary: i)
  case Nil
  then show ?case by simp
next
  case (Cons e es)
  have "bit (2 ^ e + chunks_of es) i \<longleftrightarrow> bit ((2 :: nat) ^ e) i \<or> bit (chunks_of es) i"
    by (rule bit_disjunctive_add_iff) (use Cons in \<open>auto simp: bit_exp_iff\<close>)
  with Cons show ?case by (auto simp: bit_exp_iff)
qed

lemma exponent_bound: "e \<in> set es \<Longrightarrow> 2 ^ e \<le> chunks_of es"
  by (induction es) (auto simp: trans_le_add2)

lemma exponent_less: "e \<in> set es \<Longrightarrow> chunks_of es < 2 ^ k \<Longrightarrow> e < k"
  using exponent_bound [of e es] by (metis le_less_trans nat_power_less_imp_less zero_less_numeral)

lemma count_ones_chunks:
  assumes "strict es" "chunks_of es < 2 ^ 64"
  shows "count_ones (of_nat (chunks_of es)) = length es"
proof -
  have "filter (bit (of_nat (chunks_of es) :: u64)) [0..<64] = filter (\<lambda>i. i \<in> set es) [0..<64]"
    by (rule filter_cong) (auto simp: bit_of_nat_iff bit_chunks_of strict_distinct assms(1))
  moreover have "set (filter (\<lambda>i. i \<in> set es) [0..<64]) = set es"
    using exponent_less [OF _ assms(2)] by auto
  ultimately show ?thesis
    unfolding count_ones_def
    by (metis assms(1) distinct_card distinct_filter distinct_upt strict_distinct)
qed

lemma strict_length:
  assumes "strict es" "chunks_of es < 2 ^ k"
  shows "length es \<le> k"
proof -
  have "set es \<subseteq> {..<k}" using exponent_less [OF _ assms(2)] by auto
  then have "card (set es) \<le> k" using card_mono [of "{..<k}"] by simp
  then show ?thesis using strict_distinct [OF assms(1)] by (simp add: distinct_card)
qed

text \<open>Below an entry of a strict stack there is room for everything above it, twice its top.\<close>

lemma strict_room: "strict (e # es @ [b]) \<Longrightarrow> chunks_of (es @ [b]) + 2 ^ b \<le> 2 ^ e"
proof (induction es arbitrary: e)
  case Nil
  then have "Suc b \<le> e" by (simp add: strict_def)
  then have "(2 :: nat) ^ Suc b \<le> 2 ^ e" by (intro power_increasing) auto
  then show ?case by simp
next
  case (Cons d es)
  then have "chunks_of (es @ [b]) + 2 ^ b \<le> 2 ^ d" "d < e" by (auto simp: strict_def)
  moreover have "(2 :: nat) ^ Suc d \<le> 2 ^ e" using \<open>d < e\<close> by (intro power_increasing) auto
  ultimately show ?case by simp
qed

lemma strict_above: "strict (e # es) \<Longrightarrow> chunks_of es < 2 ^ e"
proof (cases es rule: rev_cases)
  case Nil
  then show ?thesis by simp
next
  case (snoc ys y)
  assume "strict (e # es)"
  then have "chunks_of es + 2 ^ y \<le> 2 ^ e" using strict_room [of e ys y] snoc by simp
  moreover have "(0 :: nat) < 2 ^ y" by simp
  ultimately show ?thesis by linarith
qed

lemma strict_dvd:
  assumes "strict es" "2 ^ b dvd chunks_of es" "e \<in> set es"
  shows "b \<le> e"
proof (rule ccontr)
  assume "\<not> b \<le> e"
  obtain k where "chunks_of es = push_bit b k"
    using assms(2) by (auto simp: push_bit_eq_mult mult.commute elim!: dvdE)
  with \<open>\<not> b \<le> e\<close> have "\<not> bit (chunks_of es) e" by (simp add: bit_push_bit_iff)
  then show False using bit_chunks_of [OF strict_distinct [OF assms(1)], of e] assms(3) by simp
qed

subsection \<open>Stacks of subtrees and their merging\<close>

fun stack_cvs :: "cv_words \<Rightarrow> u8 \<Rightarrow> platform \<Rightarrow> nat \<Rightarrow> nat list \<Rightarrow> bytes \<Rightarrow> bytes list" where
  "stack_cvs key f p c [] xs = []"
| "stack_cvs key f p c (e # es) xs =
     tree_cv key f p (of_nat c) (take (1024 * 2 ^ e) xs) # stack_cvs key f p (c + 2 ^ e) es (drop (1024 * 2 ^ e) xs)"

lemma length_stack_cvs [simp, len_simps]: "length (stack_cvs key f p c es xs) = length es"
  by (induction es arbitrary: c xs) auto

lemma stack_cvs_append:
  "length xs = 1024 * chunks_of es \<Longrightarrow>
   stack_cvs key f p c (es @ es') (xs @ ys) = stack_cvs key f p c es xs @ stack_cvs key f p (c + chunks_of es) es' ys"
proof (induction es arbitrary: c xs)
  case Nil
  then show ?case by simp
next
  case (Cons e es)
  have "1024 * 2 ^ e \<le> length xs" using Cons.prems by simp
  moreover have "stack_cvs key f p (c + 2 ^ e) (es @ es') (drop (1024 * 2 ^ e) xs @ ys)
      = stack_cvs key f p (c + 2 ^ e) es (drop (1024 * 2 ^ e) xs)
        @ stack_cvs key f p (c + 2 ^ e + chunks_of es) es' ys"
    by (rule Cons.IH) (use Cons.prems in simp)
  ultimately show ?case by (simp add: add.assoc)
qed

lemma stack_cvs_snoc:
  "length xs = 1024 * chunks_of es \<Longrightarrow> length ys = 1024 * 2 ^ e \<Longrightarrow>
   stack_cvs key f p c (es @ [e]) (xs @ ys) = stack_cvs key f p c es xs @ [tree_cv key f p (of_nat (c + chunks_of es)) ys]"
  using stack_cvs_append [of xs es key f p c "[e]" ys] by simp

text \<open>Merging the two equal entries on top is one entry of twice the size.\<close>

lemma merge_top:
  assumes len: "length xs = 1024 * chunks_of (es @ [a, a])" and p: "platform_ok p" "length key = 8"
  shows "butlast (butlast (stack_cvs key f p B (es @ [a, a]) xs))
      @ [chaining_value (parent_node_output (last (butlast (stack_cvs key f p B (es @ [a, a]) xs)))
           (last (stack_cvs key f p B (es @ [a, a]) xs)) key f p)]
    = stack_cvs key f p B (es @ [Suc a]) xs"
proof -
  let ?n = "1024 * chunks_of es" and ?m = "1024 * 2 ^ a"
  define u s t where "u = take ?n xs" and "s = take ?m (drop ?n xs)" and "t = drop ?m (drop ?n xs)"
  have xs: "xs = u @ (s @ t)" unfolding u_def s_def t_def by (simp only: append_take_drop_id)
  have lens: "length u = 1024 * chunks_of es" "length s = 1024 * 2 ^ a" "length t = 1024 * 2 ^ a"
    using len by (simp_all add: u_def s_def t_def)
  have "stack_cvs key f p B ((es @ [a]) @ [a]) ((u @ s) @ t)
      = (stack_cvs key f p B es u @ [tree_cv key f p (of_nat (B + chunks_of es)) s])
        @ [tree_cv key f p (of_nat (B + chunks_of es + 2 ^ a)) t]"
    by (subst stack_cvs_snoc, simp_all add: lens, subst stack_cvs_snoc, simp_all add: lens add.assoc)
  then have two: "stack_cvs key f p B (es @ [a, a]) xs
      = stack_cvs key f p B es u @ [tree_cv key f p (of_nat (B + chunks_of es)) s,
          tree_cv key f p (of_nat (B + chunks_of es + 2 ^ a)) t]"
    by (simp add: xs add.assoc)
  have one: "stack_cvs key f p B (es @ [Suc a]) xs
      = stack_cvs key f p B es u @ [tree_cv key f p (of_nat (B + chunks_of es)) (s @ t)]"
    unfolding xs using stack_cvs_snoc [of u es "s @ t" "Suc a" key f p B] lens by simp
  have "tree_output key f p (of_nat (B + chunks_of es)) (s @ t)
      = parent_node_output (tree_cv key f p (of_nat (B + chunks_of es)) s)
          (tree_cv key f p (of_nat (B + chunks_of es) + of_nat (2 ^ a)) t) key f p"
    by (rule tree_output_split) (use lens in simp_all)
  then show ?thesis
    unfolding two one using p by (simp add: butlast_append)
qed

lemma merge_loop_ok:
  assumes p: "platform_ok p" "length key = 8"
  shows "lazy es \<Longrightarrow> length xs = 1024 * chunks_of es \<Longrightarrow>
    \<exists>es'. strict es' \<and> chunks_of es' = chunks_of es \<and> length es' \<le> length es \<and> (es \<noteq> [] \<longrightarrow> es' \<noteq> []) \<and>
      merge_loop key f p (length es') (stack_cvs key f p B es xs) = Some (stack_cvs key f p B es' xs)"
proof (induction "length es" arbitrary: es rule: less_induct)
  case less
  show ?case
  proof (cases "strict es")
    case True
    then show ?thesis by (intro exI [of _ es]) (simp add: merge_loop.simps)
  next
    case False
    then obtain es0 a where es0: "es = es0 @ [a]" by (cases es rule: rev_cases) auto
    with False less.prems(1) have "es0 \<noteq> []" "last es0 = a" by (auto simp: lazy_snoc strict_snoc)
    then obtain es1 where "es0 = es1 @ [a]" by (metis append_butlast_last_id)
    with es0 have es: "es = es1 @ [a, a]" by simp
    have lz: "lazy (es1 @ [Suc a])"
      using less.prems(1) lazy_snoc [of "es1 @ [a]" a] by (auto simp: es lazy_snoc strict_snoc)
    have len: "length xs = 1024 * chunks_of (es1 @ [Suc a])" using less.prems(2) by (simp add: es)
    obtain es' where es': "strict es'" "chunks_of es' = chunks_of (es1 @ [Suc a])"
      "length es' \<le> length (es1 @ [Suc a])" "es' \<noteq> []"
      "merge_loop key f p (length es') (stack_cvs key f p B (es1 @ [Suc a]) xs) = Some (stack_cvs key f p B es' xs)"
      using less.hyps [of "es1 @ [Suc a]"] lz len by (auto simp: es)
    have "merge_loop key f p (length es') (stack_cvs key f p B es xs)
        = merge_loop key f p (length es') (stack_cvs key f p B (es1 @ [Suc a]) xs)"
      using es'(3) less.prems(2) merge_top [of xs es1 a p key f] p
      unfolding es merge_loop.simps [of key f p "length es'" "stack_cvs key f p B (es1 @ [a, a]) xs"] Let_def by simp
    with es' show ?thesis by (intro exI [of _ es']) (simp add: es)
  qed
qed

lemma chunks_64: "(T :: nat) \<le> 2 ^ 54 \<Longrightarrow> T < 2 ^ 64"
  by (erule le_less_trans) simp

lemma merge_cv_stack_ok:
  assumes p: "platform_ok p" "length key = 8"
    and h: "h_key h = key" "cs_flags (h_chunk_state h) = f" "cs_platform (h_chunk_state h) = p"
      "initial_chunk_counter h = of_nat B" "cv_stack h = stack_cvs key f p B es xs"
    and es: "lazy es" "length xs = 1024 * chunks_of es" "chunks_of es \<le> 2 ^ 54"
  shows "\<exists>es'. strict es' \<and> chunks_of es' = chunks_of es \<and> (es \<noteq> [] \<longrightarrow> es' \<noteq> []) \<and>
    merge_cv_stack h (of_nat (B + chunks_of es)) = Some (h\<lparr>cv_stack := stack_cvs key f p B es' xs\<rparr>)"
proof -
  obtain es' where es': "strict es'" "chunks_of es' = chunks_of es" "es \<noteq> [] \<longrightarrow> es' \<noteq> []"
    "merge_loop key f p (length es') (stack_cvs key f p B es xs) = Some (stack_cvs key f p B es' xs)"
    using merge_loop_ok [OF p es(1,2), of f] by blast
  have "count_ones (of_nat (chunks_of es)) = length es'"
    using count_ones_chunks [OF es'(1)] chunks_64 [OF es(3)] es'(2) by simp
  then show ?thesis using es' h by (intro exI [of _ es']) (simp add: merge_cv_stack_def)
qed

text \<open>On a strict stack nothing is merged.\<close>

lemma merge_cv_stack_strict:
  assumes h: "initial_chunk_counter h = of_nat B" "length (cv_stack h) = length es"
    and es: "strict es" "chunks_of es \<le> 2 ^ 54"
  shows "merge_cv_stack h (of_nat (B + chunks_of es)) = Some h"
  using h count_ones_chunks [OF es(1) chunks_64 [OF es(2)]]
  by (simp add: merge_cv_stack_def merge_loop.simps)

lemma push_cv_ok:
  assumes p: "platform_ok p" "length key = 8"
    and h: "h_key h = key" "cs_flags (h_chunk_state h) = f" "cs_platform (h_chunk_state h) = p"
      "initial_chunk_counter h = of_nat B" "cv_stack h = stack_cvs key f p B es xs"
    and es: "lazy es" "length xs = 1024 * chunks_of es" "chunks_of es < 2 ^ 54"
  shows "\<exists>es'. strict es' \<and> chunks_of es' = chunks_of es \<and> (es \<noteq> [] \<longrightarrow> es' \<noteq> []) \<and>
    push_cv h cv (of_nat (B + chunks_of es)) = Some (h\<lparr>cv_stack := stack_cvs key f p B es' xs @ [cv]\<rparr>)"
proof -
  obtain es' where es': "strict es'" "chunks_of es' = chunks_of es" "es \<noteq> [] \<longrightarrow> es' \<noteq> []"
    "merge_cv_stack h (of_nat (B + chunks_of es)) = Some (h\<lparr>cv_stack := stack_cvs key f p B es' xs\<rparr>)"
    using merge_cv_stack_ok [OF p h es(1,2)] es(3) by auto
  have "length es' \<le> 54" using strict_length [OF es'(1), of 54] es(3) es'(2) by simp
  then show ?thesis using es' by (intro exI [of _ es']) (simp add: push_cv_def MAX_DEPTH_def)
qed

subsection \<open>What a hasher has absorbed\<close>

text \<open>
  \<open>hasher_at B es xs t\<close>: started at chunk \<open>B\<close>, the stack holds the subtrees of \<open>xs\<close>, the chunk state holds
  \<open>t\<close>.  \<open>absorbed\<close> is the invariant of the public operations.
\<close>

definition hasher_at :: "cv_words \<Rightarrow> u8 \<Rightarrow> platform \<Rightarrow> nat \<Rightarrow> nat list \<Rightarrow> bytes \<Rightarrow> bytes \<Rightarrow> hasher" where
  "hasher_at key f p B es xs t =
     \<lparr>h_key = key, h_chunk_state = state_of key (of_nat (B + chunks_of es)) f p t,
      initial_chunk_counter = of_nat B, cv_stack = stack_cvs key f p B es xs\<rparr>"

definition absorbed_from :: "cv_words \<Rightarrow> u8 \<Rightarrow> platform \<Rightarrow> nat \<Rightarrow> hasher \<Rightarrow> bytes \<Rightarrow> bool" where
  "absorbed_from key f p B h inp \<longleftrightarrow>
     (\<exists>es xs t. inp = xs @ t \<and> length xs = 1024 * chunks_of es \<and> length t \<le> 1024
        \<and> h = hasher_at key f p B es xs t
        \<and> (t \<noteq> [] \<longrightarrow> strict es)
        \<and> (t = [] \<longrightarrow> lazy es \<and> (es = [] \<or> 2 \<le> length es)))"

abbreviation absorbed :: "cv_words \<Rightarrow> u8 \<Rightarrow> platform \<Rightarrow> hasher \<Rightarrow> bytes \<Rightarrow> bool" where
  "absorbed key f p \<equiv> absorbed_from key f p 0"

text \<open>
  A subtree of \<open>2 ^ v\<close> chunks may start at the chunks \<open>B\<close> that are a multiple of its size.
  A hasher that starts at 0 may take \<open>2 ^ 54\<close>.
\<close>

definition base_ok :: "nat \<Rightarrow> nat \<Rightarrow> bool" where
  "base_ok B v \<longleftrightarrow> 2 ^ v dvd B \<and> B + 2 ^ v \<le> 2 ^ 54"

definition fits_from :: "nat \<Rightarrow> nat \<Rightarrow> bool" where
  "fits_from v n \<longleftrightarrow> n \<le> 1024 * 2 ^ v \<and> n < 2 ^ 64"

lemma base_ok_0: "base_ok 0 54"
  by (simp add: base_ok_def)

lemma fits_from_0: "n < 2 ^ 64 \<Longrightarrow> fits_from 54 n"
  by (simp add: fits_from_def)

lemma state_of_fields [simp]:
  "chunk_counter (state_of key c f p xs) = c"
  "cs_flags (state_of key c f p xs) = f"
  "cs_platform (state_of key c f p xs) = p"
  by (simp_all add: state_of_def)

lemma hasher_at_fields [simp]:
  "h_key (hasher_at key f p B es xs t) = key"
  "h_chunk_state (hasher_at key f p B es xs t) = state_of key (of_nat (B + chunks_of es)) f p t"
  "initial_chunk_counter (hasher_at key f p B es xs t) = of_nat B"
  "cv_stack (hasher_at key f p B es xs t) = stack_cvs key f p B es xs"
  by (simp_all add: hasher_at_def)

text \<open>Setting the counter of a fresh chunk state is starting it there.\<close>

lemma state_of_counter: "(state_of key c f p [])\<lparr>chunk_counter := c'\<rparr> = state_of key c' f p []"
  by (simp add: state_of_def)

lemma hasher_eqI:
  "h_key h = key \<Longrightarrow> h_chunk_state h = state_of key (of_nat (B + chunks_of es)) f p t \<Longrightarrow>
   initial_chunk_counter h = of_nat B \<Longrightarrow> cv_stack h = stack_cvs key f p B es xs \<Longrightarrow> h = hasher_at key f p B es xs t"
  by (cases h) (simp add: hasher_at_def)

lemma of_nat_half: "b < 63 \<Longrightarrow> (of_nat (2 ^ Suc b) :: u64) div 2 = of_nat (2 ^ b)"
proof -
  assume b: "b < 63"
  then have "(2 :: nat) ^ Suc b < 2 ^ 64" by (intro power_strict_increasing) auto
  then have "unat (of_nat (2 ^ Suc b) :: u64) = 2 ^ Suc b" 
    by (simp only: unat_of_nat take_bit_nat_eq_self_iff len_of_numeral_defs) simp
  then show ?thesis by (simp add: word_arith_nat_div)
qed

lemma lazy_last: "strict es \<Longrightarrow> 2 ^ b dvd chunks_of es \<Longrightarrow> es = [] \<or> b \<le> last es"
  using strict_dvd [of es b "last es"] by (cases "es = []") auto

lemma push_subtree_ok:
  assumes p: "platform_ok p" "length key = 8"
    and es: "lazy es" "length xs = 1024 * chunks_of es" "2 ^ b dvd chunks_of es"
    and room: "chunks_of es + 2 ^ b \<le> 2 ^ 54" and ys: "length ys = 1024 * 2 ^ b"
  shows "\<exists>es'. push_subtree (hasher_at key f p B es xs []) ys = Some (hasher_at key f p B es' (xs @ ys) [])
    \<and> lazy es' \<and> chunks_of es' = chunks_of es + 2 ^ b \<and> (0 < b \<or> es \<noteq> [] \<longrightarrow> 2 \<le> length es')"
proof -
  let ?h = "hasher_at key f p B es xs []" and ?T = "chunks_of es"
  have T: "?T < 2 ^ 54" using room zero_less_power [of "2 :: nat" b] by linarith
  obtain es1 where es1: "strict es1" "chunks_of es1 = ?T" "es \<noteq> [] \<longrightarrow> es1 \<noteq> []"
    "push_cv ?h cv (of_nat (B + ?T)) = Some (?h\<lparr>cv_stack := stack_cvs key f p B es1 xs @ [cv]\<rparr>)" for cv
  proof -
    obtain es1 where *: "strict es1" "chunks_of es1 = ?T" "es \<noteq> [] \<longrightarrow> es1 \<noteq> []"
      "merge_cv_stack ?h (of_nat (B + ?T)) = Some (?h\<lparr>cv_stack := stack_cvs key f p B es1 xs\<rparr>)"
      using merge_cv_stack_ok [OF p, of ?h f B es xs] es T by auto
    moreover have "length es1 \<le> 54" using strict_length [OF *(1), of 54] T *(2) by simp
    ultimately show ?thesis by (intro that [of es1]) (simp_all add: push_cv_def MAX_DEPTH_def)
  qed
  have lx: "length xs = 1024 * chunks_of es1" using es(2) es1(2) by simp
  have sc: "(of_nat (length ys div CHUNK_LEN) :: u64) = of_nat (2 ^ b)"
    using ys by (simp add: CHUNK_LEN_def)
  have top: "es1 = [] \<or> b \<le> last es1" using lazy_last [OF es1(1), of b] es(3) es1(2) by simp
  show ?thesis
  proof (cases b)
    case 0
    then have y: "length ys = 1024" using ys by simp
    have cs: "cs_update (cs_new key (of_nat (B + ?T)) f p) ys = Some (state_of key (of_nat (B + ?T)) f p ys)"
      using cs_update_ok [OF p, of "[]" ys] y by (simp add: cs_new_state_of)
    have "push_subtree ?h ys = Some (hasher_at key f p B (es1 @ [0]) (xs @ ys) [])"
      unfolding push_subtree_def sc
      using cs y p 0 es1(4)
      by (simp add: CHUNK_LEN_def state_of_counter)
        (rule hasher_eqI, simp_all add: es1(2) state_of_counter stack_cvs_snoc lx tree_output_chunk add.commute)
    moreover have "lazy (es1 @ [0])" using es1(1) by (simp add: lazy_snoc)
    moreover have "0 < b \<or> es \<noteq> [] \<longrightarrow> 2 \<le> length (es1 @ [0])" using es1(3) 0 by (cases es1) auto
    ultimately show ?thesis using es1(2) 0 by (intro exI [of _ "es1 @ [0]"]) simp
  next
    case (Suc c)
    let ?m = "1024 * 2 ^ c"
    define l r where "l = take ?m ys" and "r = drop ?m ys"
    have lr: "ys = l @ r" "length l = ?m" "length r = ?m"
      using ys Suc by (simp_all add: l_def r_def)
    have "(2 :: nat) ^ b \<le> 2 ^ 54" using room by linarith
    then have "b \<le> 54" by (rule power_le_imp_le_exp [rotated]) simp
    then have half: "(of_nat (2 ^ b) :: u64) div 2 = of_nat (2 ^ c)" using of_nat_half [of c] Suc by simp
    have pair: "compress_subtree_to_parent_node p ys key (of_nat (B + ?T)) f
        = Some (tree_cv key f p (of_nat (B + ?T)) l @ tree_cv key f p (of_nat (B + ?T) + of_nat (2 ^ c)) r)"
      unfolding lr(1) by (rule compress_subtree_to_parent_ok [OF p]) (use lr in simp_all)
    have s1: "strict (es1 @ [c])" using es1(1) top Suc by (auto simp: strict_snoc)
    let ?h1 = "?h\<lparr>cv_stack := stack_cvs key f p B es1 xs @ [tree_cv key f p (of_nat (B + ?T)) l]\<rparr>"
    have T1: "chunks_of (es1 @ [c]) = ?T + 2 ^ c" using es1(2) by simp
    have fits: "?T + 2 ^ c < 2 ^ 54"
    proof -
      have "(2 :: nat) ^ b = 2 * 2 ^ c" "(0 :: nat) < 2 ^ c" using Suc by simp_all
      then show ?thesis using room by linarith
    qed
    have merge2: "merge_cv_stack ?h1 (of_nat (B + ?T) + of_nat (2 ^ c)) = Some ?h1"
      using merge_cv_stack_strict [of ?h1 B "es1 @ [c]"] s1 T1 fits by (simp add: add.assoc)
    have "length (es1 @ [c]) \<le> 54" using strict_length [OF s1, of 54] T1 fits by simp
    then have push2: "push_cv ?h1 cv (of_nat (B + ?T) + of_nat (2 ^ c))
        = Some (?h1\<lparr>cv_stack := cv_stack ?h1 @ [cv]\<rparr>)" for cv
      using merge2 by (simp add: push_cv_def MAX_DEPTH_def)
    have stack: "stack_cvs key f p B (es1 @ [c, c]) (xs @ ys)
        = stack_cvs key f p B es1 xs @ [tree_cv key f p (of_nat (B + ?T)) l, tree_cv key f p (of_nat (B + ?T) + of_nat (2 ^ c)) r]"
      unfolding lr(1) using stack_cvs_append [OF lx, of key f p B "[c, c]" "l @ r"] lr(2,3) es1(2) by simp
    have not_small: "\<not> length ys \<le> CHUNK_LEN"
    proof -
      have "(1024 :: nat) * 1 \<le> 1024 * 2 ^ c" by (intro mult_left_mono) auto
      moreover have "length ys = 2 * (1024 * 2 ^ c)" using ys Suc by simp
      ultimately show ?thesis unfolding CHUNK_LEN_def by linarith
    qed
    have "push_subtree ?h ys = Some (hasher_at key f p B (es1 @ [c, c]) (xs @ ys) [])"
      unfolding push_subtree_def sc Let_def half
      using not_small pair es1(4) push2
      by (simp add: subslice_def)
        (rule hasher_eqI, simp_all add: state_of_counter stack es1(2) Suc add.assoc)
    moreover have "lazy ((es1 @ [c]) @ [c])" unfolding lazy_snoc using s1 by simp
    ultimately show ?thesis using es1(2) Suc by (intro exI [of _ "es1 @ [c, c]"]) simp
  qed
qed

lemma mask_and:
  "m < 2 ^ 64 \<Longrightarrow> ((of_nat (2 ^ k - 1) :: u64) AND of_nat m = 0) \<longleftrightarrow> 2 ^ k dvd m"
proof -
  assume m: "m < 2 ^ 64"
  have "(of_nat (2 ^ k - 1) :: u64) AND of_nat m = take_bit k (of_nat m)"
    by (simp add: take_bit_eq_mask mask_eq_exp_minus_1 and.commute)
  also have "\<dots> = (of_nat (take_bit k m) :: u64)" by (simp add: take_bit_of_nat)
  finally have e: "(of_nat (2 ^ k - 1) :: u64) AND of_nat m = of_nat (m mod 2 ^ k)"
    by (simp only: take_bit_eq_mod)
  have "m mod 2 ^ k < 2 ^ 64" using m by (meson mod_less_eq_dividend le_less_trans)
  then have u: "unat (of_nat (m mod 2 ^ k) :: u64) = m mod 2 ^ k"
    by (simp only: unat_of_nat take_bit_nat_eq_self_iff) simp
  have "((of_nat (m mod 2 ^ k) :: u64) = 0) = (m mod 2 ^ k = 0)"
    using unat_eq_zero [of "of_nat (m mod 2 ^ k) :: u64"] by (simp only: u)
  then show ?thesis unfolding e dvd_eq_mod_eq_0 .
qed

lemma shrink_ok:
  assumes m: "m < 2 ^ 64" and d: "2 ^ j dvd m"
  shows "j \<le> k \<Longrightarrow> \<exists>i. j \<le> i \<and> i \<le> k \<and> shrink (2 ^ k) (of_nat m) = 2 ^ i \<and> 2 ^ i dvd m"
proof (induction k)
  case 0
  then show ?case using d by (subst shrink.simps) simp
next
  case (Suc k)
  show ?case
  proof (cases "2 ^ Suc k dvd m")
    case True
    then have "shrink (2 ^ Suc k) (of_nat m) = 2 ^ Suc k"
      by (subst shrink.simps) (simp only: mask_and [OF m], simp)
    then show ?thesis using True Suc.prems by blast
  next
    case False
    then have "j \<le> k" using Suc.prems d by (cases "j = Suc k") auto
    moreover have "shrink (2 ^ Suc k) (of_nat m) = shrink (2 ^ k) (of_nat m)"
      using False by (subst shrink.simps) (simp only: mask_and [OF m], simp)
    ultimately show ?thesis using Suc.IH by (metis le_SucI)
  qed
qed

lemma largest_power_spec:
  assumes "1024 < n"
  obtains k where "largest_power_of_two_leq n = 2 ^ k" "2 ^ k \<le> n" "10 \<le> k"
proof -
  define m where "m = n div 2 + 1"
  have m: "2 \<le> m" "2 * m \<le> n + 2" "n < 2 * m" using assms by (simp_all add: m_def)
  obtain k where k: "next_power_of_two m = 2 ^ k" "m \<le> 2 ^ k" "2 ^ k < 2 * m"
    using next_power_of_two_spec [of m] m(1) by blast
  have "10 \<le> k"
  proof (rule ccontr)
    assume "\<not> 10 \<le> k"
    then have "(2 :: nat) ^ k \<le> 2 ^ 9" by (intro power_increasing) auto
    with k(2) m(3) assms show False by simp
  qed
  then obtain c where c: "(2 :: nat) ^ k = 2 * c" by (cases k) auto
  have "c < m" using k(3) unfolding c by simp
  then have "2 ^ k \<le> n" using m(2) unfolding c by linarith
  then show ?thesis using that [of k] k(1) \<open>10 \<le> k\<close> by (simp add: largest_power_of_two_leq_def m_def)
qed

text \<open>The length of the next subtree: whole chunks, a power of two, aligned with what precedes.\<close>

lemma subtree_len_ok:
  assumes n: "1024 < n" and T: "T < 2 ^ 54"
  obtains b where "shrink (largest_power_of_two_leq n) (of_nat T * of_nat CHUNK_LEN) = 1024 * 2 ^ b"
    "1024 * 2 ^ b \<le> n" "2 ^ b dvd T"
proof -
  obtain k where k: "largest_power_of_two_leq n = 2 ^ k" "2 ^ k \<le> n" "10 \<le> k"
    using n by (rule largest_power_spec)
  have m: "T * 1024 < 2 ^ 64" using T by simp
  have c: "of_nat T * of_nat CHUNK_LEN = (of_nat (T * 1024) :: u64)" by (simp add: CHUNK_LEN_def)
  have "(2 :: nat) ^ 10 dvd T * 1024" by simp
  then obtain i where i: "10 \<le> i" "i \<le> k" "shrink (2 ^ k) (of_nat (T * 1024)) = 2 ^ i" "2 ^ i dvd T * 1024"
    using shrink_ok [OF m _ k(3)] by blast
  obtain b where b: "i = 10 + b" using i(1) le_Suc_ex by blast
  have e: "(2 :: nat) ^ i = 1024 * 2 ^ b" by (simp add: b power_add)
  have "(2 :: nat) ^ i \<le> 2 ^ k" using i(2) by (intro power_increasing) auto
  then have "1024 * 2 ^ b \<le> n" using k(2) e by linarith
  moreover have "2 ^ b dvd T" using i(4) unfolding e by (simp add: mult.commute)
  ultimately show ?thesis using that [of b] i(3) unfolding k(1) c e by blast
qed

lemma update_loop_ok:
  assumes p: "platform_ok p" "length key = 8" and B: "base_ok B v"
  shows "lazy es \<Longrightarrow> length xs = 1024 * chunks_of es \<Longrightarrow> fits_from v (length xs + length inp) \<Longrightarrow>
    \<exists>es' xs' rest. update_loop (hasher_at key f p B es xs []) inp = Some (hasher_at key f p B es' xs' [], rest)
      \<and> xs @ inp = xs' @ rest \<and> length xs' = 1024 * chunks_of es' \<and> length rest \<le> 1024 \<and> lazy es'
      \<and> (rest = [] \<longrightarrow> inp = [] \<and> es' = es \<or> 2 \<le> length es')"
proof (induction "length inp" arbitrary: es xs inp rule: less_induct)
  case less
  show ?case
  proof (cases "1024 < length inp")
    case True
    let ?T = "chunks_of es"
    have "1024 * (?T + 1) \<le> 1024 * 2 ^ v" using less.prems(2,3) True by (simp add: fits_from_def)
    then have "?T + 1 \<le> 2 ^ v" by simp
    then have T: "B + ?T < 2 ^ 54" using B by (simp add: base_ok_def)
    obtain b where b: "shrink (largest_power_of_two_leq (length inp)) (of_nat (B + ?T) * of_nat CHUNK_LEN) = 1024 * 2 ^ b"
      "1024 * 2 ^ b \<le> length inp" "2 ^ b dvd B + ?T"
      using True T by (rule subtree_len_ok)
    let ?n = "1024 * 2 ^ b"
    have "1024 * (?T + 2 ^ b) \<le> 1024 * 2 ^ v" using less.prems(2,3) b(2) by (simp add: fits_from_def)
    then have fit: "?T + 2 ^ b \<le> 2 ^ v" by (simp only: mult_le_cancel1)
    then have "(2 :: nat) ^ b \<le> 2 ^ v" by linarith
    then have "b \<le> v" by (rule power_le_imp_le_exp [rotated]) simp
    then have "2 ^ b dvd B" using B by (meson base_ok_def dvd_trans le_imp_power_dvd)
    then have dvd: "2 ^ b dvd ?T" using b(3) by (simp add: dvd_add_right_iff)
    have room: "?T + 2 ^ b \<le> 2 ^ 54"
      using fit B by (simp add: base_ok_def)
    obtain es' where es': "push_subtree (hasher_at key f p B es xs []) (take ?n inp)
        = Some (hasher_at key f p B es' (xs @ take ?n inp) [])"
      "lazy es'" "chunks_of es' = ?T + 2 ^ b" "0 < b \<or> es \<noteq> [] \<longrightarrow> 2 \<le> length es'"
      using push_subtree_ok [OF p less.prems(1,2) dvd room, of "take ?n inp" f] b(2) by auto
    have step: "update_loop (hasher_at key f p B es xs []) inp
        = update_loop (hasher_at key f p B es' (xs @ take ?n inp) []) (drop ?n inp)"
      using True es'(1) b(1) by (subst update_loop.simps) (simp add: CHUNK_LEN_def Let_def)
    have "length (drop ?n inp) < length inp"
      unfolding length_drop by (rule diff_less) (use True in auto)
    moreover have "length (xs @ take ?n inp) = 1024 * chunks_of es'" using less.prems(2) es'(3) b(2) by simp
    moreover have "fits_from v (length (xs @ take ?n inp) + length (drop ?n inp))" using less.prems(3) b(2) by simp
    ultimately obtain es2 xs2 rest where r:
      "update_loop (hasher_at key f p B es' (xs @ take ?n inp) []) (drop ?n inp) = Some (hasher_at key f p B es2 xs2 [], rest)"
      "(xs @ take ?n inp) @ drop ?n inp = xs2 @ rest" "length xs2 = 1024 * chunks_of es2" "length rest \<le> 1024" "lazy es2"
      "rest = [] \<longrightarrow> drop ?n inp = [] \<and> es2 = es' \<or> 2 \<le> length es2"
      using less.hyps [OF _ es'(2)] by blast
    have "2 \<le> length es2" if "rest = []"
    proof -
      have "2 \<le> length es'" if "drop ?n inp = []"
      proof -
        have "length inp = ?n" using that b(2) by simp
        then have "0 < b" using True by (cases b) auto
        then show ?thesis using es'(4) by blast
      qed
      then show ?thesis using r(6) that by blast
    qed
    then show ?thesis using step r by (intro exI [of _ es2] exI [of _ xs2] exI [of _ rest]) simp
  next
    case False
    then show ?thesis
      using less.prems by (subst update_loop.simps) (auto simp: CHUNK_LEN_def)
  qed
qed

lemma h_count_at:
  "length t \<le> 1024 \<Longrightarrow> length xs = 1024 * chunks_of es \<Longrightarrow>
   h_count (hasher_at key f p B es xs t) = of_nat (length xs + length t)"
  by (simp add: h_count_def CHUNK_LEN_def)

lemma trailing_zeros_bounds:
  assumes "2 ^ v dvd B" "0 < B" "B < 2 ^ 54"
  shows "v \<le> trailing_zeros (of_nat B)" and "trailing_zeros (of_nat B) < 54"
proof -
  let ?P = "\<lambda>i. \<not> bit (of_nat B :: u64) i"
  let ?k = "length (takeWhile ?P [0..<64])"
  have "\<not> (\<forall>i < 54. \<not> bit B i)"
  proof
    assume "\<forall>i < 54. \<not> bit B i"
    then have "take_bit 54 B = 0" by (intro bit_eqI) (simp add: bit_take_bit_iff)
    moreover have "take_bit 54 B = B" using assms(3) by (simp add: take_bit_nat_eq_self)
    ultimately show False using assms(2) by simp
  qed
  then obtain i where i: "i < 54" "bit B i" by blast
  have below: "?P j" if "j < ?k" for j
    using that nth_mem [of j "takeWhile ?P [0..<64]"] takeWhile_nth [of j ?P "[0..<64]"]
      length_takeWhile_le [of ?P "[0..<64]"] by (auto dest!: set_takeWhileD)
  have "\<not> i < ?k" using below [of i] i by (auto simp: bit_of_nat_iff)
  then show k: "trailing_zeros (of_nat B) < 54" using i by (simp add: trailing_zeros_def)
  then have "bit B ?k"
    using nth_length_takeWhile [of ?P "[0..<64]"] by (simp add: trailing_zeros_def bit_of_nat_iff)
  moreover obtain q where "B = push_bit v q"
    using assms(1) by (auto simp: push_bit_eq_mult mult.commute elim!: dvdE)
  ultimately have "v \<le> ?k" by (simp add: bit_push_bit_iff)
  then show "v \<le> trailing_zeros (of_nat B)" by (simp add: trailing_zeros_def)
qed

lemma of_nat_le_u64: "m \<le> n \<Longrightarrow> n < 2 ^ 64 \<Longrightarrow> (of_nat m :: u64) \<le> of_nat n"
  by (simp add: word_le_nat_alt unat_of_nat take_bit_nat_eq_self)

lemma max_subtree_len_eq:
  assumes B: "0 < B" "B < 2 ^ 54"
  shows "max_subtree_len (of_nat B * of_nat CHUNK_LEN) = Some (Some (of_nat (1024 * 2 ^ trailing_zeros (of_nat B))))"
    and "(1024 :: nat) * 2 ^ trailing_zeros (of_nat B) < 2 ^ 64"
proof -
  let ?k = "trailing_zeros (of_nat B)"
  have off: "(of_nat B * of_nat CHUNK_LEN :: u64) = of_nat (B * 1024)" by (simp add: CHUNK_LEN_def)
  have u: "unat (of_nat (B * 1024) :: u64) = B * 1024"
    using B(2) by (simp only: unat_of_nat take_bit_nat_eq_self_iff) simp
  have ne: "(of_nat (B * 1024) :: u64) \<noteq> 0" using u B(1) by (metis mult_eq_0_iff neq0_conv unat_0 zero_neq_numeral)
  have div: "(of_nat (B * 1024) :: u64) div of_nat CHUNK_LEN = of_nat B"
    by (rule word_unat_eq_iff [THEN iffD2]) (use u B(2) in \<open>simp add: unat_div CHUNK_LEN_def unat_of_nat take_bit_nat_eq_self\<close>)
  have mx: "push_bit ?k 1 * of_nat CHUNK_LEN = (of_nat (1024 * 2 ^ ?k) :: u64)"
    by (simp add: push_bit_eq_mult CHUNK_LEN_def)
  show "max_subtree_len (of_nat B * of_nat CHUNK_LEN) = Some (Some (of_nat (1024 * 2 ^ ?k)))"
    using ne unfolding max_subtree_len_def off div Let_def mx by (simp only: u) (simp add: CHUNK_LEN_def)
  have "(2 :: nat) ^ ?k < 2 ^ 54" using trailing_zeros_bounds(2) [of 0 B] B by (intro power_strict_increasing) auto
  then show "1024 * 2 ^ ?k < (2 :: nat) ^ 64" by simp
qed

text \<open>The limit of \<open>max_subtree_len\<close> is never below what \<open>fits_from\<close> allows.\<close>

lemma max_subtree_len_ok:
  assumes B: "base_ok B v" and n: "fits_from v (m + n)"
  shows "\<exists>limit. max_subtree_len (of_nat B * of_nat CHUNK_LEN) = Some limit
    \<and> (case limit of None \<Rightarrow> True | Some mx \<Rightarrow> of_nat n \<le> mx - of_nat m)"
proof (cases "B = 0")
  case True
  then show ?thesis by (simp add: max_subtree_len_def)
next
  case False
  have pos: "(0 :: nat) < 2 ^ v" by simp
  have B54: "0 < B" "B < 2 ^ 54" "2 ^ v dvd B" using B False pos unfolding base_ok_def by linarith+
  let ?k = "trailing_zeros (of_nat B)"
  note mx = max_subtree_len_eq [OF B54(1,2)]
  have "(2 :: nat) ^ v \<le> 2 ^ ?k"
    using trailing_zeros_bounds(1) [OF B54(3,1,2)] by (intro power_increasing) auto
  then have le: "m + n \<le> 1024 * 2 ^ ?k" using n unfolding fits_from_def by linarith
  then have "(of_nat n :: u64) \<le> of_nat (1024 * 2 ^ ?k - m)" using mx(2) by (intro of_nat_le_u64) simp_all
  with le mx(1) show ?thesis by (simp add: of_nat_diff)
qed

lemma h_update_from_ok:
  assumes p: "platform_ok p" "length key = 8" and B: "base_ok B v"
    and h: "absorbed_from key f p B h done" and len: "fits_from v (length done + length inp)"
  shows "\<exists>h'. h_update h inp = Some h' \<and> absorbed_from key f p B h' (done @ inp)"
proof -
  obtain es xs t where d: "done = xs @ t" "length xs = 1024 * chunks_of es" "length t \<le> 1024"
    and hh: "h = hasher_at key f p B es xs t"
    and full: "t \<noteq> [] \<longrightarrow> strict es" and part: "t = [] \<longrightarrow> lazy es \<and> (es = [] \<or> 2 \<le> length es)"
    using h unfolding absorbed_from_def by blast
  have cnt: "cs_count (h_chunk_state h) = length t" using d(3) by (simp add: hh)
  have count: "h_count h = of_nat (length done)"
    using h_count_at [OF d(3,2), of key f p B] d(1) by (simp only: hh length_append)
  obtain limit where lim: "max_subtree_len (initial_chunk_counter h * of_nat CHUNK_LEN) = Some limit"
    "(case limit of None \<Rightarrow> Some () | Some mx \<Rightarrow> assert_that (of_nat (length inp) \<le> mx - h_count h)) = Some ()"
    using max_subtree_len_ok [OF B len] unfolding count by (auto simp: hh split: option.splits)
  have loop: "\<exists>h'. (case update_loop (hasher_at key f p B es' xs' []) rest of None \<Rightarrow> None
        | Some (h, inp) \<Rightarrow> if inp \<noteq> [] then do {
              cs \<leftarrow> cs_update (h_chunk_state h) inp;
              let h = h\<lparr>h_chunk_state := cs\<rparr>;
              merge_cv_stack h (chunk_counter cs)
            } else Some h) = Some h' \<and> absorbed_from key f p B h' (xs' @ rest)"
    if es': "lazy es'" "length xs' = 1024 * chunks_of es'" "fits_from v (length xs' + length rest)"
      "rest = [] \<longrightarrow> es' = [] \<or> 2 \<le> length es'" for es' xs' rest
  proof -
    obtain es2 xs2 r where l: "update_loop (hasher_at key f p B es' xs' []) rest = Some (hasher_at key f p B es2 xs2 [], r)"
      "xs' @ rest = xs2 @ r" "length xs2 = 1024 * chunks_of es2" "length r \<le> 1024" "lazy es2"
      "r = [] \<longrightarrow> rest = [] \<and> es2 = es' \<or> 2 \<le> length es2"
      using update_loop_ok [OF p B es'(1,2,3), of f] by blast
    show ?thesis
    proof (cases "r = []")
      case True
      have "absorbed_from key f p B (hasher_at key f p B es2 xs2 []) (xs' @ rest)"
        unfolding absorbed_from_def using l True es'(4)
        by (intro exI [of _ es2] exI [of _ xs2] exI [of _ "[]"]) auto
      then show ?thesis using l(1) True by simp
    next
      case False
      let ?c = "of_nat (B + chunks_of es2) :: u64"
      have cs: "cs_update (state_of key ?c f p []) r = Some (state_of key ?c f p r)"
        using cs_update_ok [OF p, of "[]" r ?c f] l(4) by simp
      have "length xs2 + length r = length xs' + length rest" using l(2) by (metis length_append)
      then have "chunks_of es2 \<le> 2 ^ 54" using es'(3) l(3) by (simp add: fits_from_def)
      then obtain es3 where m: "strict es3" "chunks_of es3 = chunks_of es2"
        "merge_cv_stack ((hasher_at key f p B es2 xs2 [])\<lparr>h_chunk_state := state_of key ?c f p r\<rparr>) ?c
          = Some ((hasher_at key f p B es2 xs2 [])\<lparr>h_chunk_state := state_of key ?c f p r,
              cv_stack := stack_cvs key f p B es3 xs2\<rparr>)"
        using merge_cv_stack_ok [OF p, of "(hasher_at key f p B es2 xs2 [])\<lparr>h_chunk_state := state_of key ?c f p r\<rparr>" f B es2 xs2]
          l(3,5) by auto
      have "(hasher_at key f p B es2 xs2 [])\<lparr>h_chunk_state := state_of key ?c f p r,
          cv_stack := stack_cvs key f p B es3 xs2\<rparr> = hasher_at key f p B es3 xs2 r"
        by (rule hasher_eqI) (simp_all add: m(2))
      moreover have "absorbed_from key f p B (hasher_at key f p B es3 xs2 r) (xs' @ rest)"
        unfolding absorbed_from_def using l(2,3,4) m(1,2) False
        by (intro exI [of _ es3] exI [of _ xs2] exI [of _ r]) simp
      ultimately show ?thesis using l(1) False cs m(3) by simp
    qed
  qed
  show ?thesis
  proof (cases "t = []")
    case True
    have fin: "finish_chunk h inp = Some (h, inp, False)" using cnt True by (simp add: finish_chunk_def)
    have "lazy es" "inp = [] \<longrightarrow> es = [] \<or> 2 \<le> length es" using part True by auto
    then have "\<exists>h'. (case update_loop (hasher_at key f p B es xs []) inp of None \<Rightarrow> None
        | Some (h, inp) \<Rightarrow> if inp \<noteq> [] then do {
              cs \<leftarrow> cs_update (h_chunk_state h) inp;
              let h = h\<lparr>h_chunk_state := cs\<rparr>;
              merge_cv_stack h (chunk_counter cs)
            } else Some h) = Some h' \<and> absorbed_from key f p B h' (xs @ inp)"
      using loop [of es xs inp] d len True by simp
    then show ?thesis
      using lim fin True d(1) hh by (simp add: h_update_def Let_def bind_split split: option.splits)
  next
    case False
    let ?c = "of_nat (B + chunks_of es) :: u64"
    let ?n = "min (1024 - length t) (length inp)"
    have strict: "strict es" using full False by blast
    have cs: "cs_update (state_of key ?c f p t) (take ?n inp) = Some (state_of key ?c f p (t @ take ?n inp))"
      by (rule cs_update_ok [OF p]) (use d(3) in auto)
    show ?thesis
    proof (cases "drop ?n inp = []")
      case True
      then have all: "take ?n inp = inp" by auto
      have "h\<lparr>h_chunk_state := state_of key ?c f p (t @ inp)\<rparr> = hasher_at key f p B es xs (t @ inp)"
        by (rule hasher_eqI) (simp_all add: hh)
      then have fin: "finish_chunk h inp = Some (hasher_at key f p B es xs (t @ inp), [], True)"
        using cnt False True cs all by (simp add: finish_chunk_def hh CHUNK_LEN_def)
      have "length (t @ inp) \<le> 1024" using True d(3) by auto
      then have "absorbed_from key f p B (hasher_at key f p B es xs (t @ inp)) (done @ inp)"
        unfolding absorbed_from_def using d strict False
        by (intro exI [of _ es] exI [of _ xs] exI [of _ "t @ inp"]) simp
      then show ?thesis using lim fin by (simp add: h_update_def)
    next
      case more: False
      let ?t = "t @ take ?n inp"
      have n: "?n = 1024 - length t" "length t + length (take ?n inp) = 1024" using more d(3) by auto
      have lt: "length ?t = 1024 * 2 ^ 0" using n by simp
      have T: "chunks_of es < 2 ^ 54" using len d more n by (simp add: fits_from_def)
      let ?h = "h\<lparr>h_chunk_state := state_of key ?c f p ?t\<rparr>"
      obtain es1 where e: "strict es1" "chunks_of es1 = chunks_of es" "es \<noteq> [] \<longrightarrow> es1 \<noteq> []"
        "push_cv ?h (tree_cv key f p ?c ?t) ?c
          = Some (?h\<lparr>cv_stack := stack_cvs key f p B es1 xs @ [tree_cv key f p ?c ?t]\<rparr>)"
        using push_cv_ok [OF p, of ?h f B es xs "tree_cv key f p ?c ?t"] d(2) T strict_lazy [OF strict] by (auto simp: hh)
      have out: "chaining_value (cs_output (state_of key ?c f p ?t)) = tree_cv key f p ?c ?t"
        using lt p by (simp add: tree_output_chunk)
      have "?h\<lparr>cv_stack := stack_cvs key f p B es1 xs @ [tree_cv key f p ?c ?t],
          h_chunk_state := state_of key (?c + 1) f p []\<rparr> = hasher_at key f p B (es1 @ [0]) (xs @ ?t) []"
        by (rule hasher_eqI) (use stack_cvs_snoc [of xs es1 ?t 0 key f p B] d(2) lt e(2) in \<open>simp_all add: hh add.commute\<close>)
      then have fin: "finish_chunk h inp = Some (hasher_at key f p B (es1 @ [0]) (xs @ ?t) [], drop ?n inp, False)"
        using cnt False more cs e(4) out by (simp add: finish_chunk_def hh CHUNK_LEN_def cs_new_state_of Let_def)
      have "lazy (es1 @ [0])" using e(1) by (simp add: lazy_snoc)
      moreover have "length (xs @ ?t) = 1024 * chunks_of (es1 @ [0])" using d(2) lt e(2) by simp
      moreover have "fits_from v (length (xs @ ?t) + length (drop ?n inp))" using len d(1) by (simp add: add.assoc)
      ultimately have "\<exists>h'. (case update_loop (hasher_at key f p B (es1 @ [0]) (xs @ ?t) []) (drop ?n inp) of None \<Rightarrow> None
        | Some (h, inp) \<Rightarrow> if inp \<noteq> [] then do {
              cs \<leftarrow> cs_update (h_chunk_state h) inp;
              let h = h\<lparr>h_chunk_state := cs\<rparr>;
              merge_cv_stack h (chunk_counter cs)
            } else Some h) = Some h' \<and> absorbed_from key f p B h' ((xs @ ?t) @ drop ?n inp)"
        using more by (intro loop) auto
      then show ?thesis
        using lim fin d(1) by (simp add: h_update_def Let_def bind_split split: option.splits)
    qed
  qed
qed

lemma h_update_ok:
  assumes "platform_ok p" "length key = 8" "absorbed key f p h done" "length done + length inp < 2 ^ 64"
  shows "\<exists>h'. h_update h inp = Some h' \<and> absorbed key f p h' (done @ inp)"
  using h_update_from_ok [OF assms(1,2) base_ok_0 assms(3) fits_from_0 [OF assms(4)]] .

subsection \<open>Finalisation computes the root\<close>

fun room :: "nat list \<Rightarrow> nat \<Rightarrow> bool" where
  "room [] u \<longleftrightarrow> True"
| "room (e # es) u \<longleftrightarrow> 1024 * chunks_of es + u \<le> 1024 * 2 ^ e \<and> room es u"

lemma room_strict: "strict es \<Longrightarrow> u \<le> 1024 \<Longrightarrow> room es u"
proof (induction es)
  case Nil
  then show ?case by simp
next
  case (Cons e es)
  have "chunks_of es + 1 \<le> 2 ^ e" using strict_above [OF Cons.prems(1)] by simp
  then have "1024 * chunks_of es + u \<le> 1024 * 2 ^ e" using Cons.prems(2) by linarith
  moreover have "strict es" using Cons.prems(1) by (simp add: strict_def)
  ultimately show ?case using Cons by simp
qed

lemma room_lazy: "strict (es @ [b]) \<Longrightarrow> u \<le> 1024 * (2 * 2 ^ b) \<Longrightarrow> room es u"
proof (induction es)
  case Nil
  then show ?case by simp
next
  case (Cons e es)
  have "chunks_of es + 2 * 2 ^ b \<le> 2 ^ e" using strict_room [of e es b] Cons.prems(1) by simp
  then have "1024 * chunks_of es + u \<le> 1024 * 2 ^ e" using Cons.prems(2) by linarith
  moreover have "strict (es @ [b])" using Cons.prems(1) by (simp add: strict_def)
  ultimately show ?case using Cons by simp
qed

lemma merge_down_Cons:
  "merge_down key f p (cv # stack) ou = parent_node_output cv (chaining_value (merge_down key f p stack ou)) key f p"
  by (simp add: merge_down_def)

lemma merge_down_Nil [simp]: "merge_down key f p [] ou = ou"
  by (simp add: merge_down_def)

lemma merge_down_ok:
  assumes p: "platform_ok p" "length key = 8"
  shows "room es (length u) \<Longrightarrow> length xs = 1024 * chunks_of es \<Longrightarrow> 0 < length u \<Longrightarrow>
    merge_down key f p (stack_cvs key f p c es xs) (tree_output key f p (of_nat (c + chunks_of es)) u)
      = tree_output key f p (of_nat c) (xs @ u)"
proof (induction es arbitrary: c xs)
  case Nil
  then show ?case by simp
next
  case (Cons e es)
  let ?s = "take (1024 * 2 ^ e) xs" and ?r = "drop (1024 * 2 ^ e) xs"
  have len: "length ?s = 1024 * 2 ^ e" "length ?r = 1024 * chunks_of es" using Cons.prems by simp_all
  have IH: "merge_down key f p (stack_cvs key f p (c + 2 ^ e) es ?r)
      (tree_output key f p (of_nat (c + chunks_of (e # es))) u) = tree_output key f p (of_nat (c + 2 ^ e)) (?r @ u)"
    using Cons.IH [of ?r "c + 2 ^ e"] Cons.prems len by (simp add: add.assoc)
  have "tree_output key f p (of_nat c) (?s @ (?r @ u))
      = parent_node_output (tree_cv key f p (of_nat c) ?s) (tree_cv key f p (of_nat c + of_nat (2 ^ e)) (?r @ u)) key f p"
    by (rule tree_output_split [where a = e]) (use len Cons.prems in auto)
  moreover have "?s @ (?r @ u) = xs @ u" by simp
  ultimately show ?case using IH p by (simp add: merge_down_Cons)
qed

lemma final_output_from_ok:
  assumes p: "platform_ok p" "length key = 8" and h: "absorbed_from key f p B h inp"
  shows "final_output h = Some (tree_output key f p (of_nat B) inp)"
proof -
  obtain es xs t where d: "inp = xs @ t" "length xs = 1024 * chunks_of es" "length t \<le> 1024"
    and hh: "h = hasher_at key f p B es xs t"
    and full: "t \<noteq> [] \<longrightarrow> strict es" and part: "t = [] \<longrightarrow> lazy es \<and> (es = [] \<or> 2 \<le> length es)"
    using h unfolding absorbed_from_def by blast
  have cnt: "cs_count (state_of key c f p t) = length t" for c using d(3) by simp
  have nil: "(stack_cvs key f p B es xs = []) = (es = [])" by (metis length_0_conv length_stack_cvs)
  consider "es = []" | "es \<noteq> []" "t \<noteq> []" | "es \<noteq> []" "t = []" by blast
  then show ?thesis
  proof cases
    case 1
    then show ?thesis using d by (simp add: final_output_def hh tree_output_chunk)
  next
    case 2
    have "merge_down key f p (stack_cvs key f p B es xs) (tree_output key f p (of_nat (B + chunks_of es)) t)
        = tree_output key f p (of_nat B) (xs @ t)"
      by (rule merge_down_ok [OF p]) (use 2 full d room_strict in auto)
    then show ?thesis
      using 2 d cnt by (simp add: final_output_def hh nil tree_output_chunk)
  next
    case 3
    have l: "lazy es" "2 \<le> length es" using part 3 by auto
    then obtain es1 a where e1: "es = es1 @ [a]" by (cases es rule: rev_cases) auto
    with l(2) have "es1 \<noteq> []" by auto
    with e1 obtain es0 b where "es = (es0 @ [b]) @ [a]" by (metis append_butlast_last_id)
    then have es: "es = (es0 @ [b]) @ [a]" and s: "strict (es0 @ [b])" "a \<le> b"
      using l(1) lazy_snoc [of "es0 @ [b]" a] by simp_all
    let ?n = "1024 * chunks_of es0" and ?m = "1024 * 2 ^ b"
    define u v w where "u = take ?n xs" and "v = take ?m (drop ?n xs)" and "w = drop ?m (drop ?n xs)"
    have xs: "xs = u @ (v @ w)" unfolding u_def v_def w_def by (simp only: append_take_drop_id)
    have lens: "length u = ?n" "length v = ?m" "length w = 1024 * 2 ^ a"
      using d(2) by (simp_all add: u_def v_def w_def es)
    have ab: "(2 :: nat) ^ a \<le> 2 ^ b" using s(2) by (intro power_increasing) auto
    have stack: "stack_cvs key f p B es xs = stack_cvs key f p B es0 u
        @ [tree_cv key f p (of_nat (B + chunks_of es0)) v, tree_cv key f p (of_nat (B + chunks_of es0) + of_nat (2 ^ b)) w]"
      unfolding xs es append_assoc using stack_cvs_append [OF lens(1), of key f p B "[b] @ [a]" "v @ w"] lens by simp
    have top: "parent_node_output (tree_cv key f p (of_nat (B + chunks_of es0)) v)
        (tree_cv key f p (of_nat (B + chunks_of es0) + of_nat (2 ^ b)) w) key f p
        = tree_output key f p (of_nat (B + chunks_of es0)) (v @ w)"
      using tree_output_split [of v b w key f p] lens ab by simp
    have "merge_down key f p (stack_cvs key f p B es0 u) (tree_output key f p (of_nat (B + chunks_of es0)) (v @ w))
        = tree_output key f p (of_nat B) (u @ (v @ w))"
      by (rule merge_down_ok [OF p]) (use lens ab room_lazy [OF s(1), of "length v + length w"] in auto)
    moreover have "0 < length es" using 3 by simp
    moreover have "length es - 2 = length es0" "length es - 1 = Suc (length es0)" "\<not> length es < 2"
      using es by simp_all
    ultimately show ?thesis
      using 3 cnt top unfolding final_output_def hh Let_def hasher_at_fields state_of_fields nil length_stack_cvs
      unfolding stack by (simp add: nth_append d(1) xs)
  qed
qed

lemma final_output_ok:
  assumes "platform_ok p" "length key = 8" "absorbed key f p h inp"
  shows "final_output h = Some (tree_output key f p 0 inp)"
  using final_output_from_ok [OF assms] by simp

lemma set_input_offset_ok:
  assumes "base_ok B v"
  shows "set_input_offset (new_internal p key f) (of_nat (1024 * B)) = Some (hasher_at key f p B [] [] [])"
proof -
  have pos: "(0 :: nat) < 2 ^ v" by simp
  have "B < 2 ^ 54" using assms pos unfolding base_ok_def by linarith
  then have u: "unat (of_nat (1024 * B) :: u64) = 1024 * B"
    by (simp only: unat_of_nat take_bit_nat_eq_self_iff) simp
  have div: "(of_nat (1024 * B) :: u64) div of_nat CHUNK_LEN = of_nat B"
    by (rule word_unat_eq_iff [THEN iffD2])
      (use u \<open>B < 2 ^ 54\<close> in \<open>simp add: unat_div CHUNK_LEN_def unat_of_nat take_bit_nat_eq_self\<close>)
  have "h_count (new_internal p key f) = 0" by (simp add: h_count_def new_internal_def cs_new_state_of)
  then show ?thesis
    unfolding set_input_offset_def div u
    by (simp add: CHUNK_LEN_def) (simp add: Let_def hasher_at_def new_internal_def cs_new_state_of state_of_counter)
qed

lemma hasher_at_absorbed: "absorbed_from key f p B (hasher_at key f p B [] [] []) []"
  unfolding absorbed_from_def by (intro exI [of _ "[]"]) (simp add: strict_lazy)

lemma absorbed_count: "absorbed_from key f p B h inp \<Longrightarrow> h_count h = of_nat (length inp)"
  using h_count_at by (force simp: absorbed_from_def)

lemma new_internal_absorbed: "absorbed key f p (new_internal p key f) []"
  unfolding absorbed_from_def
  by (intro exI [of _ "[]"]) (simp add: new_internal_def hasher_at_def cs_new_state_of strict_lazy)

lemma reset_absorbed: "absorbed key f p h inp \<Longrightarrow> h_reset h = new_internal p key f"
  by (auto simp: absorbed_from_def h_reset_def hasher_at_def new_internal_def)

lemma absorbed_offset: "absorbed key f p h inp \<Longrightarrow> initial_chunk_counter h = 0"
  by (auto simp: absorbed_from_def)

text \<open>Several updates in a row.\<close>

fun h_updates :: "hasher \<Rightarrow> bytes list \<Rightarrow> hasher option" where
  "h_updates h [] = Some h"
| "h_updates h (x # xs) = h_update h x \<bind> (\<lambda>h. h_updates h xs)"

lemma h_updates_from_ok:
  assumes p: "platform_ok p" "length key = 8" and B: "base_ok B v"
  shows "absorbed_from key f p B h done \<Longrightarrow> fits_from v (length done + length (concat parts)) \<Longrightarrow>
    \<exists>h'. h_updates h parts = Some h' \<and> absorbed_from key f p B h' (done @ concat parts)"
proof (induction parts arbitrary: h "done")
  case Nil
  then show ?case by simp
next
  case (Cons x xs)
  moreover from this have "fits_from v (length done + length x)" by (simp add: fits_from_def)
  ultimately obtain h' where "h_update h x = Some h'" "absorbed_from key f p B h' (done @ x)"
    using h_update_from_ok [OF p B, of f h "done" x] by auto
  then show ?case using Cons.IH [of h' "done @ x"] Cons.prems by (simp add: add.assoc)
qed

lemma h_updates_ok:
  assumes "platform_ok p" "length key = 8" "absorbed key f p h done" "length done + length (concat parts) < 2 ^ 64"
  shows "\<exists>h'. h_updates h parts = Some h' \<and> absorbed key f p h' (done @ concat parts)"
  using h_updates_from_ok [OF assms(1,2) base_ok_0 assms(3) fits_from_0 [OF assms(4)]] .

subsection \<open>The reader is a position in the output stream\<close>

definition root_stream_byte :: "b3_output \<Rightarrow> nat \<Rightarrow> u8" where
  "root_stream_byte ou i =
     compress_xof (input_chaining_value ou) (o_block ou) (o_block_len ou) (of_nat (i div 64)) (o_flags ou OR ROOT)
       ! (i mod 64)"

definition reader_at :: "b3_output \<Rightarrow> nat \<Rightarrow> output_reader" where
  "reader_at ou pos =
     \<lparr>inner = ou\<lparr>o_counter := of_nat (pos div 64)\<rparr>, position_within_block = of_nat (pos mod 64)\<rparr>"

lemma root_output_block_at:
  "output_wf ou \<Longrightarrow> root_output_block (ou\<lparr>o_counter := of_nat q\<rparr>)
     = map (root_stream_byte ou) [64 * q..<64 * q + 64]"
  by (rule nth_equalityI) (auto simp: root_output_block_def root_stream_byte_def output_wf_def div_nat_eqI modulo_nat_def)

lemma block_step:
  fixes pos n :: nat
  shows "pos mod 64 + n < 64 \<Longrightarrow> (pos + n) div 64 = pos div 64 \<and> (pos + n) mod 64 = pos mod 64 + n"
    and "pos mod 64 + n = 64 \<Longrightarrow> (pos + n) div 64 = Suc (pos div 64) \<and> (pos + n) mod 64 = 0"
proof -
  obtain q r where pos: "pos div 64 = q" "pos mod 64 = r" "pos = 64 * q + r"
    by (metis mult_div_mod_eq)
  show "pos mod 64 + n < 64 \<Longrightarrow> (pos + n) div 64 = pos div 64 \<and> (pos + n) mod 64 = pos mod 64 + n"
    using div_nat_eqI [of 64 q "pos + n"] minus_mult_div_eq_mod [of "pos + n" 64] pos by simp
  show "pos mod 64 + n = 64 \<Longrightarrow> (pos + n) div 64 = Suc (pos div 64) \<and> (pos + n) mod 64 = 0"
    using div_nat_eqI [of 64 "Suc q" "pos + n"] minus_mult_div_eq_mod [of "pos + n" 64] pos by simp
qed

lemma fill_one_block_at:
  assumes ou: "output_wf ou" and n: "n = min len (64 - pos mod 64)"
  shows "fill_one_block (reader_at ou pos) len = (reader_at ou (pos + n), map (root_stream_byte ou) [pos..<pos + n])"
proof -
  let ?q = "pos div 64" and ?r = "pos mod 64"
  have pos: "pos = 64 * ?q + ?r" by simp
  have r: "?r < 64" by simp
  have u: "unat (of_nat ?r :: u8) = ?r" by (rule unat_small_u8) (use r in simp)
  have block: "drop ?r (root_output_block (ou\<lparr>o_counter := of_nat ?q\<rparr>)) = map (root_stream_byte ou) [pos..<64 * ?q + 64]"
    unfolding root_output_block_at [OF ou] drop_map drop_upt using pos by simp
  have len: "min len (64 * ?q + 64 - pos) = n" using pos n by linarith
  have bytes: "take n (map (root_stream_byte ou) [pos..<64 * ?q + 64]) = map (root_stream_byte ou) [pos..<pos + n]"
  proof -
    have "pos + n \<le> 64 * ?q + 64" using n pos r by linarith
    then show ?thesis by (simp add: take_map take_upt)
  qed
  have sum: "(of_nat ?r + of_nat n :: u8) = of_nat (?r + n)" by simp
  have b: "?r + n \<le> 64" using n r by simp
  have full: "(of_nat (?r + n) = (of_nat 64 :: u8)) = (?r + n = 64)"
    by (metis b le_refl unat_small_u8)
  show ?thesis
  proof (cases "?r + n = 64")
    case True
    then have "(pos + n) div 64 = Suc ?q" "(pos + n) mod 64 = 0" using block_step(2) by blast+
    moreover have "(of_nat ?q :: u64) + 1 = of_nat (Suc ?q)" by (simp add: add.commute)
    ultimately show ?thesis
      using True sum full unfolding fill_one_block_def reader_at_def Let_def
      by (simp add: u block len bytes BLOCK_LEN_def del: of_nat_Suc)
  next
    case False
    then have "?r + n < 64" using b by simp
    then have "(pos + n) div 64 = ?q" "(pos + n) mod 64 = ?r + n" using block_step(1) by blast+
    then show ?thesis
      using False sum full unfolding fill_one_block_def reader_at_def Let_def
      by (simp add: u block len bytes BLOCK_LEN_def)
  qed
qed

lemma whole_blocks_at:
  assumes "output_wf ou"
  shows "xof_many (o_platform ou) (input_chaining_value ou) (o_block ou) (o_block_len ou) (of_nat q)
      (o_flags ou OR ROOT) (replicate (n * 64) 0)
    = Some (map (root_stream_byte ou) [64 * q..<64 * q + n * 64])"
proof -
  have "xof_stream (input_chaining_value ou) (o_block ou) (o_block_len ou) (of_nat q) (o_flags ou OR ROOT) (n * 64)
      = map (root_stream_byte ou) [64 * q..<64 * q + n * 64]"
    by (rule nth_equalityI) (auto simp: xof_stream_def nth_block_stream root_stream_byte_def)
  then show ?thesis using assms by (simp add: xof_many_ok output_wf_def)
qed

lemma map_upt_append: "i \<le> j \<Longrightarrow> j \<le> k \<Longrightarrow> map F [i..<j] @ map F [j..<k] = map F [i..<k]"
  by (metis map_append upt_add_eq_append le_iff_add)

lemma reader_fill_ok:
  assumes ou: "output_wf ou"
  shows "reader_fill (reader_at ou pos) len = Some (reader_at ou (pos + len), map (root_stream_byte ou) [pos..<pos + len])"
proof (cases "len = 0")
  case True
  then show ?thesis by (simp add: reader_fill_def)
next
  case False
  let ?S = "root_stream_byte ou"
  define n1 where "n1 = (if pos mod 64 = 0 then 0 else min len (64 - pos mod 64))"
  define pos1 len1 where "pos1 = pos + n1" and "len1 = len - n1"
  define full where "full = len1 div 64"
  define pos2 len2 where "pos2 = pos1 + full * 64" and "len2 = len1 - full * 64"
  have pwb: "(position_within_block (reader_at ou pos) \<noteq> 0) = (pos mod 64 \<noteq> 0)"
    using of_nat_u8_eq_0 [of "pos mod 64"] by (simp add: reader_at_def less_imp_le)
  have s1: "(if position_within_block (reader_at ou pos) \<noteq> 0 then fill_one_block (reader_at ou pos) len
      else (reader_at ou pos, [])) = (reader_at ou pos1, map ?S [pos..<pos1])"
    unfolding pwb using fill_one_block_at [OF ou refl, of pos len] by (simp add: pos1_def n1_def)
  have n1: "n1 \<le> len" by (simp add: n1_def)
  have aligned: "pos1 mod 64 = 0" if "len1 \<noteq> 0"
  proof (cases "pos mod 64 = 0")
    case True
    then show ?thesis by (simp add: pos1_def n1_def)
  next
    case False
    then have "pos mod 64 + n1 = 64"
      using that mod_less_divisor [of 64 pos] unfolding n1_def len1_def by (simp add: min_def split: if_splits)
    then show ?thesis using block_step(2) by (simp add: pos1_def)
  qed
  have s2: "(if 0 < full then do {
        let node = inner (reader_at ou pos1);
        body \<leftarrow> xof_many (o_platform node) (input_chaining_value node) (o_block node) (o_block_len node)
                  (o_counter node) (o_flags node OR ROOT) (replicate (full * 64) 0);
        Some ((reader_at ou pos1)\<lparr>inner := node\<lparr>o_counter := o_counter node + of_nat full\<rparr>\<rparr>, body)
      } else Some (reader_at ou pos1, [])) = Some (reader_at ou pos2, map ?S [pos1..<pos2])"
  proof (cases "0 < full")
    case True
    then have "len1 \<noteq> 0" by (auto simp: full_def)
    then obtain q where q: "pos1 = 64 * q" using aligned by auto
    show ?thesis
      using True whole_blocks_at [OF ou, of q full]
      by (simp add: reader_at_def q pos2_def)
  next
    case False
    then show ?thesis by (simp add: pos2_def)
  qed
  have l2: "len2 < 64" "pos2 + len2 = pos + len"
  proof -
    have "full * 64 \<le> len1" by (simp add: full_def)
    then show "pos2 + len2 = pos + len" using n1 by (simp add: pos2_def len2_def pos1_def len1_def)
    show "len2 < 64" unfolding len2_def full_def by (metis minus_div_mult_eq_mod mod_less_divisor zero_less_numeral)
  qed
  have s3: "(if len2 \<noteq> 0 then fill_one_block (reader_at ou pos2) len2 else (reader_at ou pos2, []))
      = (reader_at ou (pos2 + len2), map ?S [pos2..<pos2 + len2])"
  proof (cases "len2 = 0")
    case True
    then show ?thesis by simp
  next
    case False
    then have "pos1 mod 64 = 0" using aligned by (auto simp: len2_def)
    then have "len2 = min len2 (64 - pos2 mod 64)" using l2(1) by (simp add: pos2_def)
    from fill_one_block_at [OF ou this] False show ?thesis by simp
  qed
  have bytes: "map ?S [pos..<pos1] @ map ?S [pos1..<pos2] @ map ?S [pos2..<pos2 + len2] = map ?S [pos..<pos + len]"
  proof -
    have "pos \<le> pos1" "pos1 \<le> pos2" "pos2 \<le> pos2 + len2" by (simp_all add: pos1_def pos2_def)
    then show ?thesis by (simp only: map_upt_append append_assoc l2 order_trans)
  qed
  have h: "length (map ?S [pos..<pos1]) = n1" by (simp add: pos1_def)
  show ?thesis
    using False unfolding reader_fill_def s1 Let_def
    by (simp only: if_False prod.case h len1_def [symmetric] full_def [symmetric] BLOCK_LEN_def s2 [unfolded Let_def]
        bind.bind_lunit len2_def [symmetric] s3 bytes [unfolded l2(2)] l2(2))
qed

text \<open>Seeking puts the reader at a position, and \<open>position\<close> reads it back.\<close>

lemma u64_of_nat_unat: "n < 2 ^ 64 \<Longrightarrow> unat (of_nat n :: u64) = n"
  by (simp only: unat_of_nat take_bit_nat_eq_self_iff) simp

lemma set_position_at:
  assumes "pos < 2 ^ 64"
  shows "reader_set_position (reader_at ou k) (of_nat pos) = reader_at ou pos"
proof -
  have u: "unat (of_nat pos :: u64) = pos" by (rule u64_of_nat_unat) fact
  have "(of_nat pos :: u64) div of_nat BLOCK_LEN = of_nat (pos div 64)"
    by (simp add: word_arith_nat_div u BLOCK_LEN_def)
  moreover have "(of_nat pos :: u64) mod of_nat BLOCK_LEN = of_nat (pos mod 64)"
    by (simp add: word_arith_nat_mod u BLOCK_LEN_def)
  moreover have "(ucast (of_nat (pos mod 64) :: u64) :: u8) = of_nat (pos mod 64)"
  proof -
    have "pos mod 64 < 2 ^ 64" by (rule less_trans [of _ 64]) simp_all
    then show ?thesis by (simp add: unsigned_of_nat take_bit_nat_eq_self)
  qed
  ultimately show ?thesis by (simp add: reader_set_position_def reader_at_def)
qed

lemma position_at:
  assumes "pos < 2 ^ 64"
  shows "reader_position (reader_at ou pos) = of_nat pos"
proof -
  have "pos div 64 < 2 ^ 64" using assms by (meson div_le_dividend le_less_trans)
  then have u: "unat (of_nat (pos div 64) :: u64) = pos div 64" by (rule u64_of_nat_unat)
  have v: "unat (of_nat (pos mod 64) :: u8) = pos mod 64"
    by (rule unat_small_u8) (simp add: less_imp_le)
  have "pos div 64 * 64 + pos mod 64 = pos" by simp
  moreover have "pos div 64 * 64 \<le> 2 ^ 64 - 1" "pos \<le> 2 ^ 64 - 1" using assms by linarith+
  ultimately show ?thesis by (simp add: reader_position_def reader_at_def u v BLOCK_LEN_def min_absorb1)
qed

lemma reader_new_at: "o_counter ou = 0 \<Longrightarrow> reader_new ou = reader_at ou 0"
  by (simp add: reader_new_def reader_at_def)

lemma tree_output_counter: "o_counter (tree_output key f p 0 xs) = 0"
  by (subst tree_output.simps) (simp add: Let_def chunk_output_def parent_node_output_def)

text \<open>\<open>BLAKE3\<close> as a function: the first \<open>n\<close> bytes of the output stream of the tree.\<close>

definition blake3_stream :: "cv_words \<Rightarrow> u8 \<Rightarrow> platform \<Rightarrow> bytes \<Rightarrow> nat \<Rightarrow> bytes" where
  "blake3_stream key f p inp n = map (root_stream_byte (tree_output key f p 0 inp)) [0..<n]"

lemma length_blake3_stream [simp, len_simps]: "length (blake3_stream key f p inp n) = n"
  by (simp add: blake3_stream_def)

lemma finalize_xof_ok:
  assumes p: "platform_ok p" "length key = 8" and h: "absorbed key f p h inp"
  shows "finalize_xof h = Some (reader_at (tree_output key f p 0 inp) 0)"
  using final_output_ok [OF assms] absorbed_offset [OF h]
  by (simp add: finalize_xof_def reader_new_at tree_output_counter)

lemma finalize_fill_ok:
  assumes p: "platform_ok p" "length key = 8" and h: "absorbed key f p h inp"
  shows "(finalize_xof h \<bind> (\<lambda>r. reader_fill r n)) = Some (reader_at (tree_output key f p 0 inp) n, blake3_stream key f p inp n)"
  using finalize_xof_ok [OF assms] p by (simp add: reader_fill_ok blake3_stream_def)

lemma root_hash_ok:
  assumes "platform_ok p" "length key = 8" "output_wf ou"
  shows "root_hash ou = map (root_stream_byte ou) [0..<32]"
proof -
  have "root_hash ou = take 32 (compress_xof (input_chaining_value ou) (o_block ou) (o_block_len ou) 0 (o_flags ou OR ROOT))"
    using assms(3) by (simp add: root_hash_def output_wf_def compress_xof_prefix)
  also have "\<dots> = map (root_stream_byte ou) [0..<32]"
    by (rule nth_equalityI) (simp_all add: root_stream_byte_def)
  finally show ?thesis .
qed

subsection \<open>Properties\<close>

text \<open>C9. However the input is cut into \<open>update\<close> calls, and whichever vector back ends the
  platform has, the extended output of a keyed hasher is the output stream of the BLAKE3 tree of
  the concatenated input; no call panics while the total length is below \<open>2^64\<close>.\<close>

theorem keyed_hasher_is_tree_stream:
  assumes "platform_ok p" and "length key = 32" and "length (concat parts) < 2 ^ 64"
  shows "do { h \<leftarrow> h_updates (new_keyed p key) parts; r \<leftarrow> finalize_xof h; (_, out) \<leftarrow> reader_fill r n; Some out }
    = Some (blake3_stream (words_from_le_bytes_32 key) KEYED_HASH p (concat parts) n)"
proof -
  let ?key = "words_from_le_bytes_32 key"
  have key: "length ?key = 8" by (simp add: words_from_le_bytes_32_def)
  obtain h where h: "h_updates (new_keyed p key) parts = Some h" "absorbed ?key KEYED_HASH p h (concat parts)"
    using h_updates_ok [OF assms(1) key new_internal_absorbed, of parts KEYED_HASH] assms(3)
    by (auto simp: new_keyed_def)
  show ?thesis
    using finalize_fill_ok [OF assms(1) key h(2), of n] h(1)
    by (cases "finalize_xof h") (simp_all split: option.splits prod.splits)
qed

lemma keyed_hasher_is_tree_stream_witness:
  "do { h \<leftarrow> h_updates (new_keyed (detect (strict_build True)) (replicate 32 7)) [[1, 2], [], [3]];
        r \<leftarrow> finalize_xof h; (_, out) \<leftarrow> reader_fill r 100; Some out }
    = Some (blake3_stream (words_from_le_bytes_32 (replicate 32 7)) KEYED_HASH (detect (strict_build True))
        (concat [[1, 2], [], [3]]) 100)"
  by (rule keyed_hasher_is_tree_stream) (simp_all)

text \<open>The one-shot hash, which recurses over the whole input with the wide kernels, and the
  incremental hasher, which keeps a lazily merged stack of subtrees, return the same 32 bytes for
  every cut of the input.\<close>

theorem one_shot_is_incremental:
  assumes "platform_ok p" and "length key = 8" and "length (concat parts) < 2 ^ 64"
  shows "map_option root_hash (hash_all_at_once p (concat parts) key f)
    = (h_updates (new_internal p key f) parts \<bind> finalize)"
proof -
  obtain h where h: "h_updates (new_internal p key f) parts = Some h" "absorbed key f p h (concat parts)"
    using h_updates_ok [OF assms(1,2) new_internal_absorbed, of parts f] assms(3) by auto
  show ?thesis
    using h final_output_ok [OF assms(1,2) h(2)] absorbed_offset [OF h(2)]
    by (simp add: hash_all_at_once_ok assms(1,2) finalize_def)
qed

lemma one_shot_is_incremental_witness:
  "map_option root_hash (hash_all_at_once (detect (strict_build False)) (concat [[1], replicate 3000 2]) IV 0)
    = (h_updates (new_internal (detect (strict_build False)) IV 0) [[1], replicate 3000 2] \<bind> finalize)"
  by (rule one_shot_is_incremental) (simp_all add: IV_def)

text \<open>C21. The output reader is a position in one stream: seeking to any position and filling any
  length yields exactly that window of the stream, and leaves the reader at its end.\<close>

theorem reader_seek_and_fill:
  assumes "platform_ok p" and "length key = 8" and "length inp < 2 ^ 64" and "pos + len < 2 ^ 64"
  shows "do { h \<leftarrow> h_update (new_internal p key f) inp; r \<leftarrow> finalize_xof h;
              (r, out) \<leftarrow> reader_fill (reader_set_position r (of_nat pos)) len;
              Some (out, reader_position r) }
    = Some (drop pos (blake3_stream key f p inp (pos + len)), of_nat (pos + len))"
proof -
  let ?ou = "tree_output key f p 0 inp"
  obtain h where h: "h_update (new_internal p key f) inp = Some h" "absorbed key f p h inp"
    using h_update_ok [OF assms(1,2) new_internal_absorbed, of inp f] assms(3) by auto
  have set_pos: "reader_set_position (reader_at ?ou 0) (of_nat pos) = reader_at ?ou pos"
    using assms(4) by (intro set_position_at) simp
  have "map (root_stream_byte ?ou) [pos..<pos + len] = drop pos (blake3_stream key f p inp (pos + len))"
    by (simp add: blake3_stream_def drop_map)
  then show ?thesis
    using assms h finalize_xof_ok [OF assms(1,2) h(2)]
    by (simp add: set_pos reader_fill_ok position_at)
qed

lemma reader_seek_and_fill_witness:
  "do { h \<leftarrow> h_update (new_internal (detect (strict_build True)) IV 0) [1, 2, 3]; r \<leftarrow> finalize_xof h;
        (r, out) \<leftarrow> reader_fill (reader_set_position r (of_nat 70)) 130;
        Some (out, reader_position r) }
    = Some (drop 70 (blake3_stream IV 0 (detect (strict_build True)) [1, 2, 3] (70 + 130)), of_nat (70 + 130))"
  by (rule reader_seek_and_fill) (simp_all add: IV_def)

end
