(* ===== verification/Blake3_Api.thy ===== *)
theory Blake3_Api
  imports Blake3_Hasher
begin

section \<open>Hash functions, modes, hexadecimal, seeking and wiping\<close>

text \<open>
  The one-shot functions of \<open>blake3/src/lib.rs\<close>, the modes and the merging of subtrees of
  \<open>blake3/src/hazmat.rs\<close> and \<open>blake3/src/guts.rs\<close>, the hexadecimal form of
  \<open>Hash\<close>, the \<open>Seek\<close> adapter of the reader and the \<open>Zeroize\<close> impls.  The
  platform is the one \<open>Platform::detect()\<close> returns.
\<close>

subsection \<open>One-shot functions and modes\<close>

definition b3_hash :: "platform \<Rightarrow> bytes \<Rightarrow> bytes option" where
  "b3_hash p inp = map_option root_hash (hash_all_at_once p inp IV 0)"

definition keyed_hash :: "platform \<Rightarrow> bytes \<Rightarrow> bytes \<Rightarrow> bytes option" where
  "keyed_hash p key inp = map_option root_hash (hash_all_at_once p inp (words_from_le_bytes_32 key) KEYED_HASH)"

definition hash_derive_key_context :: "platform \<Rightarrow> bytes \<Rightarrow> bytes option" where
  "hash_derive_key_context p context_bytes =
     map_option root_hash (hash_all_at_once p context_bytes IV DERIVE_KEY_CONTEXT)"

definition derive_key :: "platform \<Rightarrow> bytes \<Rightarrow> bytes \<Rightarrow> bytes option" where
  "derive_key p context_bytes key_material =
     do {
       context_key \<leftarrow> hash_derive_key_context p context_bytes;
       let context_key_words = words_from_le_bytes_32 context_key;
       map_option root_hash (hash_all_at_once p key_material context_key_words DERIVE_KEY_MATERIAL)
     }"

definition new_from_context_key :: "platform \<Rightarrow> bytes \<Rightarrow> hasher" where
  "new_from_context_key p context_key =
     new_internal p (words_from_le_bytes_32 context_key) DERIVE_KEY_MATERIAL"

definition new_derive_key :: "platform \<Rightarrow> bytes \<Rightarrow> hasher option" where
  "new_derive_key p context_bytes =
     do {
       context_key \<leftarrow> hash_derive_key_context p context_bytes;
       Some (new_internal p (words_from_le_bytes_32 context_key) DERIVE_KEY_MATERIAL)
     }"

datatype mode = Hash_Mode | KeyedHash bytes | DeriveKeyMaterial bytes

fun key_words :: "mode \<Rightarrow> cv_words" where
  "key_words Hash_Mode = IV"
| "key_words (KeyedHash key) = words_from_le_bytes_32 key"
| "key_words (DeriveKeyMaterial cx_key) = words_from_le_bytes_32 cx_key"

fun flags_byte :: "mode \<Rightarrow> u8" where
  "flags_byte Hash_Mode = 0"
| "flags_byte (KeyedHash _) = KEYED_HASH"
| "flags_byte (DeriveKeyMaterial _) = DERIVE_KEY_MATERIAL"

definition merge_subtrees_inner :: "platform \<Rightarrow> bytes \<Rightarrow> bytes \<Rightarrow> mode \<Rightarrow> b3_output" where
  "merge_subtrees_inner p left_child right_child m =
     parent_node_output left_child right_child (key_words m) (flags_byte m) p"

definition merge_subtrees_non_root :: "platform \<Rightarrow> bytes \<Rightarrow> bytes \<Rightarrow> mode \<Rightarrow> bytes" where
  "merge_subtrees_non_root p left_child right_child m =
     chaining_value (merge_subtrees_inner p left_child right_child m)"

definition merge_subtrees_root :: "platform \<Rightarrow> bytes \<Rightarrow> bytes \<Rightarrow> mode \<Rightarrow> bytes" where
  "merge_subtrees_root p left_child right_child m = root_hash (merge_subtrees_inner p left_child right_child m)"

definition merge_subtrees_root_xof :: "platform \<Rightarrow> bytes \<Rightarrow> bytes \<Rightarrow> mode \<Rightarrow> output_reader" where
  "merge_subtrees_root_xof p left_child right_child m = reader_new (merge_subtrees_inner p left_child right_child m)"

text \<open>\<open>guts.rs\<close>: the default mode only, with the root flag as an argument.\<close>

definition guts_new :: "platform \<Rightarrow> u64 \<Rightarrow> chunk_state" where
  "guts_new p counter = cs_new IV counter 0 p"

definition guts_finalize :: "chunk_state \<Rightarrow> bool \<Rightarrow> bytes" where
  "guts_finalize cs is_root =
     (let ou = cs_output cs in if is_root then root_hash ou else chaining_value ou)"

definition guts_parent_cv :: "platform \<Rightarrow> bytes \<Rightarrow> bytes \<Rightarrow> bool \<Rightarrow> bytes" where
  "guts_parent_cv p left_child right_child is_root =
     (let ou = parent_node_output left_child right_child IV 0 p
      in if is_root then root_hash ou else chaining_value ou)"

subsection \<open>Hexadecimal\<close>

datatype hex_error = InvalidByte u8 | InvalidLen nat

definition hex_table :: bytes where
  "hex_table = [0x30, 0x31, 0x32, 0x33, 0x34, 0x35, 0x36, 0x37, 0x38, 0x39, 0x61, 0x62, 0x63, 0x64, 0x65, 0x66]"

definition to_hex :: "bytes \<Rightarrow> bytes" where
  "to_hex bs = concat (map (\<lambda>b. [hex_table ! unat (drop_bit 4 b), hex_table ! unat (b AND 0xf)]) bs)"

definition hex_val :: "u8 \<Rightarrow> hex_error + u8" where
  "hex_val byte =
     (if 0x41 \<le> byte \<and> byte \<le> 0x46 then Inr (byte - 0x41 + 10)
      else if 0x61 \<le> byte \<and> byte \<le> 0x66 then Inr (byte - 0x61 + 10)
      else if 0x30 \<le> byte \<and> byte \<le> 0x39 then Inr (byte - 0x30)
      else Inl (InvalidByte byte))"

text \<open>The loop over \<open>0..OUT_LEN\<close>, stopping at the first character that is refused.\<close>

fun hex_loop :: "bytes \<Rightarrow> hex_error + bytes" where
  "hex_loop (a # b # rest) =
     (case hex_val a of Inl e \<Rightarrow> Inl e | Inr x \<Rightarrow>
       (case hex_val b of Inl e \<Rightarrow> Inl e | Inr y \<Rightarrow>
         (case hex_loop rest of Inl e \<Rightarrow> Inl e | Inr bs \<Rightarrow> Inr ((16 * x + y) # bs))))"
| "hex_loop _ = Inr []"

definition from_hex :: "bytes \<Rightarrow> hex_error + bytes" where
  "from_hex hex_bytes =
     (if length hex_bytes \<noteq> OUT_LEN * 2 then Inl (InvalidLen (length hex_bytes)) else hex_loop hex_bytes)"

subsection \<open>\<open>Seek\<close> of the output reader\<close>

datatype seek_from = Seek_Start u64 | Seek_Current int | Seek_End int

datatype seek_error = Seek_From_End | Seek_Before_Start

text \<open>\<open>Seek_Current\<close> carries an \<open>i64\<close>; the sum is taken in \<open>i128\<close>, where it does not wrap.\<close>

definition reader_seek :: "output_reader \<Rightarrow> seek_from \<Rightarrow> seek_error + output_reader \<times> u64" where
  "reader_seek r pos =
     (let max_position = (2 ^ 64 - 1 :: int);
          go = (\<lambda>target_position :: int.
             if target_position < 0 then Inl Seek_Before_Start
             else let r = reader_set_position r (of_int (min target_position max_position))
                  in Inr (r, reader_position r))
      in case pos of
           Seek_Start x \<Rightarrow> go (uint x)
         | Seek_Current x \<Rightarrow> go (uint (reader_position r) + x)
         | Seek_End _ \<Rightarrow> Inl Seek_From_End)"

subsection \<open>Wiping\<close>

text \<open>\<open>Zeroize\<close> of \<open>Output\<close>, \<open>ChunkState\<close>, \<open>Hasher\<close> and \<open>OutputReader\<close>.\<close>

definition output_zeroize :: "b3_output \<Rightarrow> b3_output" where
  "output_zeroize ou =
     ou\<lparr>input_chaining_value := replicate (length (input_chaining_value ou)) 0,
        o_block := replicate (length (o_block ou)) 0, o_block_len := 0, o_counter := 0, o_flags := 0\<rparr>"

definition chunk_zeroize :: "chunk_state \<Rightarrow> chunk_state" where
  "chunk_zeroize cs =
     cs\<lparr>cs_cv := replicate (length (cs_cv cs)) 0, chunk_counter := 0,
        cs_buf := replicate (length (cs_buf cs)) 0, cs_buf_len := 0, blocks_compressed := 0, cs_flags := 0\<rparr>"

definition hasher_zeroize :: "hasher \<Rightarrow> hasher" where
  "hasher_zeroize h =
     h\<lparr>h_key := replicate (length (h_key h)) 0, h_chunk_state := chunk_zeroize (h_chunk_state h),
       initial_chunk_counter := 0, cv_stack := []\<rparr>"

definition reader_zeroize :: "output_reader \<Rightarrow> output_reader" where
  "reader_zeroize r = r\<lparr>inner := output_zeroize (inner r), position_within_block := 0\<rparr>"

text \<open>The bytes a hasher and a reader hold that depend on the key or the input.\<close>

definition hasher_bytes :: "hasher \<Rightarrow> bytes" where
  "hasher_bytes h =
     words_bytes (h_key h) @ words_bytes (cs_cv (h_chunk_state h)) @ cs_buf (h_chunk_state h) @ concat (cv_stack h)"

definition reader_bytes :: "output_reader \<Rightarrow> bytes" where
  "reader_bytes r = words_bytes (input_chaining_value (inner r)) @ o_block (inner r)"

lemma words_bytes_zero: "words_bytes (replicate n 0) = replicate (4 * n) 0"
  by (induction n) (simp_all add: numeral_eq_Suc)

lemma hasher_zeroize_bytes: "set (hasher_bytes (hasher_zeroize h)) \<subseteq> {0}"
  by (auto simp: hasher_bytes_def hasher_zeroize_def chunk_zeroize_def words_bytes_zero)

lemma reader_zeroize_bytes: "set (reader_bytes (reader_zeroize r)) \<subseteq> {0}"
  by (auto simp: reader_bytes_def reader_zeroize_def output_zeroize_def words_bytes_zero)

subsection \<open>The platform leaves no trace in the output\<close>

lemma chunk_output_platform: "chunk_output key c f p xs = (chunk_output key c f p' xs)\<lparr>o_platform := p\<rparr>"
  by (simp add: chunk_output_def)

lemma parent_output_platform: "parent_node_output l r key f p = (parent_node_output l r key f p')\<lparr>o_platform := p\<rparr>"
  by (simp add: parent_node_output_def)

lemma out_cv_platform [simp]: "out_cv (ou\<lparr>o_platform := p\<rparr>) = out_cv ou"
  by (simp add: out_cv_def)

lemma root_stream_byte_platform: "root_stream_byte (ou\<lparr>o_platform := p\<rparr>) = root_stream_byte ou"
  by (intro ext) (simp add: root_stream_byte_def)

lemma tree_output_platform: "tree_output key f p c xs = (tree_output key f p' c xs)\<lparr>o_platform := p\<rparr>"
proof (induction "length xs" arbitrary: c xs rule: less_induct)
  case less
  let ?l = "left_subtree_len (length xs)"
  show ?case
  proof (cases "1024 < length xs \<and> 0 < ?l \<and> ?l < length xs")
    case False
    have "tree_output key f q c xs = chunk_output key c f q xs" for q
      by (subst tree_output.simps) (use False in \<open>auto simp: Let_def\<close>)
    then show ?thesis using chunk_output_platform [of key c f p xs p'] by simp
  next
    case True
    have "tree_output key f p c (take ?l xs) = (tree_output key f p' c (take ?l xs))\<lparr>o_platform := p\<rparr>"
      by (rule less) (use True in simp)
    then have "tree_cv key f p c (take ?l xs) = tree_cv key f p' c (take ?l xs)" by (simp only: out_cv_platform)
    moreover have "tree_output key f p d (drop ?l xs) = (tree_output key f p' d (drop ?l xs))\<lparr>o_platform := p\<rparr>" for d
      by (rule less) (use True in auto)
    then have "tree_cv key f p d (drop ?l xs) = tree_cv key f p' d (drop ?l xs)" for d by (simp only: out_cv_platform)
    moreover have "tree_output key f q c xs = parent_node_output (tree_cv key f q c (take ?l xs))
        (tree_cv key f q (c + of_nat (?l div 1024)) (drop ?l xs)) key f q" for q
      by (subst tree_output.simps) (use True in \<open>simp add: Let_def\<close>)
    ultimately show ?thesis using parent_output_platform [of _ _ key f p p'] by simp
  qed
qed

lemma blake3_stream_platform: "blake3_stream key f p inp n = blake3_stream key f p' inp n"
  unfolding blake3_stream_def
  by (subst tree_output_platform [of key f p 0 inp p']) (simp only: root_stream_byte_platform)

text \<open>BLAKE3 keyed with 32 bytes, as a function of the input alone.\<close>

definition keyed_stream :: "bytes \<Rightarrow> bytes \<Rightarrow> nat \<Rightarrow> bytes" where
  "keyed_stream key inp n =
     blake3_stream (words_from_le_bytes_32 key) KEYED_HASH (detect (strict_build False)) inp n"

lemma length_keyed_stream [simp, len_simps]: "length (keyed_stream key inp n) = n"
  by (simp add: keyed_stream_def)

lemma keyed_stream_eq: "blake3_stream (words_from_le_bytes_32 key) KEYED_HASH p inp n = keyed_stream key inp n"
  unfolding keyed_stream_def by (rule blake3_stream_platform)

subsection \<open>Hexadecimal digits\<close>

lemma nibble_cases: "n < 16 \<Longrightarrow> n \<in> {0, 1, 2, 3, 4, 5, 6, 7, 8, 9, 10, 11, 12, 13, 14, 15 :: nat}"
  unfolding insert_iff empty_iff by presburger

lemma hex_val_table: "n < 16 \<Longrightarrow> hex_val (hex_table ! n) = Inr (of_nat n)"
  by (drule nibble_cases) (auto simp: hex_table_def hex_val_def)

lemma byte_of_nibbles:
  "unat (drop_bit 4 b) < 16" "unat (b AND 0xf) < 16"
  "16 * of_nat (unat (drop_bit 4 b)) + of_nat (unat (b AND 0xf)) = (b :: u8)"
proof -
  have m: "b AND 0xf = take_bit 4 b"
    by (simp add: take_bit_eq_mask mask_eq_exp_minus_1)
  have "unat b < 256" using unsigned_less [of b] by simp
  then show "unat (drop_bit 4 b) < 16" by (simp add: drop_bit_eq_div unat_div)
  show "unat (b AND 0xf) < 16" unfolding m by (simp add: take_bit_eq_mod unat_mod)
  have "push_bit 4 (drop_bit 4 b) + take_bit 4 b = b" by (rule bits_ident)
  then show "16 * of_nat (unat (drop_bit 4 b)) + of_nat (unat (b AND 0xf)) = b"
    unfolding m by (simp add: push_bit_eq_mult mult.commute)
qed

lemma hex_loop_to_hex: "hex_loop (to_hex bs) = Inr bs"
proof (induction bs)
  case Nil
  then show ?case by (simp add: to_hex_def)
next
  case (Cons b bs)
  then have "hex_loop (concat (map (\<lambda>b. [hex_table ! unat (drop_bit 4 b), hex_table ! unat (b AND 0xf)]) bs)) = Inr bs"
    by (simp add: to_hex_def)
  then show ?case
    using byte_of_nibbles [of b] by (simp add: to_hex_def hex_val_table)
qed

lemma length_to_hex: "length (to_hex bs) = 2 * length bs"
  by (induction bs) (simp_all add: to_hex_def)

text \<open>The digits as the documentation of \<open>from_hex\<close> lists them, both cases.\<close>

definition hex_digit :: "u8 \<Rightarrow> nat \<Rightarrow> bool" where
  "hex_digit b v \<longleftrightarrow>
     v < 16 \<and> (b = map of_char ''0123456789abcdef'' ! v \<or> b = map of_char ''0123456789ABCDEF'' ! v)"

lemma digit_codes:
  "map of_char ''0123456789abcdef'' = hex_table"
  "map of_char ''0123456789ABCDEF'' = (take 10 hex_table @ [0x41, 0x42, 0x43, 0x44, 0x45, 0x46] :: bytes)"
  by (simp_all add: hex_table_def)

lemmas hex_digit_codes = hex_digit_def [unfolded digit_codes]

definition ascii_upper :: "u8 \<Rightarrow> u8" where
  "ascii_upper b = (if 0x61 \<le> b \<and> b \<le> 0x7a then b - 0x20 else b)"

lemma hex_val_digit: "hex_digit b v \<Longrightarrow> hex_val b = Inr (of_nat v)"
  unfolding hex_digit_codes
  by (elim conjE, drule nibble_cases, elim insertE emptyE) (auto simp: hex_val_def hex_table_def)

lemma hex_val_upper: "n < 16 \<Longrightarrow> hex_val (ascii_upper (hex_table ! n)) = Inr (of_nat n)"
  by (drule nibble_cases, elim insertE emptyE) (simp_all add: hex_table_def hex_val_def ascii_upper_def)

lemma hex_val_cases:
  assumes "hex_val b = Inr v"
  shows "hex_digit b (unat v)"
proof -
  have b: "b = of_nat (unat b)" by simp
  consider (upper) "0x41 \<le> b" "b \<le> 0x46" | (lower_case) "0x61 \<le> b" "b \<le> 0x66" | (digit) "0x30 \<le> b" "b \<le> 0x39"
    using assms by (auto simp: hex_val_def split: if_splits)
  then show ?thesis
  proof cases
    case upper
    then have "unat b \<in> {0x41, 0x42, 0x43, 0x44, 0x45, 0x46}" unfolding word_le_nat_alt by auto
    then have "b \<in> {0x41, 0x42, 0x43, 0x44, 0x45, 0x46}" by (subst b) (elim insertE emptyE; simp)
    then show ?thesis using assms by (elim insertE emptyE) (auto simp: hex_val_def hex_digit_codes hex_table_def)
  next
    case lower_case
    then have "unat b \<in> {0x61, 0x62, 0x63, 0x64, 0x65, 0x66}" unfolding word_le_nat_alt by auto
    then have "b \<in> {0x61, 0x62, 0x63, 0x64, 0x65, 0x66}" by (subst b) (elim insertE emptyE; simp)
    then show ?thesis using assms by (elim insertE emptyE) (auto simp: hex_val_def hex_digit_codes hex_table_def)
  next
    case digit
    then have "48 \<le> unat b" "unat b \<le> 57" unfolding word_le_nat_alt by simp_all
    then have "unat b \<in> {0x30, 0x31, 0x32, 0x33, 0x34, 0x35, 0x36, 0x37, 0x38, 0x39}"
      unfolding insert_iff empty_iff by presburger
    then have "b \<in> {0x30, 0x31, 0x32, 0x33, 0x34, 0x35, 0x36, 0x37, 0x38, 0x39}" by (subst b) (elim insertE emptyE; simp)
    then show ?thesis using assms by (elim insertE emptyE) (auto simp: hex_val_def hex_digit_codes hex_table_def)
  qed
qed

lemma hex_val_Inl: "hex_val b = Inl e \<Longrightarrow> e = InvalidByte b \<and> \<not> hex_digit b v"
  using hex_val_digit [of b v] by (auto simp: hex_val_def split: if_splits)

lemma unat_nibbles:
  fixes x y :: u8
  assumes "unat x < 16" "unat y < 16"
  shows "unat (16 * x + y) = 16 * unat x + unat y"
proof -
  have "unat (16 * x) = 16 * unat x"
    using assms(1) by (subst unat_mult_lem [THEN iffD1]) simp_all
  then show ?thesis using assms by (subst unat_add_lem [THEN iffD1]) simp_all
qed

lemma hex_loop_upper: "hex_loop (map ascii_upper (to_hex bs)) = Inr bs"
proof (induction bs)
  case (Cons b bs)
  have "hex_loop (map ascii_upper (to_hex (b # bs))) =
      hex_loop (ascii_upper (hex_table ! unat (drop_bit 4 b)) # ascii_upper (hex_table ! unat (b AND 0xf)) # map ascii_upper (to_hex bs))"
    by (simp add: to_hex_def)
  also have "\<dots> = Inr (b # bs)"
    using Cons byte_of_nibbles [of b] by (simp add: hex_val_upper)
  finally show ?case .
qed (simp add: to_hex_def)

text \<open>The value read for two digits, and the first character that is none.\<close>

definition reads_hex :: "bytes \<Rightarrow> bytes \<Rightarrow> bool" where
  "reads_hex s h \<longleftrightarrow> length s = 2 * length h \<and>
     (\<forall>i < length h. \<exists>x y. hex_digit (s ! (2 * i)) x \<and> hex_digit (s ! (2 * i + 1)) y \<and> unat (h ! i) = 16 * x + y)"

definition first_non_digit :: "bytes \<Rightarrow> u8 \<Rightarrow> bool" where
  "first_non_digit s b \<longleftrightarrow>
     (\<exists>i < length s. s ! i = b \<and> (\<nexists>v. hex_digit b v) \<and> (\<forall>j < i. \<exists>v. hex_digit (s ! j) v))"

lemma first_non_digit_Cons:
  "first_non_digit (a # s) b \<longleftrightarrow> (\<nexists>v. hex_digit a v) \<and> b = a \<or> (\<exists>v. hex_digit a v) \<and> first_non_digit s b"
  unfolding first_non_digit_def by (auto simp: Ex_less_Suc2 All_less_Suc2)

lemma hex_loop_spec:
  "even (length s) \<Longrightarrow> case hex_loop s of Inr h \<Rightarrow> reads_hex s h | Inl e \<Rightarrow> \<exists>b. e = InvalidByte b \<and> first_non_digit s b"
proof (induction s rule: hex_loop.induct)
  case (1 a b rest)
  show ?case
  proof (cases "hex_val a")
    case (Inl e)
    then show ?thesis using hex_val_Inl [OF Inl] by (auto simp: first_non_digit_Cons)
  next
    case x: (Inr x)
    note da = hex_val_cases [OF x]
    show ?thesis
    proof (cases "hex_val b")
      case (Inl e)
      then show ?thesis using hex_val_Inl [OF Inl] x da by (auto simp: first_non_digit_Cons)
    next
      case y: (Inr y)
      note db = hex_val_cases [OF y]
      have IH: "case hex_loop rest of Inr h \<Rightarrow> reads_hex rest h | Inl e \<Rightarrow> \<exists>b. e = InvalidByte b \<and> first_non_digit rest b"
        using "1.IH" [OF x y] "1.prems" by simp
      show ?thesis
      proof (cases "hex_loop rest")
        case (Inl e)
        then show ?thesis using IH x y da db by (auto simp: first_non_digit_Cons)
      next
        case (Inr h)
        have "unat (16 * x + y) = 16 * unat x + unat y"
          using da db by (intro unat_nibbles) (simp_all add: hex_digit_def)
        then have "reads_hex (a # b # rest) ((16 * x + y) # h)"
          using IH Inr da db unfolding reads_hex_def by (auto simp: All_less_Suc2)
        then show ?thesis using x y Inr by simp
      qed
    qed
  qed
qed (auto simp: reads_hex_def)

subsection \<open>Properties\<close>

text \<open>C27. Hexadecimal: the encoding of a hash decodes to it, in lower case and in upper case.  For any
  text, \<open>from_hex\<close> is one of three things: a hash, only if the text has 64 characters, all of them digits of
  the documented alphabet in either case, and then each byte has the value of its two digits; the error
  \<open>InvalidLen\<close> with the length of the text, exactly if that is not 64; or the error \<open>InvalidByte\<close> with the
  first character outside the alphabet.\<close>

theorem hex_round_trip:
  assumes "length h = OUT_LEN"
  shows "from_hex (to_hex h) = Inr h \<and> from_hex (map ascii_upper (to_hex h)) = Inr h
    \<and> (case from_hex s of
         Inr h' \<Rightarrow> length s = 2 * OUT_LEN \<and> reads_hex s h'
       | Inl (InvalidLen n) \<Rightarrow> n = length s \<and> n \<noteq> 2 * OUT_LEN
       | Inl (InvalidByte b) \<Rightarrow> length s = 2 * OUT_LEN \<and> first_non_digit s b)"
proof (intro conjI)
  show "from_hex (to_hex h) = Inr h"
    using assms by (simp add: from_hex_def length_to_hex hex_loop_to_hex)
  show "from_hex (map ascii_upper (to_hex h)) = Inr h"
    using assms by (simp add: from_hex_def length_to_hex hex_loop_upper)
  show "case from_hex s of
         Inr h' \<Rightarrow> length s = 2 * OUT_LEN \<and> reads_hex s h'
       | Inl (InvalidLen n) \<Rightarrow> n = length s \<and> n \<noteq> 2 * OUT_LEN
       | Inl (InvalidByte b) \<Rightarrow> length s = 2 * OUT_LEN \<and> first_non_digit s b"
    using hex_loop_spec [of s] by (auto simp: from_hex_def OUT_LEN_def split: sum.splits)
qed

lemma hex_round_trip_witness:
  "from_hex (to_hex (replicate 32 0xaf)) = Inr (replicate 32 0xaf)
    \<and> from_hex (map ascii_upper (to_hex (replicate 32 0xaf))) = Inr (replicate 32 0xaf)"
  using hex_round_trip [of "replicate 32 0xaf" "[]"] by (simp add: OUT_LEN_def)

text \<open>C28. The one-shot functions and the incremental hashers of the three modes agree for every cut
  of the input: \<open>hash\<close>, \<open>keyed_hash\<close> and \<open>derive_key\<close>.\<close>

theorem modes_one_shot_is_incremental:
  assumes "platform_ok p" and "length (concat parts) < 2 ^ 64"
  shows "b3_hash p (concat parts) = (h_updates (h_new p) parts \<bind> finalize)
    \<and> keyed_hash p key (concat parts) = (h_updates (new_keyed p key) parts \<bind> finalize)
    \<and> derive_key p cx (concat parts)
        = do { h \<leftarrow> new_derive_key p cx; h \<leftarrow> h_updates h parts; finalize h }"
proof -
  note one = one_shot_is_incremental [OF assms(1) _ assms(2)]
  have len: "length (words_from_le_bytes_32 k) = 8" "length IV = 8" for k
    by (simp_all add: words_from_le_bytes_32_def IV_def)
  have "hash_derive_key_context p cx = Some (root_hash (tree_output IV DERIVE_KEY_CONTEXT p 0 cx))"
    by (simp add: hash_derive_key_context_def hash_all_at_once_ok assms(1) len)
  then show ?thesis
    by (simp add: b3_hash_def keyed_hash_def derive_key_def new_derive_key_def h_new_def new_keyed_def one len)
qed

lemma modes_one_shot_is_incremental_witness:
  "b3_hash (detect (strict_build True)) (concat [[1], replicate 2000 2])
      = (h_updates (h_new (detect (strict_build True))) [[1], replicate 2000 2] \<bind> finalize)
    \<and> keyed_hash (detect (strict_build True)) (replicate 32 9) (concat [[1], replicate 2000 2])
      = (h_updates (new_keyed (detect (strict_build True)) (replicate 32 9)) [[1], replicate 2000 2] \<bind> finalize)
    \<and> derive_key (detect (strict_build True)) [0x61] (concat [[1], replicate 2000 2])
        = do { h \<leftarrow> new_derive_key (detect (strict_build True)) [0x61];
               h \<leftarrow> h_updates h [[1], replicate 2000 2]; finalize h }"
  by (rule modes_one_shot_is_incremental) simp_all

text \<open>The \<open>Seek\<close> adapter: from any position, a relative seek before the start is an error, a
  seek past \<open>u64::MAX\<close> stops there, a seek from the end is refused, and otherwise the reader is at
  the target and reports it.\<close>

theorem reader_seek_saturates:
  assumes "pos < 2 ^ 64"
  shows "reader_seek (reader_at ou pos) (Seek_Current d)
      = (if int pos + d < 0 then Inl Seek_Before_Start
         else let target = min (nat (int pos + d)) (2 ^ 64 - 1) in Inr (reader_at ou target, of_nat target))
    \<and> reader_seek (reader_at ou pos) (Seek_End d) = Inl Seek_From_End
    \<and> reader_seek (reader_at ou pos) (Seek_Start x) = Inr (reader_at ou (unat x), x)"
proof -
  have u: "uint (of_nat pos :: u64) = int pos"
    using u64_of_nat_unat [OF assms] by (metis uint_nat)
  have go: "reader_set_position (reader_at ou pos) (of_int (min (int t) (2 ^ 64 - 1))) = reader_at ou (min t (2 ^ 64 - 1))" for t
  proof -
    have "min (int t) (2 ^ 64 - 1) = int (min t (2 ^ 64 - 1))" by (simp add: min_def)
    then have "(of_int (min (int t) (2 ^ 64 - 1)) :: u64) = of_nat (min t (2 ^ 64 - 1))" by (simp only: of_int_of_nat_eq)
    moreover have "min t (2 ^ 64 - 1) < 2 ^ 64" by (simp add: min_def)
    ultimately show ?thesis by (simp only: set_position_at)
  qed
  have at: "reader_position (reader_at ou (min t (2 ^ 64 - 1))) = of_nat (min t (2 ^ 64 - 1))" for t
    by (rule position_at) (simp add: min_def)
  have "reader_seek (reader_at ou pos) (Seek_Current d)
      = (if int pos + d < 0 then Inl Seek_Before_Start
         else let target = min (nat (int pos + d)) (2 ^ 64 - 1) in Inr (reader_at ou target, of_nat target))"
  proof (cases "int pos + d < 0")
    case True
    then show ?thesis by (simp add: reader_seek_def position_at [OF assms] u Let_def)
  next
    case False
    then obtain t where t: "int pos + d = int t" using nonneg_int_cases by (metis not_less)
    show ?thesis
      unfolding reader_seek_def Let_def seek_from.case position_at [OF assms] u t go at by simp
  qed
  moreover have "reader_seek (reader_at ou pos) (Seek_Start x) = Inr (reader_at ou (unat x), x)"
  proof -
    have "unat x < 2 ^ LENGTH(64)" by (rule unsigned_less)
    then have x: "unat x \<le> 2 ^ 64 - 1" by simp
    then have m: "min (unat x) (2 ^ 64 - 1) = unat x" by (rule min_absorb1)
    have "uint x = int (unat x)" by (metis uint_nat)
    then show ?thesis
      unfolding reader_seek_def Let_def seek_from.case
      using go [of "unat x"] at [of "unat x"] unfolding m by simp
  qed
  ultimately show ?thesis by (simp add: reader_seek_def)
qed

lemma reader_seek_saturates_witness:
  "reader_seek (reader_at (tree_output IV 0 (detect (strict_build True)) 0 []) 5) (Seek_Current (- 6)) = Inl Seek_Before_Start"
  using reader_seek_saturates [of 5 "tree_output IV 0 (detect (strict_build True)) 0 []" "- 6" 0] by simp

end
