(* ===== verification/Mem_Wipe.thy ===== *)
theory Mem_Wipe
  imports Siv_Prelude "HOL-Library.Monad_Syntax"
begin

section \<open>Volatile wiping of memory\<close>

text \<open>
  \<open>zeroize_raw\<close>, \<open>zeroize_slice\<close> and \<open>zeroize_array\<close> of \<open>src/lib.rs\<close> over a
  byte memory.  A store outside the buffer and a wide store at an unaligned address are
  undefined behaviour of the program and are \<open>None\<close>.  \<open>chunk\<close> is the size of
  \<open>usize\<close>, which the source asserts to be its alignment.
\<close>

type_synonym memory = "nat \<Rightarrow> u8"

text \<open>One volatile store of \<open>n\<close> zero bytes at \<open>a\<close>, allowed within \<open>[lo, hi)\<close>.\<close>

definition write_volatile :: "nat \<Rightarrow> nat \<Rightarrow> nat \<Rightarrow> nat \<Rightarrow> nat \<Rightarrow> memory \<Rightarrow> memory option" where
  "write_volatile lo hi align n a m =
     do {
       assert_that (lo \<le> a \<and> a + n \<le> hi \<and> a mod align = 0);
       Some (\<lambda>b. if a \<le> b \<and> b < a + n then 0 else m b)
     }"

text \<open>The three loops; \<open>addr_bits\<close> is where \<open>wrapping_add\<close> on the address wraps.\<close>

function zero_leading :: "nat \<Rightarrow> nat \<Rightarrow> nat \<Rightarrow> nat \<Rightarrow> nat \<Rightarrow> memory \<Rightarrow> (nat \<times> memory) option" where
  "zero_leading addr_bits chunk ptr len i m =
     (if i < len \<and> (ptr + i) mod 2 ^ addr_bits mod chunk \<noteq> 0 then
        do {
          m \<leftarrow> write_volatile ptr (ptr + len) 1 1 (ptr + i) m;
          zero_leading addr_bits chunk ptr len (i + 1) m
        }
      else Some (i, m))"
  by pat_completeness auto
termination
  by (relation "measure (\<lambda>(addr_bits, chunk, ptr, len, i, m). len - i)") auto

function zero_wide :: "nat \<Rightarrow> nat \<Rightarrow> nat \<Rightarrow> nat \<Rightarrow> memory \<Rightarrow> (nat \<times> memory) option" where
  "zero_wide chunk ptr len i m =
     (if 0 < chunk \<and> i \<le> len \<and> chunk \<le> len - i then
        do {
          m \<leftarrow> write_volatile ptr (ptr + len) chunk chunk (ptr + i) m;
          zero_wide chunk ptr len (i + chunk) m
        }
      else Some (i, m))"
  by pat_completeness auto
termination
  by (relation "measure (\<lambda>(chunk, ptr, len, i, m). len - i)") auto

function zero_trailing :: "nat \<Rightarrow> nat \<Rightarrow> nat \<Rightarrow> memory \<Rightarrow> memory option" where
  "zero_trailing ptr len i m =
     (if i < len then
        do {
          m \<leftarrow> write_volatile ptr (ptr + len) 1 1 (ptr + i) m;
          zero_trailing ptr len (i + 1) m
        }
      else Some m)"
  by pat_completeness auto
termination
  by (relation "measure (\<lambda>(ptr, len, i, m). len - i)") auto

declare zero_leading.simps [simp del] zero_wide.simps [simp del] zero_trailing.simps [simp del]

definition zeroize_raw :: "nat \<Rightarrow> nat \<Rightarrow> nat \<Rightarrow> nat \<Rightarrow> memory \<Rightarrow> memory option" where
  "zeroize_raw addr_bits chunk ptr len m =
     do {
       (i, m) \<leftarrow> zero_leading addr_bits chunk ptr len 0 m;
       (i, m) \<leftarrow> zero_wide chunk ptr len i m;
       zero_trailing ptr len i m
     }"

text \<open>A slice at an address, wiped in place and read back.\<close>

definition load_slice :: "nat \<Rightarrow> bytes \<Rightarrow> memory \<Rightarrow> memory" where
  "load_slice ptr xs m = (\<lambda>a. if ptr \<le> a \<and> a < ptr + length xs then xs ! (a - ptr) else m a)"

definition read_slice :: "nat \<Rightarrow> nat \<Rightarrow> memory \<Rightarrow> bytes" where
  "read_slice ptr n m = map (\<lambda>i. m (ptr + i)) [0..<n]"

definition zeroize_slice :: "nat \<Rightarrow> bytes \<Rightarrow> memory \<Rightarrow> (bytes \<times> memory) option" where
  "zeroize_slice ptr xs m =
     do {
       m \<leftarrow> zeroize_raw 64 8 ptr (length xs) (load_slice ptr xs m);
       Some (read_slice ptr (length xs) m, m)
     }"

text \<open>\<open>zeroize_array\<close> of an array of \<open>u32\<close> is the wipe of its bytes.\<close>

definition zeroize_words :: "nat \<Rightarrow> u32 list \<Rightarrow> memory \<Rightarrow> (u32 list \<times> memory) option" where
  "zeroize_words ptr ws m =
     do {
       (bs, m) \<leftarrow> zeroize_slice ptr (words_bytes ws) m;
       Some (le_words (length ws) bs, m)
     }"

subsection \<open>What the loops do\<close>

definition zeroed :: "nat \<Rightarrow> nat \<Rightarrow> memory \<Rightarrow> memory" where
  "zeroed ptr n m = (\<lambda>a. if ptr \<le> a \<and> a < ptr + n then 0 else m a)"

lemma zeroed_extend:
  "(\<lambda>b. if ptr + i \<le> b \<and> b < ptr + i + n then 0 else zeroed ptr i m b) = zeroed ptr (i + n) m"
  by (auto simp: zeroed_def fun_eq_iff)

lemma zeroed_0 [simp]: "zeroed ptr 0 m = m"
  by (auto simp: zeroed_def fun_eq_iff)

lemma write_zeroed:
  "i + n \<le> len \<Longrightarrow> (ptr + i) mod align = 0 \<Longrightarrow>
   write_volatile ptr (ptr + len) align n (ptr + i) (zeroed ptr i m) = Some (zeroed ptr (i + n) m)"
  by (simp add: write_volatile_def zeroed_extend)

lemma zero_leading_ok:
  assumes "ptr + len \<le> 2 ^ addr_bits" "0 < chunk"
  shows "i \<le> len \<Longrightarrow> \<exists>j. zero_leading addr_bits chunk ptr len i (zeroed ptr i m) = Some (j, zeroed ptr j m)
    \<and> i \<le> j \<and> j \<le> len \<and> (j = len \<or> (ptr + j) mod chunk = 0)"
proof (induction "len - i" arbitrary: i rule: less_induct)
  case less
  show ?case
  proof (cases "i < len \<and> (ptr + i) mod chunk \<noteq> 0")
    case True
    then have wrap: "(ptr + i) mod 2 ^ addr_bits = ptr + i" using assms by simp
    have smaller: "len - (i + 1) < len - i" "i + 1 \<le> len" using True by linarith+
    from less.hyps [OF this] obtain j where j:
      "zero_leading addr_bits chunk ptr len (i + 1) (zeroed ptr (i + 1) m) = Some (j, zeroed ptr j m)"
      "i + 1 \<le> j" "j \<le> len" "j = len \<or> (ptr + j) mod chunk = 0"
      by (elim exE conjE)
    have "zero_leading addr_bits chunk ptr len i (zeroed ptr i m) = Some (j, zeroed ptr j m)"
      using True write_zeroed [OF smaller(2), of ptr 1 m]
      by (subst zero_leading.simps) (simp only: wrap j(1) if_True bind.bind_lunit mod_by_1 simp_thms)
    then show ?thesis using j by auto
  next
    case False
    then have "\<not> (i < len \<and> (ptr + i) mod 2 ^ addr_bits mod chunk \<noteq> 0)"
      using assms by (cases "i < len") simp_all
    then have "zero_leading addr_bits chunk ptr len i (zeroed ptr i m) = Some (i, zeroed ptr i m)"
      by (subst zero_leading.simps) (simp only: if_False)
    then show ?thesis using False less.prems by auto
  qed
qed

lemma zero_wide_ok:
  assumes "0 < chunk"
  shows "i \<le> len \<Longrightarrow> i = len \<or> (ptr + i) mod chunk = 0 \<Longrightarrow>
    \<exists>j. zero_wide chunk ptr len i (zeroed ptr i m) = Some (j, zeroed ptr j m) \<and> j \<le> len"
proof (induction "len - i" arbitrary: i rule: less_induct)
  case less
  show ?case
  proof (cases "chunk \<le> len - i")
    case True
    then have al: "(ptr + i) mod chunk = 0" "(ptr + (i + chunk)) mod chunk = 0"
      using less.prems assms by (auto simp: add.assoc [symmetric])
    have smaller: "len - (i + chunk) < len - i" "i + chunk \<le> len" using True less.prems assms by linarith+
    from less.hyps [OF this disjI2 [OF al(2)]] obtain j
      where j: "zero_wide chunk ptr len (i + chunk) (zeroed ptr (i + chunk) m) = Some (j, zeroed ptr j m)" "j \<le> len"
      by (elim exE conjE)
    have "zero_wide chunk ptr len i (zeroed ptr i m) = Some (j, zeroed ptr j m)"
      using True assms less.prems write_zeroed [OF smaller(2) al(1), of m]
      by (subst zero_wide.simps) (simp only: j(1) if_True bind.bind_lunit simp_thms)
    then show ?thesis using j by blast
  next
    case False
    then show ?thesis using less.prems by (subst zero_wide.simps) auto
  qed
qed

lemma zero_trailing_ok: "i \<le> len \<Longrightarrow> zero_trailing ptr len i (zeroed ptr i m) = Some (zeroed ptr len m)"
proof (induction "len - i" arbitrary: i)
  case 0
  then show ?case by (simp add: zero_trailing.simps)
next
  case (Suc n)
  then have "zero_trailing ptr len (i + 1) (zeroed ptr (i + 1) m) = Some (zeroed ptr len m)" by simp
  then show ?case
    using Suc by (subst zero_trailing.simps) (simp add: write_volatile_def zeroed_extend [where n = 1, simplified])
qed

lemma zeroize_raw_ok:
  assumes "ptr + len \<le> 2 ^ addr_bits" "0 < chunk"
  shows "zeroize_raw addr_bits chunk ptr len m = Some (zeroed ptr len m)"
proof -
  obtain i where i: "zero_leading addr_bits chunk ptr len 0 m = Some (i, zeroed ptr i m)" "i \<le> len"
    "i = len \<or> (ptr + i) mod chunk = 0"
    using zero_leading_ok [OF assms, of 0 m] by auto
  obtain j where "zero_wide chunk ptr len i (zeroed ptr i m) = Some (j, zeroed ptr j m)" "j \<le> len"
    using zero_wide_ok [OF assms(2) i(2,3)] by blast
  with i show ?thesis by (simp add: zeroize_raw_def zero_trailing_ok)
qed

lemma zeroize_slice_ok:
  assumes "ptr + length xs \<le> 2 ^ 64"
  shows "zeroize_slice ptr xs m = Some (wiped xs, zeroed ptr (length xs) m)"
proof -
  have "zeroed ptr (length xs) (load_slice ptr xs m) = zeroed ptr (length xs) m"
    by (auto simp: zeroed_def load_slice_def)
  moreover have "read_slice ptr (length xs) (zeroed ptr (length xs) m) = wiped xs"
    by (rule nth_equalityI) (auto simp: read_slice_def zeroed_def wiped_def)
  ultimately show ?thesis using assms by (simp add: zeroize_slice_def zeroize_raw_ok)
qed

lemma length_read_slice [simp, len_simps]: "length (read_slice a n m) = n"
  by (simp add: read_slice_def)

lemma nth_read_slice [simp]: "i < n \<Longrightarrow> read_slice a n m ! i = m (a + i)"
  by (simp add: read_slice_def)

lemma read_load_same [simp]: "length xs = n \<Longrightarrow> read_slice a n (load_slice a xs m) = xs"
  by (rule nth_equalityI) (simp_all add: load_slice_def)

lemma read_load_other: "a + n \<le> c \<or> c + length xs \<le> a \<Longrightarrow> read_slice a n (load_slice c xs m) = read_slice a n m"
  by (rule nth_equalityI) (auto simp: load_slice_def)

subsection \<open>Properties\<close>

text \<open>C20. The wipe of any buffer at any address, aligned or not, makes exactly the buffer's bytes
  zero: no byte before the first aligned word or after the last one is missed, no store leaves the
  buffer or is unaligned, and the rest of the memory is untouched.\<close>

theorem zeroize_raw_wipes_exactly:
  assumes "ptr + len \<le> 2 ^ addr_bits" and "0 < chunk"
  shows "\<exists>m'. zeroize_raw addr_bits chunk ptr len m = Some m'
    \<and> (\<forall>a. m' a = (if ptr \<le> a \<and> a < ptr + len then 0 else m a))"
  using assms by (simp add: zeroize_raw_ok zeroed_def)

lemma zeroize_raw_wipes_exactly_witness:
  "\<exists>m'. zeroize_raw 64 8 13 21 (\<lambda>a. 7) = Some m' \<and> (\<forall>a. m' a = (if 13 \<le> a \<and> a < 13 + 21 then 0 else 7))"
  by (rule zeroize_raw_wipes_exactly) simp_all

end
