(* ===== verification/Siv_Kdf.thy ===== *)
theory Siv_Kdf
  imports ChaCha_Stream Blake3_Api Mem_Wipe
begin

section \<open>Key derivation and the two-level tag\<close>

text \<open>
  \<open>derive_material\<close>, \<open>blake3_keyed_multi\<close>, \<open>derive_tag\<close> and \<open>derive_enc\<close> of
  \<open>src/lib.rs\<close> with the constants of the wire format.  A function returns, next to its
  value, its residue: what its named buffers hold when it returns, after the wipes of the
  source.  The build (cargo features, target, BLAKE3 platform) and the allocator are the record
  \<open>siv_env\<close>; \<open>k\<close> counts the requests made to the allocator.
\<close>

record siv_env =
  hardened :: bool
  dual_mac :: bool
  ultra :: bool
  siv_target :: target
  siv_platform :: platform
  siv_alloc :: allocator

text \<open>The \<open>compile_error!\<close> on the features, and the contract of the BLAKE3 back end.\<close>

definition features_ok :: "siv_env \<Rightarrow> bool" where
  "features_ok E \<longleftrightarrow> (dual_mac E \<or> ultra E \<longrightarrow> hardened E)"

definition env_ok :: "siv_env \<Rightarrow> bool" where
  "env_ok E \<longleftrightarrow> features_ok E \<and> platform_ok (siv_platform E)"

text \<open>A build with strict kernels, for any features and allocator: it shows the contract can hold.\<close>

definition strict_env :: "bool \<Rightarrow> bool \<Rightarrow> bool \<Rightarrow> allocator \<Rightarrow> siv_env" where
  "strict_env hard dual ult al =
     \<lparr>hardened = hard, dual_mac = dual, ultra = ult, siv_target = X86_64 hard,
      siv_platform = detect (strict_build hard), siv_alloc = al\<rparr>"

lemma strict_env_ok [simp]: "(dual \<or> ult \<longrightarrow> hard) \<Longrightarrow> env_ok (strict_env hard dual ult al)"
  by (simp add: env_ok_def features_ok_def strict_env_def)

lemma strict_env_alloc [simp]: "siv_alloc (strict_env hard dual ult al) = al"
  by (simp add: strict_env_def)

definition KEY_LEN :: nat where "KEY_LEN = 32"
definition TAG_LEN :: nat where "TAG_LEN = 65"
definition NONCE_LEN :: nat where "NONCE_LEN = 24"
definition MAX_MSG_SIZE :: nat where "MAX_MSG_SIZE = 2 ^ 38"

text \<open>The ASCII strings \<open>XSIV\<close>, \<open>XSIV-PRE\<close>, \<open>XSIV-TAG\<close> and \<open>XSIV-ENC\<close>.\<close>

definition SUBKEY_DOMAIN :: bytes where "SUBKEY_DOMAIN = [0x58, 0x53, 0x49, 0x56]"
definition DOM_PRE :: bytes where "DOM_PRE = [0x58, 0x53, 0x49, 0x56, 0x2D, 0x50, 0x52, 0x45]"
definition DOM_TAG :: bytes where "DOM_TAG = [0x58, 0x53, 0x49, 0x56, 0x2D, 0x54, 0x41, 0x47]"
definition DOM_ENC :: bytes where "DOM_ENC = [0x58, 0x53, 0x49, 0x56, 0x2D, 0x45, 0x4E, 0x43]"

definition TAG_CONCAT_LIMIT :: nat where "TAG_CONCAT_LIMIT = 65536"
definition TAG_CONCAT_MIN :: nat where "TAG_CONCAT_MIN = 2048"

lemma domain_lengths [simp, len_simps]:
  "length SUBKEY_DOMAIN = 4" "length DOM_PRE = 8" "length DOM_TAG = 8" "length DOM_ENC = 8"
  by (simp_all add: SUBKEY_DOMAIN_def DOM_PRE_def DOM_TAG_def DOM_ENC_def)

subsection \<open>The seam to BLAKE3\<close>

definition blake3_keyed_multi :: "siv_env \<Rightarrow> bytes \<Rightarrow> bytes list \<Rightarrow> nat \<Rightarrow> (bytes \<times> bytes list) option" where
  "blake3_keyed_multi E key parts n =
     do {
       hasher \<leftarrow> h_updates (new_keyed (siv_platform E) key) parts;
       reader \<leftarrow> finalize_xof hasher;
       (reader, out) \<leftarrow> reader_fill reader n;
       let reader = reader_zeroize reader;
       let hasher = hasher_zeroize hasher;
       Some (out, [reader_bytes reader, hasher_bytes hasher])
     }"

definition blake3_keyed_xof :: "siv_env \<Rightarrow> bytes \<Rightarrow> bytes \<Rightarrow> nat \<Rightarrow> (bytes \<times> bytes list) option" where
  "blake3_keyed_xof E key data n = blake3_keyed_multi E key [data] n"

subsection \<open>The derivations\<close>

definition derive_material :: "siv_env \<Rightarrow> bytes \<Rightarrow> bytes \<Rightarrow> ((bytes \<times> bytes \<times> bytes) \<times> bytes list) option" where
  "derive_material E key nonce =
     do {
       let subkey = hchacha20_into key (subslice 0 16 nonce);
       let subkey_nonce = replicate 12 0;
       let subkey_nonce = put_slice 0 SUBKEY_DOMAIN subkey_nonce;
       let subkey_nonce = put_slice 4 (subslice 16 24 nonce) subkey_nonce;
       block0 \<leftarrow> chacha20_keystream_raw (siv_target E) subkey 0 subkey_nonce (replicate 64 0);
       block1 \<leftarrow> chacha20_keystream_raw (siv_target E) subkey 1 subkey_nonce (replicate 64 0);
       let k_in = subslice 0 32 block0;
       let k_out = subslice 32 64 block0;
       let enc_seed = subslice 0 32 block1;
       Some ((k_in, k_out, enc_seed), [wiped subkey, wiped subkey_nonce, wiped block0, wiped block1])
     }"

text \<open>\<open>usize\<close> is 64 bits wide.\<close>

definition checked_add :: "nat \<Rightarrow> nat \<Rightarrow> nat option" where
  "checked_add a b = (if a + b < 2 ^ 64 then Some (a + b) else None)"

definition tag_head :: "bytes \<Rightarrow> bytes \<Rightarrow> bytes \<Rightarrow> bytes" where
  "tag_head nonce aad msg =
     (let head = replicate (8 + NONCE_LEN + 16) 0;
          head = put_slice 0 DOM_PRE head;
          head = put_slice 8 nonce head;
          head = put_slice (8 + NONCE_LEN) (u64_bytes (of_nat (length aad))) head;
          head = put_slice (16 + NONCE_LEN) (u64_bytes (of_nat (length msg))) head
      in head)"

definition concat_window :: "bytes \<Rightarrow> bytes \<Rightarrow> bytes \<Rightarrow> nat option" where
  "concat_window head aad msg =
     do {
       t \<leftarrow> checked_add (length head) (length aad);
       t \<leftarrow> checked_add t (length msg);
       (if TAG_CONCAT_MIN \<le> t \<and> t \<le> TAG_CONCAT_LIMIT then Some t else None)
     }"

definition derive_tag ::
  "siv_env \<Rightarrow> nat \<Rightarrow> bytes \<Rightarrow> bytes \<Rightarrow> bytes \<Rightarrow> bytes \<Rightarrow> bytes \<Rightarrow> (bytes \<times> bytes list \<times> nat) option"
where
  "derive_tag E k k_in k_out nonce aad msg =
     do {
       let head = tag_head nonce aad msg;
       (inner, res, k) \<leftarrow>
         (case concat_window head aad msg of
            Some n \<Rightarrow>
              (case try_reserve_exact (siv_alloc E) k n of
                 (True, k) \<Rightarrow> do {
                   let cat = head @ aad @ msg;
                   (inner, r) \<leftarrow> blake3_keyed_multi E k_in [cat] 32;
                   Some (inner, r @ [wiped cat], k)
                 }
               | (False, k) \<Rightarrow> do {
                   (inner, r) \<leftarrow> blake3_keyed_multi E k_in [head, aad, msg] 32;
                   Some (inner, r, k)
                 })
          | None \<Rightarrow> do {
              (inner, r) \<leftarrow> blake3_keyed_multi E k_in [head, aad, msg] 32;
              Some (inner, r, k)
            });
       let outer = put_slice 8 inner (put_slice 0 DOM_TAG (replicate (8 + 32) 0));
       (tag, r) \<leftarrow> blake3_keyed_multi E k_out [outer] TAG_LEN;
       Some (tag, res @ r @ [wiped inner, wiped outer], k)
     }"

definition derive_enc :: "siv_env \<Rightarrow> bytes \<Rightarrow> bytes \<Rightarrow> ((bytes \<times> bytes) \<times> bytes list) option" where
  "derive_enc E enc_seed tag =
     do {
       let inp = put_slice 8 tag (put_slice 0 DOM_ENC (replicate (8 + TAG_LEN) 0));
       (material, r) \<leftarrow> blake3_keyed_xof E enc_seed inp 44;
       let enc_key = subslice 0 32 material;
       let enc_nonce = subslice 32 44 material;
       Some ((enc_key, enc_nonce), r @ [wiped material, wiped inp])
     }"

subsection \<open>The construction as a specification\<close>

text \<open>
  The wire format over the two primitives as functions: the ChaCha20 key stream and keyed
  BLAKE3 of a whole input.
\<close>

definition spec_material :: "bytes \<Rightarrow> bytes \<Rightarrow> bytes \<times> bytes \<times> bytes" where
  "spec_material key nonce =
     (let subkey = hchacha20_into key (take 16 nonce);
          block = \<lambda>c. chacha20_stream subkey c (SUBKEY_DOMAIN @ drop 16 nonce) 64
      in (take 32 (block 0), drop 32 (block 0), take 32 (block 1)))"

definition spec_head :: "bytes \<Rightarrow> bytes \<Rightarrow> bytes \<Rightarrow> bytes" where
  "spec_head nonce aad msg =
     DOM_PRE @ nonce @ u64_bytes (of_nat (length aad)) @ u64_bytes (of_nat (length msg)) @ aad @ msg"

definition spec_tag :: "bytes \<Rightarrow> bytes \<Rightarrow> bytes \<Rightarrow> bytes \<Rightarrow> bytes \<Rightarrow> bytes" where
  "spec_tag k_in k_out nonce aad msg =
     keyed_stream k_out (DOM_TAG @ keyed_stream k_in (spec_head nonce aad msg) 32) TAG_LEN"

definition spec_enc :: "bytes \<Rightarrow> bytes \<Rightarrow> bytes \<times> bytes" where
  "spec_enc enc_seed tag =
     (let material = keyed_stream enc_seed (DOM_ENC @ tag) 44 in (take 32 material, drop 32 material))"

subsection \<open>A keyed XOF that only sees the concatenation\<close>

text \<open>
  What the construction needs of a keyed extendable-output hash in an admissible environment: on
  a 32-byte key, fed in parts of fewer than \<open>2^64\<close> bytes in all, it returns a prefix of one
  stream that depends on the concatenation of the parts only, and leaves clean buffers behind.
\<close>

locale keyed_xof =
  fixes ok :: "'e \<Rightarrow> bool"
    and xof :: "'e \<Rightarrow> bytes \<Rightarrow> bytes list \<Rightarrow> nat \<Rightarrow> (bytes \<times> bytes list) option"
    and stream :: "bytes \<Rightarrow> bytes \<Rightarrow> nat \<Rightarrow> bytes"
  assumes xof_stream: "ok e \<Longrightarrow> length key = 32 \<Longrightarrow> length (concat parts) < 2 ^ 64 \<Longrightarrow>
      \<exists>res. xof e key parts n = Some (stream key (concat parts) n, res) \<and> clean res"
    and stream_prefix: "m \<le> n \<Longrightarrow> take m (stream key inp n) = stream key inp m"
    and stream_length: "length (stream key inp n) = n"
begin

lemma cuts_agree:
  assumes "ok e" "ok e'" "length key = 32" "concat parts = concat parts'" "length (concat parts) < 2 ^ 64"
  shows "map_option fst (xof e key parts n) = map_option fst (xof e' key parts' n)"
  using xof_stream [OF assms(1,3), of parts n] xof_stream [OF assms(2,3), of parts' n] assms(4,5) by auto

lemma short_output_is_prefix:
  assumes "ok e" "length key = 32" "length (concat parts) < 2 ^ 64" "m \<le> n"
  shows "map_option fst (xof e key parts m) = map_option (take m \<circ> fst) (xof e key parts n)"
  using xof_stream [OF assms(1-3), of m] xof_stream [OF assms(1-3), of n] stream_prefix [OF assms(4)] by auto

lemma two_level:
  assumes "ok e" "length k_in = 32" "length k_out = 32" "length (concat parts) < 2 ^ 64" "length sep = 8"
  shows "\<exists>r r'. xof e k_in parts 32 = Some (stream k_in (concat parts) 32, r)
    \<and> xof e k_out [put_slice 8 (stream k_in (concat parts) 32) (put_slice 0 sep (replicate 40 0))] m
        = Some (stream k_out (sep @ stream k_in (concat parts) 32) m, r')
    \<and> clean r \<and> clean r'"
proof -
  have "put_slice 8 (stream k_in (concat parts) 32) (put_slice 0 sep (replicate 40 0)) = sep @ stream k_in (concat parts) 32"
    using assms(5) stream_length by (simp add: put_slice_def)
  moreover have "length (concat [sep @ stream k_in (concat parts) 32]) < 2 ^ 64"
    using assms(5) stream_length by simp
  ultimately show ?thesis
    using xof_stream [OF assms(1,2,4), of 32] xof_stream [OF assms(1,3), of "[sep @ stream k_in (concat parts) 32]" m] by auto
qed

end

lemma keyed_stream_prefix: "m \<le> n \<Longrightarrow> take m (keyed_stream key inp n) = keyed_stream key inp m"
  by (simp add: keyed_stream_def blake3_stream_def take_map take_upt)

lemma all_zero_subset: "set xs \<subseteq> {0} \<Longrightarrow> all_zero xs"
  by (auto simp: all_zero_def)

lemma blake3_keyed_multi_ok:
  assumes "platform_ok (siv_platform E)" "length key = 32" "length (concat parts) < 2 ^ 64"
  shows "\<exists>res. blake3_keyed_multi E key parts n = Some (keyed_stream key (concat parts) n, res) \<and> clean res"
proof -
  let ?key = "words_from_le_bytes_32 key" and ?p = "siv_platform E"
  have key: "length ?key = 8" by (simp add: words_from_le_bytes_32_def)
  obtain h where h: "h_updates (new_keyed ?p key) parts = Some h" "absorbed ?key KEYED_HASH ?p h (concat parts)"
    using h_updates_ok [OF assms(1) key new_internal_absorbed, of parts KEYED_HASH] assms(3)
    by (auto simp: new_keyed_def)
  have fin: "finalize_xof h = Some (reader_at (tree_output ?key KEYED_HASH ?p 0 (concat parts)) 0)"
    by (rule finalize_xof_ok [OF assms(1) key h(2)])
  then obtain r where
    "reader_fill (reader_at (tree_output ?key KEYED_HASH ?p 0 (concat parts)) 0) n = Some (r, keyed_stream key (concat parts) n)"
    using finalize_fill_ok [OF assms(1) key h(2), of n] by (simp add: keyed_stream_eq)
  then show ?thesis
    using h(1) fin by (simp add: blake3_keyed_multi_def all_zero_subset hasher_zeroize_bytes reader_zeroize_bytes)
qed

interpretation fork: keyed_xof env_ok blake3_keyed_multi keyed_stream
  by unfold_locales (simp_all add: blake3_keyed_multi_ok env_ok_def keyed_stream_prefix)

subsection \<open>The derivations follow the specification\<close>

lemma tag_head_eq:
  "length nonce = 24 \<Longrightarrow> concat [tag_head nonce aad msg, aad, msg] = spec_head nonce aad msg"
  by (simp add: tag_head_def spec_head_def NONCE_LEN_def put_slice_def)

lemma derive_material_ok:
  assumes "length key = 32" "length nonce = 24"
  shows "\<exists>res. derive_material E key nonce = Some (spec_material key nonce, res) \<and> clean res"
proof -
  have "put_slice 4 (subslice 16 24 nonce) (put_slice 0 SUBKEY_DOMAIN (replicate 12 0)) = SUBKEY_DOMAIN @ drop 16 nonce"
    using assms(2) by (simp add: put_slice_def subslice_def)
  then show ?thesis
    using assms by (simp add: derive_material_def spec_material_def chacha20_keystream_raw_correct subslice_def Let_def)
qed

lemma derive_tag_ok:
  assumes E: "env_ok E" and len: "length k_in = 32" "length k_out = 32" "length nonce = 24"
    and small: "length aad + length msg < 2 ^ 63"
  shows "\<exists>res k'. derive_tag E k k_in k_out nonce aad msg = Some (spec_tag k_in k_out nonce aad msg, res, k') \<and> clean res"
proof -
  let ?head = "tag_head nonce aad msg" and ?X = "keyed_stream k_in (spec_head nonce aad msg) 32"
  note head = tag_head_eq [OF len(3), of aad msg]
  have "length (spec_head nonce aad msg) < 2 ^ 64" using small len(3) by (simp add: spec_head_def)
  then have parts: "length (concat [?head, aad, msg]) < 2 ^ 64" "length (concat [?head @ aad @ msg]) < 2 ^ 64"
    unfolding head [symmetric] by simp_all
  obtain r r' where three: "blake3_keyed_multi E k_in [?head, aad, msg] 32 = Some (?X, r)" "clean r"
    "blake3_keyed_multi E k_out [put_slice 8 ?X (put_slice 0 DOM_TAG (replicate 40 0))] TAG_LEN
        = Some (spec_tag k_in k_out nonce aad msg, r')" "clean r'"
    using fork.two_level [OF E len(1,2) parts(1), of DOM_TAG TAG_LEN] unfolding head spec_tag_def by auto
  have "concat [?head @ aad @ msg] = spec_head nonce aad msg" using head by simp
  then obtain r'' where one: "blake3_keyed_multi E k_in [?head @ aad @ msg] 32 = Some (?X, r'')" "clean r''"
    using fork.xof_stream [OF E len(1) parts(2), of 32] by auto
  show ?thesis
    unfolding derive_tag_def using three one
    by (auto simp: Let_def split: option.splits prod.splits bool.splits)
qed

lemma derive_enc_ok:
  assumes "env_ok E" "length enc_seed = 32" "length tag = 65"
  shows "\<exists>res. derive_enc E enc_seed tag = Some (spec_enc enc_seed tag, res) \<and> clean res"
proof -
  have "put_slice 8 tag (put_slice 0 DOM_ENC (replicate (8 + TAG_LEN) 0)) = DOM_ENC @ tag"
    using assms(3) by (simp add: put_slice_def TAG_LEN_def)
  then show ?thesis
    using fork.xof_stream [OF assms(1,2), of "[DOM_ENC @ tag]" 44] assms(3)
    by (auto simp: derive_enc_def blake3_keyed_xof_def spec_enc_def subslice_def Let_def)
qed

subsection \<open>Lengths\<close>

lemma spec_lengths:
  "spec_material key nonce = (k_in, k_out, enc_seed) \<Longrightarrow> length k_in = 32 \<and> length k_out = 32 \<and> length enc_seed = 32"
  "spec_enc seed tag = (enc_key, enc_nonce) \<Longrightarrow> length enc_key = 32 \<and> length enc_nonce = 12"
  by (auto simp: spec_material_def spec_enc_def Let_def)

lemma length_spec_tag [simp, len_simps]: "length (spec_tag k_in k_out nonce aad msg) = 65"
  by (simp add: spec_tag_def TAG_LEN_def)

end
