(* ===== verification/Siv_Gates.thy ===== *)
theory Siv_Gates
  imports Siv_Kdf
begin

section \<open>The acceptance gates\<close>

text \<open>
  The decision of \<open>src/lib.rs\<close>: the comparison by words (\<open>ct_eq_independent\<close>), the
  second gate, the two recomputed gates and \<open>accept_or_reject\<close> with its two outcome slots.
  \<open>subtle::Choice\<close> is a boolean and its \<open>&\<close> the conjunction; timing is not modelled.
\<close>

datatype siv_error = MessageTooLong | AadTooLong | AllocationFailed | AuthenticationFailed

function ct_words :: "bytes \<Rightarrow> bytes \<Rightarrow> nat \<Rightarrow> u64 \<Rightarrow> nat \<times> u64" where
  "ct_words a b i acc =
     (if i + 8 \<le> TAG_LEN then
        (let x = le_word (subslice i (i + 8) a) XOR le_word (subslice i (i + 8) b)
         in ct_words a b (i + 8) (acc OR x))
      else (i, acc))"
  by pat_completeness auto
termination
  by (relation "measure (\<lambda>(a, b, i, acc). TAG_LEN - i)") auto

function ct_bytes :: "bytes \<Rightarrow> bytes \<Rightarrow> nat \<Rightarrow> u64 \<Rightarrow> u64" where
  "ct_bytes a b i acc =
     (if i < TAG_LEN then ct_bytes a b (i + 1) (acc OR ucast (a ! i XOR b ! i)) else acc)"
  by pat_completeness auto
termination
  by (relation "measure (\<lambda>(a, b, i, acc). TAG_LEN - i)") auto

declare ct_words.simps [simp del] ct_bytes.simps [simp del]

definition ct_eq_independent :: "bytes \<Rightarrow> bytes \<Rightarrow> bool" where
  "ct_eq_independent a b = (case ct_words a b 0 0 of (i, acc) \<Rightarrow> ct_bytes a b i acc = 0)"

definition second_gate_comparison :: "bytes \<Rightarrow> bytes \<Rightarrow> bool" where
  "second_gate_comparison a b =
     (let plain = (ct_eq a b \<and> ct_eq b a);
          also_eq = ct_eq_independent a b
      in plain \<and> also_eq)"

text \<open>
  The block \<open>let gates = ...\<close> of the two decrypting entry points, and the single comparison
  of the build without \<open>hardened\<close>; the copies of the tags are the residue.
\<close>

definition gates :: "siv_env \<Rightarrow> bytes \<Rightarrow> bytes \<Rightarrow> bytes \<Rightarrow> bool \<Rightarrow> (bool \<times> bool) \<times> bytes list" where
  "gates E computed_tag recomputed_tag tag witness_ok =
     (if hardened E then
        (let first = (ct_eq computed_tag tag \<and> ct_eq tag computed_tag);
             computed_tag_copy = computed_tag;
             tag_copy = tag;
             gate_pair = (second_gate_comparison computed_tag_copy tag_copy \<and> witness_ok);
             second = (if dual_mac E
                       then gate_pair \<and> ct_eq recomputed_tag computed_tag \<and> ct_eq recomputed_tag tag
                       else gate_pair)
         in ((first, second), [wiped computed_tag_copy, wiped tag_copy]))
      else (let auth_ok = ct_eq computed_tag tag in ((auth_ok, auth_ok), [])))"

type_synonym outcome = "siv_error + unit"

definition accept_or_reject :: "siv_env \<Rightarrow> bool \<Rightarrow> bool \<Rightarrow> outcome \<times> outcome \<Rightarrow> outcome \<times> outcome" where
  "accept_or_reject E gate0 gate1 outs =
     (case outs of (out0, out1) \<Rightarrow>
        if gate0 then
          (let out0 = Inr ()
           in if hardened E
              then (if gate1 then (out0, Inr ()) else (out0, Inl AuthenticationFailed))
              else (out0, out0))
        else (Inl AuthenticationFailed, out1))"

text \<open>The slots as every caller initialises them.\<close>

definition rejections :: "outcome \<times> outcome" where
  "rejections = (Inl AuthenticationFailed, Inl AuthenticationFailed)"

fun is_err :: "outcome \<Rightarrow> bool" where
  "is_err (Inl _) = True"
| "is_err (Inr _) = False"

text \<open>The two checks in series of the callers.\<close>

definition accepted :: "outcome \<times> outcome \<Rightarrow> bool" where
  "accepted d = (if is_err (fst d) then False else if is_err (snd d) then False else True)"

subsection \<open>The comparison by words is equality\<close>

lemma le_word_inject: "length a = 8 \<Longrightarrow> length b = 8 \<Longrightarrow> (le_word a :: u64) = le_word b \<longleftrightarrow> a = b"
proof -
  assume l: "length a = 8" "length b = 8"
  have "le_bytes 8 (le_word a :: u64) = a" "le_bytes 8 (le_word b :: u64) = b"
    using le_bytes_le_word [of a, where 'a = 64] le_bytes_le_word [of b, where 'a = 64] l by simp_all
  then show ?thesis by metis
qed

lemma take_slice: "i + n \<le> length a \<Longrightarrow> take (i + n) a = take i a @ subslice i (i + n) a"
  by (simp add: subslice_def take_add)

lemma ct_words_prefix:
  assumes "length a = 65" "length b = 65"
  shows "i \<le> 65 \<Longrightarrow> acc = 0 \<longleftrightarrow> take i a = take i b \<Longrightarrow>
    \<exists>j acc'. ct_words a b i acc = (j, acc') \<and> j \<le> 65 \<and> (acc' = 0 \<longleftrightarrow> take j a = take j b)"
proof (induction "65 - i" arbitrary: i acc rule: less_induct)
  case less
  show ?case
  proof (cases "i + 8 \<le> 65")
    case True
    let ?x = "le_word (subslice i (i + 8) a) XOR le_word (subslice i (i + 8) b) :: u64"
    have "?x = 0 \<longleftrightarrow> subslice i (i + 8) a = subslice i (i + 8) b"
      using True assms by (simp add: word_xor_eq_0_iff le_word_inject)
    then have "acc OR ?x = 0 \<longleftrightarrow> take (i + 8) a = take (i + 8) b"
      using less.prems True assms by (simp add: word_or_eq_0_iff take_slice)
    moreover have "65 - (i + 8) < 65 - i" using True by linarith
    ultimately show ?thesis
      using less.hyps [of "i + 8" "acc OR ?x"] True
      unfolding ct_words.simps [of a b i acc] by (simp add: TAG_LEN_def Let_def)
  next
    case False
    then show ?thesis using less.prems by (subst ct_words.simps) (simp add: TAG_LEN_def)
  qed
qed

lemma ucast_xor_eq_0: "(ucast (x XOR y :: u8) :: u64) = 0 \<longleftrightarrow> x = y"
proof -
  have "(ucast w :: u64) = 0 \<longleftrightarrow> w = 0" for w :: u8
    using bit_imp_le_length [of w] by (force simp: bit_eq_iff bit_ucast_iff)
  then show ?thesis by (simp add: word_xor_eq_0_iff)
qed

lemma ct_bytes_prefix:
  assumes "length a = 65" "length b = 65"
  shows "i \<le> 65 \<Longrightarrow> acc = 0 \<longleftrightarrow> take i a = take i b \<Longrightarrow> ct_bytes a b i acc = 0 \<longleftrightarrow> a = b"
proof (induction "65 - i" arbitrary: i acc)
  case 0
  then show ?case using assms by (subst ct_bytes.simps) (simp add: TAG_LEN_def)
next
  case (Suc n)
  then have i: "i < 65" by simp
  have "acc OR ucast (a ! i XOR b ! i) = 0 \<longleftrightarrow> take (i + 1) a = take (i + 1) b"
    using Suc.prems i assms by (simp add: word_or_eq_0_iff ucast_xor_eq_0 take_Suc_conv_app_nth)
  then have "ct_bytes a b (i + 1) (acc OR ucast (a ! i XOR b ! i)) = 0 \<longleftrightarrow> a = b"
    using Suc.hyps(1) [of "i + 1"] Suc.hyps(2) i by simp
  then show ?case using i by (subst ct_bytes.simps) (simp add: TAG_LEN_def)
qed

lemma ct_eq_independent_iff:
  assumes "length a = 65" "length b = 65"
  shows "ct_eq_independent a b \<longleftrightarrow> a = b"
proof -
  obtain j acc where "ct_words a b 0 0 = (j, acc)" "j \<le> 65" "acc = 0 \<longleftrightarrow> take j a = take j b"
    using ct_words_prefix [OF assms, of 0 0] by auto
  then show ?thesis using ct_bytes_prefix [OF assms] by (simp add: ct_eq_independent_def)
qed

lemma second_gate_iff: "length a = 65 \<Longrightarrow> length b = 65 \<Longrightarrow> second_gate_comparison a b \<longleftrightarrow> a = b"
  by (auto simp: second_gate_comparison_def ct_eq_independent_iff)

lemma gates_clean [simp]: "gates E c r t w = (g, res) \<Longrightarrow> clean res"
  by (auto simp: gates_def Let_def split: if_splits)

lemma accepted_iff:
  "accepted (accept_or_reject E gate0 gate1 rejections) \<longleftrightarrow> gate0 \<and> (hardened E \<longrightarrow> gate1)"
  by (simp add: accepted_def accept_or_reject_def rejections_def Let_def)

lemma gates_iff:
  assumes "length computed = 65" "length tag = 65" "dual_mac E \<Longrightarrow> recomputed = computed"
  shows "accepted (accept_or_reject E (fst (fst (gates E computed recomputed tag w))) (snd (fst (gates E computed recomputed tag w))) rejections)
    \<longleftrightarrow> computed = tag \<and> (hardened E \<longrightarrow> w)"
  using assms by (auto simp: accepted_iff gates_def second_gate_iff Let_def)

subsection \<open>Properties\<close>

text \<open>The second comparison, eight bytes at a time with a tail, is equality of the whole tags:
  no byte of the 65 is left out.\<close>

theorem ct_eq_independent_is_equality:
  assumes "length a = TAG_LEN" and "length b = TAG_LEN"
  shows "ct_eq_independent a b \<longleftrightarrow> a = b"
  using assms by (simp add: TAG_LEN_def ct_eq_independent_iff)

lemma ct_eq_independent_is_equality_witness:
  "ct_eq_independent (replicate 64 3 @ [1]) (replicate 64 3 @ [2]) \<longleftrightarrow> replicate 64 3 @ [1] = (replicate 64 3 @ [2] :: bytes)"
  by (rule ct_eq_independent_is_equality) (simp_all add: TAG_LEN_def)

text \<open>C12. In every build the decision accepts exactly when the computed tag is the received one and,
  in the builds with the gates, the witness agrees.\<close>

theorem decision_is_tag_equality:
  assumes "length computed = TAG_LEN" and "length tag = TAG_LEN" and "dual_mac E \<Longrightarrow> recomputed = computed"
    and "gates E computed recomputed tag witness_ok = ((gate0, gate1), res)"
  shows "accepted (accept_or_reject E gate0 gate1 rejections) \<longleftrightarrow> computed = tag \<and> (hardened E \<longrightarrow> witness_ok)"
  using gates_iff [of computed tag E recomputed witness_ok] assms by (simp add: TAG_LEN_def)

lemma decision_is_tag_equality_witness:
  "accepted (accept_or_reject (strict_env True True True (\<lambda>k n. True))
      (fst (fst (gates (strict_env True True True (\<lambda>k n. True)) (replicate 65 1) (replicate 65 1) (replicate 65 1) True)))
      (snd (fst (gates (strict_env True True True (\<lambda>k n. True)) (replicate 65 1) (replicate 65 1) (replicate 65 1) True)))
      rejections)
    \<longleftrightarrow> replicate 65 1 = (replicate 65 1 :: bytes) \<and> (hardened (strict_env True True True (\<lambda>k n. True)) \<longrightarrow> True)"
  by (rule decision_is_tag_equality [where recomputed = "replicate 65 1" and res = "snd (gates (strict_env True True True (\<lambda>k n. True)) (replicate 65 1) (replicate 65 1) (replicate 65 1) True)"])
    (simp_all add: TAG_LEN_def)

text \<open>
  The decision of a decrypting entry point with one fault in it.  A fault makes every comparison by the loop
  of \<open>subtle\<close> answer at will, or the fold of the second gate; replaces what a volatile read copies; replaces
  a gate (which is also its branch in \<open>accept_or_reject\<close> taken the wrong way); skips the call; leaves
  anything in an outcome slot (a store skipped, doubled or changed); or makes one of the caller's two checks
  answer at will.  The computed tag itself, which both gates read, and the targets of the caller's jumps are
  not among them: \<open>dual_mac_catches_overwritten_tag\<close> and \<open>replaced_tag_is_accepted\<close> are about the first, and
  the source discloses the second.
\<close>

datatype decision_fault =
    Subtle_Loop "bytes \<Rightarrow> bytes \<Rightarrow> bool"
  | Word_Fold bool
  | Computed_Copy bytes
  | Received_Copy bytes
  | Gate0 bool
  | Gate1 bool
  | Call_Skipped
  | Slot0 outcome
  | Slot1 outcome
  | Check0 bool
  | Check1 bool

definition faulted_gates :: "siv_env \<Rightarrow> decision_fault option \<Rightarrow> bytes \<Rightarrow> bytes \<Rightarrow> bytes \<Rightarrow> bool \<Rightarrow> bool \<times> bool" where
  "faulted_gates E fault computed_tag recomputed_tag tag witness_ok =
     (let eq = (case fault of Some (Subtle_Loop answer) \<Rightarrow> answer | _ \<Rightarrow> ct_eq);
          fold_eq = (case fault of Some (Word_Fold answer) \<Rightarrow> (\<lambda>_ _. answer) | _ \<Rightarrow> ct_eq_independent);
          computed_copy = (case fault of Some (Computed_Copy read) \<Rightarrow> read | _ \<Rightarrow> computed_tag);
          tag_copy = (case fault of Some (Received_Copy read) \<Rightarrow> read | _ \<Rightarrow> tag);
          first = (eq computed_tag tag \<and> eq tag computed_tag);
          gate_pair = ((eq computed_copy tag_copy \<and> eq tag_copy computed_copy) \<and> fold_eq computed_copy tag_copy \<and> witness_ok);
          second = (if dual_mac E then gate_pair \<and> eq recomputed_tag computed_tag \<and> eq recomputed_tag tag else gate_pair)
      in (case fault of Some (Gate0 forced) \<Rightarrow> forced | _ \<Rightarrow> first,
          case fault of Some (Gate1 forced) \<Rightarrow> forced | _ \<Rightarrow> second))"

definition faulted_decision :: "siv_env \<Rightarrow> decision_fault option \<Rightarrow> bytes \<Rightarrow> bytes \<Rightarrow> bytes \<Rightarrow> bool \<Rightarrow> bool" where
  "faulted_decision E fault computed_tag recomputed_tag tag witness_ok =
     (let (gate0, gate1) = faulted_gates E fault computed_tag recomputed_tag tag witness_ok;
          outs = (case fault of Some Call_Skipped \<Rightarrow> rejections | _ \<Rightarrow> accept_or_reject E gate0 gate1 rejections);
          out0 = (case fault of Some (Slot0 left) \<Rightarrow> left | _ \<Rightarrow> fst outs);
          out1 = (case fault of Some (Slot1 left) \<Rightarrow> left | _ \<Rightarrow> snd outs);
          rejects0 = (case fault of Some (Check0 answer) \<Rightarrow> answer | _ \<Rightarrow> is_err out0);
          rejects1 = (case fault of Some (Check1 answer) \<Rightarrow> answer | _ \<Rightarrow> is_err out1)
      in \<not> rejects0 \<and> \<not> rejects1)"

lemma no_fault_gates: "hardened E \<Longrightarrow> faulted_gates E None c r t w = fst (gates E c r t w)"
  by (auto simp: faulted_gates_def gates_def second_gate_comparison_def Let_def)





text \<open>The known limit: a computed tag replaced by the received one satisfies both gates unless it is recomputed.\<close>

lemma replaced_tag_is_accepted:
  assumes "hardened E" "\<not> dual_mac E" "length tag = 65"
  shows "faulted_decision E None tag recomputed tag True"
proof -
  have "second_gate_comparison tag tag" using second_gate_iff [OF assms(3,3)] by simp
  then have "faulted_gates E None tag recomputed tag True = (True, True)"
    unfolding no_fault_gates [OF assms(1)] using assms(1,2) by (simp add: gates_def Let_def)
  then show ?thesis using assms(1) by (simp add: faulted_decision_def accept_or_reject_def rejections_def Let_def)
qed

text \<open>C13. The recomputation of \<open>dual-mac\<close> catches the fault that defeats both gates at once: a stored
  tag overwritten by the received one is rejected as soon as the honest recomputation differs.\<close>

theorem dual_mac_catches_overwritten_tag:
  assumes "env_ok E" and "dual_mac E" and "recomputed \<noteq> tag"
    and "gates E tag recomputed tag witness_ok = ((gate0, gate1), res)"
  shows "\<not> accepted (accept_or_reject E gate0 gate1 rejections)"
  using assms by (auto simp: env_ok_def features_ok_def accepted_iff gates_def Let_def)

lemma dual_mac_catches_overwritten_tag_witness:
  "\<not> accepted (accept_or_reject (strict_env True True False (\<lambda>k n. True)) True False rejections)"
proof -
  let ?E = "strict_env True True False (\<lambda>k n. True)" and ?a = "replicate 65 1 :: bytes" and ?b = "replicate 65 2 :: bytes"
  have "second_gate_comparison ?b ?b" by (rule second_gate_iff [THEN iffD2]) simp_all
  then have "gates ?E ?b ?a ?b True = ((True, False), [wiped ?b, wiped ?b])"
    by (simp add: gates_def strict_env_def Let_def)
  from dual_mac_catches_overwritten_tag [OF _ _ _ this] show ?thesis by (simp add: strict_env_def env_ok_def features_ok_def)
qed

end
