(* ===== verification/Witness_ChaCha.thy ===== *)
theory Witness_ChaCha
  imports ChaCha_Stream
begin

section \<open>The witness: its own ChaCha20 and HChaCha20\<close>

text \<open>
  The second implementation in \<open>src/witness.rs\<close>: \<open>quarter\<close>, \<open>block\<close>,
  \<open>keystream_xor\<close> and \<open>hchacha20\<close>, translated from that file (state updated in
  place, loops over words and bytes, no vector code, no dispatch), and the proofs that each
  agrees with \<open>src/lib.rs\<close>.  The names carry a \<open>w_\<close>.  The wipes of the working
  arrays before they go out of scope do not change the results and are left out here; the
  wiping of the derived secrets is modelled with the API.
\<close>

definition w_quarter :: "u32 list \<Rightarrow> nat \<Rightarrow> nat \<Rightarrow> nat \<Rightarrow> nat \<Rightarrow> u32 list" where
  "w_quarter v0 a b c d =
     (let v = v0[a := v0 ! a + v0 ! b];
          v = v[d := v ! d XOR v ! a];
          v = v[d := rotate_left (v ! d) 16];
          v = v[c := v ! c + v ! d];
          v = v[b := v ! b XOR v ! c];
          v = v[b := rotate_left (v ! b) 12];
          v = v[a := v ! a + v ! b];
          v = v[d := v ! d XOR v ! a];
          v = v[d := rotate_left (v ! d) 8];
          v = v[c := v ! c + v ! d];
          v = v[b := v ! b XOR v ! c];
          v = v[b := rotate_left (v ! b) 7]
      in v)"

definition w_double_round :: "u32 list \<Rightarrow> u32 list" where
  "w_double_round v0 =
     (let v = w_quarter v0 0 4 8 12;
          v = w_quarter v 1 5 9 13;
          v = w_quarter v 2 6 10 14;
          v = w_quarter v 3 7 11 15;
          v = w_quarter v 0 5 10 15;
          v = w_quarter v 1 6 11 12;
          v = w_quarter v 2 7 8 13;
          v = w_quarter v 3 4 9 14
      in v)"

definition w_CHACHA_CONST :: "u32 list" where
  "w_CHACHA_CONST = [0x61707865, 0x3320646e, 0x79622d32, 0x6b206574]"

definition w_words :: "nat \<Rightarrow> bytes \<Rightarrow> u32 list" where
  "w_words n bs = map (\<lambda>i. le_word [bs ! (i * 4), bs ! (i * 4 + 1), bs ! (i * 4 + 2), bs ! (i * 4 + 3)]) [0..<n]"

definition w_block :: "bytes \<Rightarrow> u32 \<Rightarrow> bytes \<Rightarrow> bytes" where
  "w_block key counter nonce =
     (let s = w_CHACHA_CONST @ w_words 8 key @ [counter] @ w_words 3 nonce;
          v = (w_double_round ^^ 10) s
      in concat (map (\<lambda>i.
           let x = v ! i + s ! i
           in [ucast x, ucast (drop_bit 8 x), ucast (drop_bit 16 x), ucast (drop_bit 24 x)]) [0..<16]))"

function w_keystream_loop :: "bytes \<Rightarrow> bytes \<Rightarrow> bytes \<Rightarrow> u32 \<Rightarrow> nat \<Rightarrow> bytes \<Rightarrow> bytes" where
  "w_keystream_loop key nonce src ctr off dst =
     (if off < length src then
        let ks = w_block key ctr nonce;
            n = min 64 (length src - off);
            dst = fold (\<lambda>i dst. dst[off + i := src ! (off + i) XOR ks ! i]) [0..<n] dst
        in w_keystream_loop key nonce src (ctr + 1) (off + n) dst
      else dst)"
  by pat_completeness auto
termination
  by (relation "measure (\<lambda>(key, nonce, src, ctr, off, dst). length src - off)") auto

declare w_keystream_loop.simps [simp del]

definition w_keystream_xor :: "bytes \<Rightarrow> u32 \<Rightarrow> bytes \<Rightarrow> bytes \<Rightarrow> bytes \<Rightarrow> bytes option" where
  "w_keystream_xor key counter nonce src dst =
     do {
       assert_that (length src = length dst);
       Some (w_keystream_loop key nonce src counter 0 dst)
     }"

definition w_hchacha20 :: "bytes \<Rightarrow> bytes \<Rightarrow> bytes" where
  "w_hchacha20 key nonce =
     (let s = w_CHACHA_CONST @ w_words 8 key @ w_words 4 nonce;
          v = (w_double_round ^^ 10) s;
          out = replicate 32 0
      in fold (\<lambda>(i, idx) out. put_slice (i * 4) (u32_bytes (v ! idx)) out)
           (zip [0..<8] [0, 1, 2, 3, 12, 13, 14, 15]) out)"

subsection \<open>Agreement with the main implementation\<close>

lemma w_quarter_eq:
  "length s = 16 \<Longrightarrow> a < 16 \<Longrightarrow> b < 16 \<Longrightarrow> c < 16 \<Longrightarrow> d < 16 \<Longrightarrow> distinct [a, b, c, d] \<Longrightarrow>
   w_quarter s a b c d = qr_at s a b c d"
proof -
  assume s: "length s = 16" and ab: "a < 16" "b < 16" "c < 16" "d < 16" "distinct [a, b, c, d]"
  have rot: "x[d := x ! d XOR x ! a, d := rotate_left (x[d := x ! d XOR x ! a] ! d) n] = step_rot d a n x"
    if "d < length x" for x :: "u32 list" and a d n
    using that by (simp add: step_rot_def)
  have "w_quarter s a b c d = step_rot b c 7 (step_add c d (step_rot d a 8 (step_add a b
          (step_rot b c 12 (step_add c d (step_rot d a 16 (step_add a b s)))))))"
    unfolding w_quarter_def Let_def step_add_def [symmetric]
    by (subst rot, simp add: s ab step_add_def step_rot_def)+ simp
  with qr_at_in_place [OF s ab] show ?thesis by simp
qed

lemma w_double_round_eq: "length s = 16 \<Longrightarrow> w_double_round s = chacha20_double_round s"
  by (simp add: w_double_round_def chacha20_double_round_def w_quarter_eq)

lemma w_rounds_eq: "length s = 16 \<Longrightarrow> (w_double_round ^^ 10) s = chacha20_rounds s"
  unfolding chacha20_rounds_def
  using funpow_commute_with [where P = "\<lambda>s. length s = 16" and h = id and f = w_double_round]
  by (simp add: w_double_round_eq)

lemma u32_bytes_shifts:
  "[ucast x, ucast (drop_bit 8 x), ucast (drop_bit 16 x), ucast (drop_bit 24 x)] = u32_bytes x"
  by (simp add: numeral_eq_Suc)

lemma w_words_8:
  "w_words 8 key =
     [le_word [key ! 0, key ! 1, key ! 2, key ! 3], le_word [key ! 4, key ! 5, key ! 6, key ! 7],
      le_word [key ! 8, key ! 9, key ! 10, key ! 11], le_word [key ! 12, key ! 13, key ! 14, key ! 15],
      le_word [key ! 16, key ! 17, key ! 18, key ! 19], le_word [key ! 20, key ! 21, key ! 22, key ! 23],
      le_word [key ! 24, key ! 25, key ! 26, key ! 27], le_word [key ! 28, key ! 29, key ! 30, key ! 31]]"
  by (simp add: w_words_def upt_8 numeral_2_eq_2 del: le_word.simps)

lemma w_words_4:
  "w_words 4 key =
     [le_word [key ! 0, key ! 1, key ! 2, key ! 3], le_word [key ! 4, key ! 5, key ! 6, key ! 7],
      le_word [key ! 8, key ! 9, key ! 10, key ! 11], le_word [key ! 12, key ! 13, key ! 14, key ! 15]]"
  by (simp add: w_words_def upt_4 numeral_2_eq_2 del: le_word.simps)

lemma w_words_3:
  "w_words 3 key =
     [le_word [key ! 0, key ! 1, key ! 2, key ! 3], le_word [key ! 4, key ! 5, key ! 6, key ! 7],
      le_word [key ! 8, key ! 9, key ! 10, key ! 11]]"
  by (simp add: w_words_def upt_rec numeral_2_eq_2 del: le_word.simps)

lemma w_block_eq: "w_block key counter nonce = chacha20_block_into key counter nonce"
proof -
  have "w_CHACHA_CONST @ w_words 8 key @ [counter] @ w_words 3 nonce = block_state key counter nonce"
    by (simp add: w_words_8 w_words_3 block_state_def w_CHACHA_CONST_def CHACHA_CONST_def del: le_word.simps)
  then show ?thesis
    by (simp only: w_block_def chacha20_block_into_def Let_def u32_bytes_shifts w_rounds_eq length_block_state)
qed

lemma fold_update_slice:
  "off + n \<le> length dst \<Longrightarrow>
   fold (\<lambda>i dst. dst[off + i := f i]) [0..<n] dst = put_slice off (map f [0..<n]) dst"
proof (induction n)
  case 0
  then show ?case by (simp add: put_slice_def)
next
  case (Suc n)
  then have "fold (\<lambda>i dst. dst[off + i := f i]) [0..<n] dst = put_slice off (map f [0..<n]) dst"
    by simp
  then show ?case
    using Suc.prems by (intro nth_equalityI) (auto simp: nth_put_slice nth_list_update nth_append less_Suc_eq)
qed

lemma xor_loop_is_copy:
  assumes "off + n \<le> length dst" "length src = length dst" "n \<le> length ks"
  shows "xor_or_copy (Separate src) dst off (take n ks)
    = Some (fold (\<lambda>i dst. dst[off + i := src ! (off + i) XOR ks ! i]) [0..<n] dst)"
proof -
  have "xor_bytes (subslice off (off + n) src) (take n ks) = map (\<lambda>i. src ! (off + i) XOR ks ! i) [0..<n]"
    using assms by (intro nth_equalityI) (auto simp: nth_xor_bytes subslice_def)
  then show ?thesis
    using assms by (simp add: xor_or_copy_def fold_update_slice)
qed

lemma w_keystream_loop_correct:
  assumes len: "length key = 32" "length nonce = 12" and src: "length src = length out0"
    and "stream_inv key counter nonce (Separate src) out0 (ctr, off, dst)"
  shows "w_keystream_loop key nonce src ctr off dst
    = xor_bytes src (chacha20_stream key counter nonce (length out0))"
  using assms(4)
proof (induction "length src - off" arbitrary: ctr off dst rule: less_induct)
  case less
  let ?n = "min 64 (length src - off)"
  let ?dst = "fold (\<lambda>i dst. dst[off + i := src ! (off + i) XOR chacha20_block_into key ctr nonce ! i]) [0..<?n] dst"
  have ldst: "length dst = length out0" and bound: "off \<le> length out0"
    using less.prems src by (auto simp: stream_inv_def progress_def stream_spec_def)
  have step: "w_keystream_loop key nonce src ctr off dst
      = w_keystream_loop key nonce src (ctr + 1) (off + ?n) ?dst" if "off < length src"
    using that by (subst w_keystream_loop.simps) (simp add: w_block_eq Let_def)
  have copy: "xor_or_copy (Separate src) dst off (take ?n (chacha20_block_into key ctr nonce)) = Some ?dst"
    by (rule xor_loop_is_copy) (use src ldst bound in auto)
  consider "length src \<le> off" | "off + 64 \<le> length src" | "off < length src" "length src < off + 64"
    by linarith
  then show ?case
  proof cases
    case 1
    with less.prems src bound show ?thesis
      by (subst w_keystream_loop.simps) (auto simp: stream_inv_def progress_def stream_spec_def)
  next
    case 2
    then have n: "?n = 64" by simp
    obtain buf where b: "xor_or_copy (Separate src) dst off (chacha20_block_into key ctr nonce) = Some buf"
      and inv: "stream_inv key counter nonce (Separate src) out0 (ctr + of_nat 1, off + 64 * 1, buf)"
      using 2 src by (rule_tac scalar.loop_step [OF len _ less.prems]) auto
    have "buf = ?dst" using copy b unfolding n by simp
    moreover have "length src - (off + 64) < length src - off" using 2 by linarith
    ultimately show ?thesis
      using step less.hyps [of "off + 64" "ctr + 1" buf] inv 2 unfolding n by simp
  next
    case 3
    then have n: "?n = length out0 - off" using src by simp
    have "?dst = stream_spec (Separate src) out0 (chacha20_stream key counter nonce (length out0))"
      using xor_or_copy_tail [OF len _ less.prems] copy 3 src unfolding n by simp
    then have dst: "?dst = xor_bytes src (chacha20_stream key counter nonce (length out0))"
      by (simp add: stream_spec_def)
    have "w_keystream_loop key nonce src (ctr + 1) (off + ?n) d = d" for d
      using n src bound by (subst w_keystream_loop.simps) simp
    with step 3 dst show ?thesis by simp
  qed
qed

lemma w_keystream_xor_eq:
  assumes "length key = 32" "length nonce = 12"
  shows "w_keystream_xor key counter nonce src dst = chacha20_keystream tgt key counter nonce src dst"
proof (cases "length src = length dst")
  case True
  then show ?thesis
    using w_keystream_loop_correct [OF assms True stream_inv_start] assms
    by (simp add: w_keystream_xor_def chacha20_keystream_correct)
next
  case False
  then show ?thesis by (simp add: w_keystream_xor_def chacha20_keystream_def)
qed

lemma fold_put_slices:
  "\<forall>b \<in> set bs. length b = m \<Longrightarrow> length pre = k * m \<Longrightarrow> length post = m * length bs \<Longrightarrow>
   fold (\<lambda>(i, b) out. put_slice (i * m) b out) (zip [k..<k + length bs] bs) (pre @ post) = pre @ concat bs"
proof (induction bs arbitrary: k pre post)
  case Nil
  then show ?case by simp
next
  case (Cons b bs)
  have "put_slice (k * m) b (pre @ post) = (pre @ b) @ drop m post"
    using Cons.prems put_slice_at_end [of pre b post] by (simp add: mult.commute)
  moreover have "zip [k..<k + length (b # bs)] (b # bs) = (k, b) # zip [Suc k..<Suc k + length bs] bs"
    by (simp add: upt_conv_Cons del: upt_Suc)
  ultimately show ?case
    using Cons.IH [of "pre @ b" "Suc k" "drop m post"] Cons.prems by (simp del: upt_Suc)
qed

lemma w_hchacha20_eq: "w_hchacha20 key nonce = hchacha20_into key nonce"
proof -
  let ?s = "w_CHACHA_CONST @ w_words 8 key @ w_words 4 nonce"
  let ?v = "chacha20_rounds ?s"
  let ?ix = "[0, 1, 2, 3, 12, 13, 14, 15] :: nat list"
  have "length ?s = 16" by (simp add: w_CHACHA_CONST_def w_words_def)
  then have "w_hchacha20 key nonce
      = fold (\<lambda>(i, idx) out. put_slice (i * 4) (u32_bytes (?v ! idx)) out) (zip [0..<8] ?ix) (replicate 32 0)"
    by (simp only: w_hchacha20_def Let_def w_rounds_eq)
  also have "\<dots> = fold (\<lambda>(i, b) out. put_slice (i * 4) b out)
      (zip [0..<0 + length (map (\<lambda>idx. u32_bytes (?v ! idx)) ?ix)] (map (\<lambda>idx. u32_bytes (?v ! idx)) ?ix))
      ([] @ replicate 32 0)"
    by (simp add: upt_8 numeral_2_eq_2)
  also have "\<dots> = concat (map (\<lambda>idx. u32_bytes (?v ! idx)) ?ix)"
    by (subst fold_put_slices) simp_all
  finally show ?thesis
    by (simp only: hchacha20_into_def Let_def)
      (simp add: w_words_8 w_words_4 w_CHACHA_CONST_def CHACHA_CONST_def del: le_word.simps)
qed

end
