(* ===== verification/Witness_Blake3.thy ===== *)
theory Witness_Blake3
  imports Witness_ChaCha Blake3_Hasher
begin

section \<open>The witness: its own BLAKE3\<close>

text \<open>
  The second BLAKE3 of \<open>src/witness.rs\<close>, written there from the specification: one
  chunk at a time, the stack merged eagerly by the trailing zeros of the chunk count, words
  where the fork uses bytes, 32-bit flags where it uses 8-bit ones, no dispatch.  It is
  shown to compute the same output stream as the fork's hasher, on every split of the input.
  The cells of the chaining-value stack are kept as the array they are, so that the wiping
  of popped cells and of the finished hasher can be stated.
\<close>

definition w_BLAKE3_BLOCK :: nat where "w_BLAKE3_BLOCK = 64"
definition w_BLAKE3_CHUNK :: nat where "w_BLAKE3_CHUNK = 1024"

definition w_CHUNK_START :: u32 where "w_CHUNK_START = push_bit 0 1"
definition w_CHUNK_END :: u32 where "w_CHUNK_END = push_bit 1 1"
definition w_PARENT :: u32 where "w_PARENT = push_bit 2 1"
definition w_ROOT :: u32 where "w_ROOT = push_bit 3 1"
definition w_KEYED_HASH :: u32 where "w_KEYED_HASH = push_bit 4 1"

definition w_BLAKE3_IV :: "u32 list" where
  "w_BLAKE3_IV = [0x6A09E667, 0xBB67AE85, 0x3C6EF372, 0xA54FF53A, 0x510E527F, 0x9B05688C, 0x1F83D9AB, 0x5BE0CD19]"

definition w_MSG_PERMUTATION :: "nat list" where
  "w_MSG_PERMUTATION = [2, 6, 3, 10, 7, 0, 4, 13, 1, 11, 12, 5, 9, 14, 15, 8]"

definition w_words_from_le_bytes :: "bytes \<Rightarrow> u32 list" where
  "w_words_from_le_bytes bs = map (\<lambda>i. le_word (subslice (i * 4) (i * 4 + 4) bs)) [0..<16]"

definition w_mix :: "u32 list \<Rightarrow> nat \<Rightarrow> nat \<Rightarrow> nat \<Rightarrow> nat \<Rightarrow> u32 \<Rightarrow> u32 \<Rightarrow> u32 list" where
  "w_mix state a b c d mx my =
     (let s = state[a := state ! a + state ! b + mx];
          s = s[d := rotate_right (s ! d XOR s ! a) 16];
          s = s[c := s ! c + s ! d];
          s = s[b := rotate_right (s ! b XOR s ! c) 12];
          s = s[a := s ! a + s ! b + my];
          s = s[d := rotate_right (s ! d XOR s ! a) 8];
          s = s[c := s ! c + s ! d];
          s = s[b := rotate_right (s ! b XOR s ! c) 7]
      in s)"

definition w_round :: "u32 list \<Rightarrow> u32 list \<Rightarrow> u32 list" where
  "w_round state m =
     (let s = w_mix state 0 4 8 12 (m ! 0) (m ! 1);
          s = w_mix s 1 5 9 13 (m ! 2) (m ! 3);
          s = w_mix s 2 6 10 14 (m ! 4) (m ! 5);
          s = w_mix s 3 7 11 15 (m ! 6) (m ! 7);
          s = w_mix s 0 5 10 15 (m ! 8) (m ! 9);
          s = w_mix s 1 6 11 12 (m ! 10) (m ! 11);
          s = w_mix s 2 7 8 13 (m ! 12) (m ! 13);
          s = w_mix s 3 4 9 14 (m ! 14) (m ! 15)
      in s)"

definition w_permute :: "u32 list \<Rightarrow> u32 list" where
  "w_permute m = map (\<lambda>i. m ! (w_MSG_PERMUTATION ! i)) [0..<16]"

definition w_compress :: "u32 list \<Rightarrow> u32 list \<Rightarrow> u64 \<Rightarrow> u32 \<Rightarrow> u32 \<Rightarrow> u32 list" where
  "w_compress cv block_words counter block_len flags =
     (let state = [cv ! 0, cv ! 1, cv ! 2, cv ! 3, cv ! 4, cv ! 5, cv ! 6, cv ! 7,
                   w_BLAKE3_IV ! 0, w_BLAKE3_IV ! 1, w_BLAKE3_IV ! 2, w_BLAKE3_IV ! 3,
                   ucast counter, ucast (drop_bit 32 counter), block_len, flags];
          (state, m) = ((\<lambda>(state, m). (w_round state m, w_permute m)) ^^ 7) (state, block_words)
      in map (\<lambda>i. state ! i XOR state ! (i + 8)) [0..<8] @ map (\<lambda>i. state ! (i + 8) XOR cv ! i) [0..<8])"

definition w_first8 :: "u32 list \<Rightarrow> u32 list" where
  "w_first8 ws = subslice 0 8 ws"

subsection \<open>\<open>Output\<close>\<close>

record w_output =
  wo_input_cv :: "u32 list"
  wo_block_words :: "u32 list"
  wo_counter :: u64
  wo_block_len :: u32
  wo_flags :: u32

definition w_chaining_value :: "w_output \<Rightarrow> u32 list" where
  "w_chaining_value ou =
     w_first8 (w_compress (wo_input_cv ou) (wo_block_words ou) (wo_counter ou) (wo_block_len ou) (wo_flags ou))"

text \<open>The lengths of the pieces of \<open>chunks_mut(k)\<close> of \<open>n\<close> bytes.\<close>

definition chunk_lens :: "nat \<Rightarrow> nat \<Rightarrow> nat list" where
  "chunk_lens k n = replicate (n div k) k @ (if n mod k = 0 then [] else [n mod k])"

definition w_write_words :: "u32 list \<Rightarrow> nat \<Rightarrow> bytes" where
  "w_write_words ws n =
     concat (map (\<lambda>(w, m). map (\<lambda>k. ucast (drop_bit (8 * k) w)) [0..<m]) (zip ws (chunk_lens 4 n)))"

definition w_root_output_bytes :: "w_output \<Rightarrow> nat \<Rightarrow> bytes" where
  "w_root_output_bytes ou n =
     concat (map (\<lambda>(counter, m).
         w_write_words (w_compress (wo_input_cv ou) (wo_block_words ou) (of_nat counter) (wo_block_len ou)
                          (wo_flags ou OR w_ROOT)) m)
       (zip [0..<length (chunk_lens (2 * 32) n)] (chunk_lens (2 * 32) n)))"

definition w_parent_output :: "u32 list \<Rightarrow> u32 list \<Rightarrow> u32 list \<Rightarrow> u32 \<Rightarrow> w_output" where
  "w_parent_output left right key flags =
     \<lparr>wo_input_cv = key, wo_block_words = put_slice 8 right (put_slice 0 left (replicate 16 0)),
      wo_counter = 0, wo_block_len = of_nat w_BLAKE3_BLOCK, wo_flags = flags OR w_PARENT\<rparr>"

definition w_parent_cv :: "u32 list \<Rightarrow> u32 list \<Rightarrow> u32 list \<Rightarrow> u32 \<Rightarrow> u32 list" where
  "w_parent_cv left right key flags = w_chaining_value (w_parent_output left right key flags)"

subsection \<open>\<open>ChunkState\<close>\<close>

record w_chunk =
  wc_cv :: "u32 list"
  wc_counter :: u64
  wc_block :: bytes
  wc_block_len :: nat
  wc_blocks_compressed :: nat
  wc_flags :: u32

definition w_chunk_new :: "u32 list \<Rightarrow> u64 \<Rightarrow> u32 \<Rightarrow> w_chunk" where
  "w_chunk_new key counter flags =
     \<lparr>wc_cv = key, wc_counter = counter, wc_block = replicate w_BLAKE3_BLOCK 0, wc_block_len = 0,
      wc_blocks_compressed = 0, wc_flags = flags\<rparr>"

definition w_chunk_len :: "w_chunk \<Rightarrow> nat" where
  "w_chunk_len c = wc_blocks_compressed c * w_BLAKE3_BLOCK + wc_block_len c"

definition w_start_flag :: "w_chunk \<Rightarrow> u32" where
  "w_start_flag c = (if wc_blocks_compressed c = 0 then w_CHUNK_START else 0)"

text \<open>One round of the loop of \<open>ChunkState::update\<close>: a full block is compressed first.\<close>

definition w_flush :: "w_chunk \<Rightarrow> w_chunk" where
  "w_flush c =
     (if wc_block_len c = w_BLAKE3_BLOCK then
        let ws = w_words_from_le_bytes (wc_block c);
            full = w_compress (wc_cv c) ws (wc_counter c) (of_nat w_BLAKE3_BLOCK) (wc_flags c OR w_start_flag c)
        in c\<lparr>wc_cv := w_first8 full, wc_blocks_compressed := wc_blocks_compressed c + 1,
             wc_block := replicate w_BLAKE3_BLOCK 0, wc_block_len := 0\<rparr>
      else c)"

text \<open>The state invariant \<open>block_len <= 64\<close> makes the copied length positive, so the loop ends.\<close>

function w_chunk_update :: "w_chunk \<Rightarrow> bytes \<Rightarrow> w_chunk option" where
  "w_chunk_update c inp =
     (if inp \<noteq> [] then
        let c = w_flush c;
            want = w_BLAKE3_BLOCK - wc_block_len c;
            n = min want (length inp)
        in if w_BLAKE3_BLOCK \<le> wc_block_len c then None
           else w_chunk_update
             (c\<lparr>wc_block := put_slice (wc_block_len c) (take n inp) (wc_block c),
                wc_block_len := wc_block_len c + n\<rparr>) (drop n inp)
      else Some c)"
  by pat_completeness auto
termination
  by (relation "measure (\<lambda>(c, inp). length inp)") (auto simp: w_BLAKE3_BLOCK_def)

declare w_chunk_update.simps [simp del]

definition w_chunk_output :: "w_chunk \<Rightarrow> w_output" where
  "w_chunk_output c =
     \<lparr>wo_input_cv = wc_cv c, wo_block_words = w_words_from_le_bytes (wc_block c), wo_counter = wc_counter c,
      wo_block_len = of_nat (wc_block_len c), wo_flags = wc_flags c OR w_start_flag c OR w_CHUNK_END\<rparr>"

subsection \<open>\<open>CvStack\<close> and \<open>Hasher\<close>\<close>

definition w_CV_STACK_RESERVE :: nat where "w_CV_STACK_RESERVE = 64"

record w_cv_stack =
  cvs :: "u32 list list"
  stack_len :: nat

definition w_stack_new :: w_cv_stack where
  "w_stack_new = \<lparr>cvs = replicate w_CV_STACK_RESERVE (replicate 8 0), stack_len = 0\<rparr>"

definition w_stack_push :: "w_cv_stack \<Rightarrow> u32 list \<Rightarrow> w_cv_stack option" where
  "w_stack_push st cv =
     do {
       assert_that (stack_len st < w_CV_STACK_RESERVE);
       Some (st\<lparr>cvs := (cvs st)[stack_len st := cv], stack_len := stack_len st + 1\<rparr>)
     }"

record w_hasher =
  wh_key_words :: "u32 list"
  wh_chunk :: w_chunk
  wh_cv_stack :: w_cv_stack
  wh_flags :: u32

definition w_new_keyed :: "bytes \<Rightarrow> w_hasher" where
  "w_new_keyed key =
     (let key_words = map (\<lambda>i. le_word (subslice (i * 4) (i * 4 + 4) key)) [0..<8];
          flags = w_KEYED_HASH
      in \<lparr>wh_key_words = key_words, wh_chunk = w_chunk_new key_words 0 flags,
          wh_cv_stack = w_stack_new, wh_flags = flags\<rparr>)"

text \<open>
  The loop of \<open>add_chunk_cv\<close>.  The popped cell is overwritten with zeros.  On an empty
  stack \<open>len - 1\<close> wraps or panics, and the index after it panics: \<open>None\<close>.
\<close>

function w_merge_cvs :: "u32 list \<Rightarrow> u32 \<Rightarrow> w_cv_stack \<Rightarrow> u32 list \<Rightarrow> u64 \<Rightarrow> (w_cv_stack \<times> u32 list) option" where
  "w_merge_cvs key flags st new_cv chunks =
     (if chunks AND 1 = 0 then
        (if stack_len st = 0 then None
         else let last = stack_len st - 1;
                  left = cvs st ! last;
                  st = st\<lparr>cvs := (cvs st)[last := replicate 8 0], stack_len := last\<rparr>
              in w_merge_cvs key flags st (w_parent_cv left new_cv key flags) (drop_bit 1 chunks))
      else Some (st, new_cv))"
  by pat_completeness auto
termination
  by (relation "measure (\<lambda>(key, flags, st, new_cv, chunks). stack_len st)") auto

declare w_merge_cvs.simps [simp del]

definition w_add_chunk_cv :: "w_hasher \<Rightarrow> u32 list \<Rightarrow> u64 \<Rightarrow> w_hasher option" where
  "w_add_chunk_cv h new_cv total_chunks =
     do {
       (st, new_cv) \<leftarrow> w_merge_cvs (wh_key_words h) (wh_flags h) (wh_cv_stack h) new_cv total_chunks;
       st \<leftarrow> w_stack_push st new_cv;
       Some (h\<lparr>wh_cv_stack := st\<rparr>)
     }"

text \<open>\<open>wipe_state\<close>: live stack cells, key, chunk value and block become zero.\<close>

definition w_wipe_state :: "w_hasher \<Rightarrow> w_hasher" where
  "w_wipe_state h =
     (let st = wh_cv_stack h;
          n = stack_len st
      in h\<lparr>wh_cv_stack := st\<lparr>cvs := replicate n (replicate 8 0) @ drop n (cvs st), stack_len := 0\<rparr>,
           wh_key_words := replicate 8 0,
           wh_chunk := (wh_chunk h)\<lparr>wc_cv := replicate 8 0, wc_block := replicate w_BLAKE3_BLOCK 0,
                                    wc_block_len := 0, wc_blocks_compressed := 0\<rparr>\<rparr>)"

definition w_roll_chunk :: "w_hasher \<Rightarrow> w_hasher option" where
  "w_roll_chunk h =
     (if w_chunk_len (wh_chunk h) = w_BLAKE3_CHUNK then do {
        let cv = w_chaining_value (w_chunk_output (wh_chunk h));
        let total = wc_counter (wh_chunk h) + 1;
        h \<leftarrow> w_add_chunk_cv h cv total;
        Some (h\<lparr>wh_chunk := w_chunk_new (wh_key_words h) total (wh_flags h)\<rparr>)
      } else Some h)"

function w_update :: "w_hasher \<Rightarrow> bytes \<Rightarrow> w_hasher option" where
  "w_update h inp =
     (if inp \<noteq> [] then
        do {
          h \<leftarrow> w_roll_chunk h;
          let want = w_BLAKE3_CHUNK - w_chunk_len (wh_chunk h);
          let n = min want (length inp);
          assert_that (0 < n);
          c \<leftarrow> w_chunk_update (wh_chunk h) (take n inp);
          w_update (h\<lparr>wh_chunk := c\<rparr>) (drop n inp)
        }
      else Some h)"
  by pat_completeness auto
termination
  by (relation "measure (\<lambda>(h, inp). length inp)") (auto split: if_splits)

declare w_update.simps [simp del]

definition w_finalize_xof :: "w_hasher \<Rightarrow> nat \<Rightarrow> bytes" where
  "w_finalize_xof h n =
     (let ou = fold (\<lambda>left ou. w_parent_output left (w_chaining_value ou) (wh_key_words h) (wh_flags h))
                 (rev (take (stack_len (wh_cv_stack h)) (cvs (wh_cv_stack h))))
                 (w_chunk_output (wh_chunk h))
      in w_root_output_bytes ou n)"

fun w_updates :: "w_hasher \<Rightarrow> bytes list \<Rightarrow> w_hasher option" where
  "w_updates h [] = Some h"
| "w_updates h (p # ps) = w_update h p \<bind> (\<lambda>h. w_updates h ps)"

text \<open>\<open>keyed_xof\<close> with the hasher it leaves behind, and its value.\<close>

definition w_keyed_xof_frame :: "bytes \<Rightarrow> bytes list \<Rightarrow> nat \<Rightarrow> (bytes \<times> w_hasher) option" where
  "w_keyed_xof_frame key parts n =
     do {
       h \<leftarrow> w_updates (w_new_keyed key) parts;
       Some (w_finalize_xof h n, w_wipe_state h)
     }"

definition w_keyed_xof :: "bytes \<Rightarrow> bytes list \<Rightarrow> nat \<Rightarrow> bytes option" where
  "w_keyed_xof key parts n = map_option fst (w_keyed_xof_frame key parts n)"

subsection \<open>The compression functions agree\<close>

definition schedule :: "nat \<Rightarrow> u32 list \<Rightarrow> u32 list" where
  "schedule r m = map ((!) m) (MSG_SCHEDULE ! r)"

lemma w_mix_eq: "w_mix = g_b3"
  by (intro ext) (simp add: w_mix_def g_b3_def)

lemma round_schedule:
  "r < 7 \<Longrightarrow> round_b3 s m r = w_round s (schedule r m)"
proof -
  assume "r < 7"
  then have l: "length (MSG_SCHEDULE ! r) = 16"
    by (simp add: MSG_SCHEDULE_def nth_Cons' split: if_splits) 
  then show ?thesis
    by (simp add: round_b3_def w_round_def w_mix_eq schedule_def Let_def)
qed

lemma schedule_0: "length m = 16 \<Longrightarrow> schedule 0 m = m"
proof -
  assume "length m = 16"
  moreover have "MSG_SCHEDULE ! 0 = [0..<16]" by (simp add: MSG_SCHEDULE_def upt_16)
  ultimately show ?thesis unfolding schedule_def by (metis map_nth)
qed

lemma permute_schedule: "r < 6 \<Longrightarrow> w_permute (schedule r m) = schedule (Suc r) m"
proof -
  assume "r < 6"
  then have "r \<in> {0, 1, 2, 3, 4, 5}" by auto
  then show ?thesis
    by (auto simp: schedule_def w_permute_def MSG_SCHEDULE_def w_MSG_PERMUTATION_def upt_16 numeral_2_eq_2)
qed

lemma w_rounds:
  assumes "length m = 16" "n \<le> 6"
  shows "((\<lambda>(state, m). (w_round state m, w_permute m)) ^^ n) (s, m)
    = (fold (\<lambda>r s. round_b3 s m r) [0..<n] s, schedule n m)"
  using assms(2)
proof (induction n)
  case 0
  then show ?case using assms(1) by (simp add: schedule_0)
next
  case (Suc n)
  then show ?case by (simp add: round_schedule permute_schedule)
qed

lemma upt_67: "[0..<6] = [0, 1, 2, 3, 4, 5]" "[0..<7] = [0, 1, 2, 3, 4, 5, 6]"
  by (simp_all add: upt_rec)

lemma w_compress_eq:
  assumes "length block = 64" "length cv = 8"
  shows "w_compress cv (words_from_le_bytes_64 block) counter (ucast block_len) (ucast flags)
    = (let state = compress_pre cv block block_len counter flags
       in map (\<lambda>i. state ! i XOR state ! (i + 8)) [0..<8] @ map (\<lambda>i. state ! (i + 8) XOR cv ! i) [0..<8])"
proof -
  let ?m = "words_from_le_bytes_64 block"
  let ?s = "[cv ! 0, cv ! 1, cv ! 2, cv ! 3, cv ! 4, cv ! 5, cv ! 6, cv ! 7, IV ! 0, IV ! 1, IV ! 2, IV ! 3,
      ucast counter, ucast (drop_bit 32 counter), ucast block_len, ucast flags] :: u32 list"
  have m: "length ?m = 16" by (simp add: words_from_le_bytes_64_def)
  have "fst (((\<lambda>(state, m). (w_round state m, w_permute m)) ^^ Suc 6) (?s, ?m))
      = w_round (fold (\<lambda>r s. round_b3 s ?m r) [0..<6] ?s) (schedule 6 ?m)"
    unfolding funpow.simps(2) comp_apply w_rounds [OF m order_refl] by simp
  also have "\<dots> = fold (\<lambda>r s. round_b3 s ?m r) [0..<7] ?s"
    by (simp add: round_schedule [symmetric] upt_67)
  also have "\<dots> = compress_pre cv block block_len counter flags"
    by (simp add: compress_pre_def upt_67 counter_low_def counter_high_def Let_def)
  finally have "fst (((\<lambda>(state, m). (w_round state m, w_permute m)) ^^ 7) (?s, ?m))
      = compress_pre cv block block_len counter flags" by (simp only: numeral_eq_Suc pred_numeral_simps)
  moreover have "w_BLAKE3_IV = IV" by (simp add: w_BLAKE3_IV_def IV_def)
  ultimately show ?thesis by (simp add: w_compress_def case_prod_beta Let_def)
qed

lemma w_compress_xof:
  assumes "length block = 64" "length cv = 8"
  shows "words_bytes (w_compress cv (words_from_le_bytes_64 block) counter (ucast block_len) (ucast flags))
    = compress_xof cv block block_len counter flags"
  using w_compress_eq [OF assms, of counter block_len flags]
  by (simp add: compress_xof_def le_bytes_from_words_64_def Let_def upt_8 numeral_2_eq_2 del: words_bytes_append words_bytes_Cons)

lemma w_compress_cv:
  assumes "length block = 64" "length cv = 8"
  shows "w_first8 (w_compress cv (words_from_le_bytes_64 block) counter (ucast block_len) (ucast flags))
    = compress_in_place cv block block_len counter flags"
  using w_compress_eq [OF assms, of counter block_len flags]
  by (simp add: compress_in_place_def w_first8_def subslice_def Let_def upt_8 numeral_2_eq_2)

subsection \<open>Outputs agree\<close>

definition w_of :: "b3_output \<Rightarrow> w_output" where
  "w_of ou =
     \<lparr>wo_input_cv = input_chaining_value ou, wo_block_words = words_from_le_bytes_64 (o_block ou),
      wo_counter = o_counter ou, wo_block_len = ucast (o_block_len ou), wo_flags = ucast (o_flags ou)\<rparr>"

lemma flags_or: "(ucast (a OR b :: u8) :: u32) = ucast a OR ucast b"
  by (rule bit_word_eqI) (auto simp: bit_simps)

lemma flag_constants:
  "(ucast CHUNK_START :: u32) = w_CHUNK_START" "(ucast CHUNK_END :: u32) = w_CHUNK_END"
  "(ucast PARENT :: u32) = w_PARENT" "(ucast ROOT :: u32) = w_ROOT" "(ucast KEYED_HASH :: u32) = w_KEYED_HASH"
  by (simp_all add: CHUNK_START_def w_CHUNK_START_def CHUNK_END_def w_CHUNK_END_def PARENT_def w_PARENT_def
      ROOT_def w_ROOT_def KEYED_HASH_def w_KEYED_HASH_def)

lemma w_chaining_value_of:
  "output_wf ou \<Longrightarrow> w_chaining_value (w_of ou) = words_from_le_bytes_32 (out_cv ou)"
  by (simp add: w_chaining_value_def w_of_def w_compress_cv output_wf_def out_cv_def le_bytes_from_words_32_def
      words_from_le_bytes_32_def)

lemma le_words_append:
  assumes "length l = 32" "length r = 32"
  shows "le_words 16 (l @ r) = le_words 8 l @ le_words 8 r"
proof -
  have "l @ r = words_bytes (le_words 8 l @ le_words 8 r)"
    using assms by (simp add: words_bytes_le_words)
  then have "le_words 16 (l @ r) = le_words 16 (words_bytes (le_words 8 l @ le_words 8 r))" by (simp only:)
  then show ?thesis by (simp del: words_bytes_append)
qed

lemma w_parent_of:
  assumes "length l = 32" "length r = 32"
  shows "w_parent_output (words_from_le_bytes_32 l) (words_from_le_bytes_32 r) key (ucast f)
    = w_of (parent_node_output l r key f p)"
  using assms
  by (simp add: w_parent_output_def w_of_def parent_node_output_def words_from_le_bytes_32_def
      words_from_le_bytes_64_def le_words_append put_slice_def flags_or flag_constants w_BLAKE3_BLOCK_def BLOCK_LEN_def)

lemma chunk_lens_rec:
  "0 < k \<Longrightarrow> chunk_lens k n = (if n = 0 then [] else if n < k then [n] else k # chunk_lens k (n - k))"
  by (auto simp: chunk_lens_def le_div_geq le_mod_geq)

lemma word_pieces: "m \<le> 4 \<Longrightarrow> map (\<lambda>k. ucast (drop_bit (8 * k) w) :: u8) [0..<m] = take m (u32_bytes w)"
proof -
  assume "m \<le> 4"
  have "u32_bytes w = map (\<lambda>k. ucast (drop_bit (8 * k) w)) [0..<4]"
    by (simp add: numeral_eq_Suc)
  then have "take m (u32_bytes w) = map (\<lambda>k. ucast (drop_bit (8 * k) w)) (take m [0..<4])"
    by (simp only: take_map)
  also have "take m [0..<4] = [0..<m]" using \<open>m \<le> 4\<close> by (simp add: take_upt)
  finally show ?thesis by simp
qed

lemma w_write_words_take: "m \<le> 4 * length ws \<Longrightarrow> w_write_words ws m = take m (words_bytes ws)"
proof (induction ws arbitrary: m)
  case Nil
  then show ?case by (simp add: w_write_words_def)
next
  case (Cons w ws)
  consider "m = 0" | "0 < m" "m < 4" | "4 \<le> m" by linarith
  then show ?case
  proof cases
    case 1
    then show ?thesis by (simp add: w_write_words_def chunk_lens_rec [of 4])
  next
    case 2
    then show ?thesis by (simp add: w_write_words_def chunk_lens_rec [of 4] word_pieces)
  next
    case 3
    have "w_write_words (w # ws) m = take 4 (u32_bytes w) @ w_write_words ws (m - 4)"
      using 3 unfolding w_write_words_def chunk_lens_rec [of 4 m, simplified] by (simp add: word_pieces)
    then show ?thesis using Cons.IH [of "m - 4"] Cons.prems 3 by simp
  qed
qed

lemma chunked_stream:
  assumes B: "\<And>i. length (B i) = 64"
  shows "concat (map (\<lambda>(i, m). take m (B i)) (zip [c..<c + length (chunk_lens 64 n)] (chunk_lens 64 n)))
    = map (\<lambda>i. B (i div 64) ! (i mod 64)) [64 * c..<64 * c + n]"
proof (induction n arbitrary: c rule: less_induct)
  case (less n)
  have block: "take m (B c) = map (\<lambda>i. B (i div 64) ! (i mod 64)) [64 * c..<64 * c + m]" if "m \<le> 64" for m
    using that B by (intro nth_equalityI) (auto simp: div_nat_eqI modulo_nat_def)
  consider "n = 0" | "0 < n" "n < 64" | "64 \<le> n" by linarith
  then show ?case
  proof cases
    case 1
    then show ?thesis by (simp add: chunk_lens_rec [of 64])
  next
    case 2
    then show ?thesis using block [of n] by (simp add: chunk_lens_rec [of 64])
  next
    case 3
    then have rec: "chunk_lens 64 n = 64 # chunk_lens 64 (n - 64)" by (simp add: chunk_lens_rec [of 64 n])
    have "zip [c..<c + length (chunk_lens 64 n)] (chunk_lens 64 n)
        = (c, 64) # zip [Suc c..<Suc c + length (chunk_lens 64 (n - 64))] (chunk_lens 64 (n - 64))"
      unfolding rec by (simp add: upt_conv_Cons del: upt_Suc)
    then have "concat (map (\<lambda>(i, m). take m (B i)) (zip [c..<c + length (chunk_lens 64 n)] (chunk_lens 64 n)))
        = take 64 (B c) @ map (\<lambda>i. B (i div 64) ! (i mod 64)) [64 * Suc c..<64 * Suc c + (n - 64)]"
      using less [of "n - 64" "Suc c"] 3 by simp
    also have "\<dots> = map (\<lambda>i. B (i div 64) ! (i mod 64)) ([64 * c..<64 * c + 64] @ [64 * Suc c..<64 * Suc c + (n - 64)])"
      using block [of 64] by simp
    also have "[64 * c..<64 * c + 64] @ [64 * Suc c..<64 * Suc c + (n - 64)] = [64 * c..<64 * c + n]"
      using 3 upt_add_eq_append [of "64 * c" "64 * c + 64" "n - 64"] by (simp add: add.commute)
    finally show ?thesis .
  qed
qed

lemma chunk_lens_le: "0 < k \<Longrightarrow> m \<in> set (chunk_lens k n) \<Longrightarrow> m \<le> k"
  by (auto simp: chunk_lens_def less_imp_le split: if_splits)

lemma w_root_output_of:
  assumes "output_wf ou"
  shows "w_root_output_bytes (w_of ou) n = map (root_stream_byte ou) [0..<n]"
proof -
  let ?B = "\<lambda>i. compress_xof (input_chaining_value ou) (o_block ou) (o_block_len ou) (of_nat i) (o_flags ou OR ROOT)"
  have w: "w_compress (input_chaining_value ou) (words_from_le_bytes_64 (o_block ou)) (of_nat i) (ucast (o_block_len ou))
      (ucast (o_flags ou) OR w_ROOT)
    = w_compress (input_chaining_value ou) (words_from_le_bytes_64 (o_block ou)) (of_nat i) (ucast (o_block_len ou))
      (ucast (o_flags ou OR ROOT))" for i
    by (simp add: flags_or flag_constants)
  have len: "length (w_compress cv b c l f) = 16" for cv b c l f
    by (simp add: w_compress_def case_prod_beta Let_def)
  have "w_root_output_bytes (w_of ou) n
      = concat (map (\<lambda>(i, m). take m (?B i)) (zip [0..<0 + length (chunk_lens 64 n)] (chunk_lens 64 n)))"
    unfolding w_root_output_bytes_def
  proof (intro arg_cong [where f = concat] map_cong)
    fix x
    assume "x \<in> set (zip [0..<0 + length (chunk_lens 64 n)] (chunk_lens 64 n))"
    moreover obtain i m where x: "x = (i, m)" by (cases x)
    ultimately have "m \<in> set (chunk_lens 64 n)" by (auto dest: set_zip_rightD)
    then have x: "x = (i, m)" "m \<le> 64" using x chunk_lens_le [of 64 m n] by simp_all
    then show "(case x of (counter, m) \<Rightarrow> w_write_words (w_compress (wo_input_cv (w_of ou)) (wo_block_words (w_of ou))
          (of_nat counter) (wo_block_len (w_of ou)) (wo_flags (w_of ou) OR w_ROOT)) m)
        = (case x of (i, m) \<Rightarrow> take m (?B i))"
      using assms by (simp add: w_of_def w w_write_words_take len w_compress_xof output_wf_def)
  qed simp
  also have "\<dots> = map (\<lambda>i. ?B (i div 64) ! (i mod 64)) [64 * 0..<64 * 0 + n]"
    by (rule chunked_stream) simp
  finally show ?thesis by (simp add: root_stream_byte_def [abs_def])
qed

subsection \<open>Chunk states agree\<close>

definition w_state_of :: "u32 list \<Rightarrow> u64 \<Rightarrow> u8 \<Rightarrow> bytes \<Rightarrow> w_chunk" where
  "w_state_of key c f xs =
     \<lparr>wc_cv = chunk_cv key c f xs (full_blocks xs), wc_counter = c, wc_block = pad_block (last_block xs),
      wc_block_len = length (last_block xs), wc_blocks_compressed = full_blocks xs, wc_flags = ucast f\<rparr>"

lemma w_words_eq: "w_words_from_le_bytes bs = words_from_le_bytes_64 bs"
  by (simp add: w_words_from_le_bytes_def words_from_le_bytes_64_def le_words_def subslice_def mult.commute)

lemma w_chunk_new_of: "w_chunk_new key c (ucast f) = w_state_of key c f []"
  by (simp add: w_chunk_new_def w_state_of_def pad_block_def w_BLAKE3_BLOCK_def)

lemma w_chunk_len_of [simp]: "w_chunk_len (w_state_of key c f xs) = length xs"
  using last_block_bounds(2) [of xs]
  by (simp add: w_chunk_len_def w_state_of_def w_BLAKE3_BLOCK_def length_last_block mult.commute)

lemma ucast_small: "n \<le> 64 \<Longrightarrow> (ucast (of_nat n :: u8) :: u32) = of_nat n"
  by (simp add: unsigned_of_nat take_bit_nat_eq_self)

lemma w_chunk_output_of: "w_chunk_output (w_state_of key c f xs) = w_of (chunk_output key c f p xs)"
  using last_block_bounds(1) [of xs]
  by (simp add: w_chunk_output_def w_state_of_def w_of_def chunk_output_def w_words_eq w_start_flag_def
      flags_or flag_constants ucast_small del: unsigned_of_nat)

lemma w_flush_of:
  assumes "length key = 8" "length (last_block xs) = 64"
  shows "w_flush (w_state_of key c f xs)
    = \<lparr>wc_cv = chunk_cv key c f xs (Suc (full_blocks xs)), wc_counter = c, wc_block = replicate 64 0,
       wc_block_len = 0, wc_blocks_compressed = Suc (full_blocks xs), wc_flags = ucast f\<rparr>"
proof -
  let ?k = "full_blocks xs"
  have xs: "length xs = 64 * ?k + 64" using assms(2) last_block_bounds(2) [of xs] by (simp add: length_last_block)
  have "pad_block (last_block xs) = subslice (64 * ?k) (64 * ?k + 64) xs"
    using assms(2) xs by (simp add: pad_block_def last_block_def subslice_def)
  moreover have "ucast (f OR (if ?k = 0 then CHUNK_START else 0)) = ucast f OR (if ?k = 0 then w_CHUNK_START else 0)"
    by (simp add: flags_or flag_constants)
  moreover have "(of_nat w_BLAKE3_BLOCK :: u32) = ucast (64 :: u8)" by (simp add: w_BLAKE3_BLOCK_def)
  moreover have "w_first8 (w_compress (chunk_cv key c f xs ?k) (words_from_le_bytes_64 (subslice (64 * ?k) (64 * ?k + 64) xs)) c
        (ucast (64 :: u8)) (ucast (f OR (if ?k = 0 then CHUNK_START else 0))))
      = chunk_cv key c f xs (Suc ?k)"
    using assms(1) xs by (subst w_compress_cv) simp_all
  ultimately show ?thesis
    using assms by (simp add: w_flush_def w_state_of_def w_words_eq w_start_flag_def w_BLAKE3_BLOCK_def Let_def
        del: chunk_cv.simps)
qed

lemma full_blocks_eq: "length xs = 64 * k + m \<Longrightarrow> 0 < m \<Longrightarrow> m \<le> 64 \<Longrightarrow> full_blocks xs = k"
  unfolding full_blocks_def by (rule div_nat_eqI; cases m; simp)

lemma w_chunk_update_of:
  assumes key: "length key = 8"
  shows "w_chunk_update (w_state_of key c f xs) ys = Some (w_state_of key c f (xs @ ys))"
proof (induction "length ys" arbitrary: xs ys rule: less_induct)
  case less
  show ?case
  proof (cases "ys = []")
    case True
    then show ?thesis by (simp add: w_chunk_update.simps)
  next
    case False
    let ?k = "full_blocks xs" and ?l = "length (last_block xs)"
    note lb = last_block_bounds [of xs]
    have lx: "length xs = 64 * ?k + ?l" using lb(2) by (simp add: length_last_block)
    show ?thesis
    proof (cases "?l = 64")
      case True
      let ?n = "min 64 (length ys)"
      let ?zs = "xs @ take ?n ys"
      have n: "0 < ?n" "?n \<le> 64" using False by simp_all
      have "length ?zs = 64 * Suc ?k + ?n" using lx True by simp
      then have fb: "full_blocks ?zs = Suc ?k"
        by (rule full_blocks_eq) (use n in simp_all)
      have "last_block ?zs = take ?n ys" unfolding last_block_def fb using lx True by simp
      moreover have "chunk_cv key c f ?zs (Suc ?k) = chunk_cv key c f xs (Suc ?k)"
        using lx True by (intro chunk_cv_append) simp
      ultimately have "(w_flush (w_state_of key c f xs))\<lparr>wc_block := put_slice 0 (take ?n ys) (replicate 64 0),
          wc_block_len := 0 + ?n\<rparr> = w_state_of key c f ?zs"
        unfolding w_flush_of [OF key True] using fb by (simp add: w_state_of_def pad_block_def put_slice_def min.commute del: chunk_cv.simps)
      then have "w_chunk_update (w_state_of key c f xs) ys = w_chunk_update (w_state_of key c f ?zs) (drop ?n ys)"
        unfolding w_chunk_update.simps [of "w_state_of key c f xs" ys] using False
        by (simp add: Let_def w_flush_of [OF key True] w_BLAKE3_BLOCK_def del: chunk_cv.simps)
      also have "\<dots> = Some (w_state_of key c f (?zs @ drop ?n ys))"
        using False by (intro less.hyps) auto
      finally show ?thesis by simp
    next
      case small: False
      let ?n = "min (64 - ?l) (length ys)"
      let ?zs = "xs @ take ?n ys"
      have n: "0 < ?n" "?l + ?n \<le> 64" "?l < 64" using False small lb(1) by auto
      have "length ?zs = 64 * ?k + (?l + ?n)" using lx by simp
      then have fb: "full_blocks ?zs = ?k" by (rule full_blocks_eq) (use n in linarith)+
      have lz: "last_block ?zs = last_block xs @ take ?n ys"
        unfolding last_block_def [of ?zs] fb using lb(2) by (simp add: last_block_def [symmetric])
      have "put_slice ?l (take ?n ys) (pad_block (last_block xs)) = pad_block (last_block ?zs)"
        unfolding lz by (rule put_slice_pad) (use n in auto)
      moreover have "chunk_cv key c f ?zs ?k = chunk_cv key c f xs ?k"
        using lb(2) by (intro chunk_cv_append) simp
      ultimately have "(w_state_of key c f xs)\<lparr>wc_block := put_slice ?l (take ?n ys) (pad_block (last_block xs)),
          wc_block_len := ?l + ?n\<rparr> = w_state_of key c f ?zs"
        by (simp add: w_state_of_def fb lz)
      moreover have "w_flush (w_state_of key c f xs) = w_state_of key c f xs"
        using small by (simp add: w_flush_def w_state_of_def w_BLAKE3_BLOCK_def)
      moreover have "wc_block (w_state_of key c f xs) = pad_block (last_block xs)" "wc_block_len (w_state_of key c f xs) = ?l"
        by (simp_all add: w_state_of_def)
      ultimately have "w_chunk_update (w_state_of key c f xs) ys = w_chunk_update (w_state_of key c f ?zs) (drop ?n ys)"
        unfolding w_chunk_update.simps [of "w_state_of key c f xs" ys] using False n(3)
        by (simp add: Let_def w_BLAKE3_BLOCK_def)
      also have "\<dots> = Some (w_state_of key c f (?zs @ drop ?n ys))"
        using n False by (intro less.hyps) auto
      finally show ?thesis by simp
    qed
  qed
qed

subsection \<open>Stacks agree\<close>

text \<open>The live cells hold the subtrees, the others are zero.\<close>

definition w_stack_at :: "u32 list list \<Rightarrow> w_cv_stack" where
  "w_stack_at live = \<lparr>cvs = live @ replicate (64 - length live) (replicate 8 0), stack_len = length live\<rparr>"

definition w_live :: "cv_words \<Rightarrow> u8 \<Rightarrow> platform \<Rightarrow> nat list \<Rightarrow> bytes \<Rightarrow> u32 list list" where
  "w_live key f p es xs = map words_from_le_bytes_32 (stack_cvs key f p 0 es xs)"

lemma length_w_live [simp, len_simps]: "length (w_live key f p es xs) = length es"
  by (simp add: w_live_def)

lemma w_stack_new_at: "w_stack_new = w_stack_at []"
  by (simp add: w_stack_new_def w_stack_at_def w_CV_STACK_RESERVE_def)

lemma w_stack_push_at:
  "length live < 64 \<Longrightarrow> w_stack_push (w_stack_at live) cv = Some (w_stack_at (live @ [cv]))"
proof -
  assume l: "length live < 64"
  then obtain n where n: "64 - length live = Suc n" by (metis Suc_diff_Suc)
  then have "64 - Suc (length live) = n" by simp
  with l n show ?thesis by (simp add: w_stack_push_def w_stack_at_def w_CV_STACK_RESERVE_def)
qed

lemma w_stack_pop_at:
  assumes "length live < 64"
  shows "(w_stack_at (live @ [cv]))\<lparr>cvs := (cvs (w_stack_at (live @ [cv])))[length live := replicate 8 0],
      stack_len := length live\<rparr> = w_stack_at live"
    and "stack_len (w_stack_at (live @ [cv])) = Suc (length live)"
    and "cvs (w_stack_at (live @ [cv])) ! length live = cv"
proof -
  obtain n where n: "64 - length live = Suc n" using assms by (metis Suc_diff_Suc)
  then have "64 - Suc (length live) = n" by simp
  with n show "(w_stack_at (live @ [cv]))\<lparr>cvs := (cvs (w_stack_at (live @ [cv])))[length live := replicate 8 0],
      stack_len := length live\<rparr> = w_stack_at live"
    by (simp add: w_stack_at_def)
qed (simp_all add: w_stack_at_def nth_append)

lemma w_live_snoc:
  "length xs = 1024 * chunks_of es \<Longrightarrow> length ys = 1024 * 2 ^ e \<Longrightarrow>
   w_live key f p (es @ [e]) (xs @ ys)
     = w_live key f p es xs @ [words_from_le_bytes_32 (tree_cv key f p (of_nat (chunks_of es)) ys)]"
  using stack_cvs_snoc [of xs es ys e key f p 0] by (simp add: w_live_def)

lemma even_u64: "m < 2 ^ 64 \<Longrightarrow> ((of_nat m :: u64) AND 1 = 0) \<longleftrightarrow> even m"
  using mask_and [of m 1] by (simp add: and.commute)

lemma drop_bit_u64: "m < 2 ^ 64 \<Longrightarrow> drop_bit 1 (of_nat m :: u64) = of_nat (m div 2)"
proof -
  assume "m < 2 ^ 64"
  then have "unat (of_nat m :: u64) = m"
    by (simp only: unat_of_nat take_bit_nat_eq_self_iff) simp
  then show ?thesis by (simp add: drop_bit_eq_div word_arith_nat_div)
qed

subsection \<open>Adding a chunk: eager merging\<close>

lemma strict_tail_bit:
  assumes "strict es" "\<forall>e \<in> set es. k \<le> e"
  shows "even ((chunks_of es + 2 ^ k) div 2 ^ k) \<longleftrightarrow> k \<in> set es"
proof -
  have "2 ^ k dvd chunks_of es"
    using assms(2) by (induction es) (auto intro!: dvd_add le_imp_power_dvd)
  then obtain q where q: "chunks_of es = 2 ^ k * q" by (elim dvdE)
  have "(chunks_of es + 2 ^ k) div 2 ^ k = Suc q" by (simp add: q)
  moreover have "bit (chunks_of es) k \<longleftrightarrow> odd q" by (simp add: q bit_iff_odd)
  ultimately show ?thesis using bit_chunks_of [OF strict_distinct [OF assms(1)], of k] by simp
qed

lemma strict_min_last: "strict es \<Longrightarrow> \<forall>e \<in> set es. k \<le> e \<Longrightarrow> k \<in> set es \<Longrightarrow> es \<noteq> [] \<and> last es = k"
proof (cases es rule: rev_cases)
  case (snoc ys y)
  assume s: "strict es" and k: "\<forall>e \<in> set es. k \<le> e" "k \<in> set es"
  have "k \<notin> set ys"
  proof
    assume "k \<in> set ys"
    then have "y < k" using s by (simp add: snoc strict_def sorted_wrt_append)
    moreover have "k \<le> y" using k by (simp add: snoc)
    ultimately show False by simp
  qed
  then show ?thesis using k snoc by auto
qed simp

lemma w_merge_ok:
  assumes p: "platform_ok p" "length key = 8"
  shows "strict es \<Longrightarrow> \<forall>e \<in> set es. k \<le> e \<Longrightarrow> length xs = 1024 * chunks_of es \<Longrightarrow> length u = 1024 * 2 ^ k \<Longrightarrow>
    chunks_of es + 2 ^ k = T \<Longrightarrow> T \<le> 2 ^ 54 \<Longrightarrow>
    \<exists>es' xs' u' j. w_merge_cvs key (ucast f) (w_stack_at (w_live key f p es xs))
        (words_from_le_bytes_32 (tree_cv key f p (of_nat (chunks_of es)) u)) (of_nat (T div 2 ^ k))
      = Some (w_stack_at (w_live key f p es' xs'), words_from_le_bytes_32 (tree_cv key f p (of_nat (chunks_of es')) u'))
      \<and> xs @ u = xs' @ u' \<and> length xs' = 1024 * chunks_of es' \<and> length u' = 1024 * 2 ^ j
      \<and> strict (es' @ [j]) \<and> chunks_of es' + 2 ^ j = T"
proof (induction "length es" arbitrary: es k xs u)
  case 0
  then have es: "es = []" by simp
  have "odd (T div 2 ^ k)" using strict_tail_bit [of es k] 0 es by auto
  moreover have "T div 2 ^ k < 2 ^ 64" using 0 by (auto intro: le_less_trans [OF div_le_dividend])
  ultimately have odd: "(of_nat (T div 2 ^ k) :: u64) AND 1 \<noteq> 0" using even_u64 by blast
  then show ?case
    using 0 by (intro exI [of _ es] exI [of _ xs] exI [of _ u] exI [of _ k])
      (simp add: w_merge_cvs.simps es)
next
  case (Suc n)
  have T64: "T div 2 ^ k < 2 ^ 64" using Suc.prems(6) by (auto intro: le_less_trans [OF div_le_dividend])
  show ?case
  proof (cases "k \<in> set es")
    case False
    then have "odd (T div 2 ^ k)" using strict_tail_bit [OF Suc.prems(1,2)] Suc.prems(5) by simp
    then have odd: "(of_nat (T div 2 ^ k) :: u64) AND 1 \<noteq> 0" using even_u64 [OF T64] by blast
    have "k < last es" using Suc.prems(2) False Suc.hyps(2) by (metis last_in_set le_neq_implies_less length_0_conv nat.simps(3))
    then have "strict (es @ [k])" using Suc.prems(1) by (simp add: strict_snoc)
    then show ?thesis
      using odd Suc.prems by (intro exI [of _ es] exI [of _ xs] exI [of _ u] exI [of _ k])
        (simp add: w_merge_cvs.simps)
  next
    case True
    then have "even (T div 2 ^ k)" using strict_tail_bit [OF Suc.prems(1,2)] Suc.prems(5) by simp
    then have even: "(of_nat (T div 2 ^ k) :: u64) AND 1 = 0" using even_u64 [OF T64] by blast
    have half: "drop_bit 1 (of_nat (T div 2 ^ k) :: u64) = of_nat (T div 2 ^ Suc k)"
      unfolding drop_bit_u64 [OF T64] by (simp only: power_Suc2 div_mult2_eq)
    obtain es0 where es: "es = es0 @ [k]"
      using strict_min_last [OF Suc.prems(1,2) True] by (metis append_butlast_last_id)
    define v w where "v = take (1024 * chunks_of es0) xs" and "w = drop (1024 * chunks_of es0) xs"
    have xs: "xs = v @ w" by (simp add: v_def w_def)
    have lens: "length v = 1024 * chunks_of es0" "length w = 1024 * 2 ^ k"
      using Suc.prems(3) by (simp_all add: v_def w_def es)
    have live: "w_live key f p es xs
        = w_live key f p es0 v @ [words_from_le_bytes_32 (tree_cv key f p (of_nat (chunks_of es0)) w)]"
      unfolding es xs by (rule w_live_snoc) (use lens in simp_all)
    have "chunks_of es < 2 ^ 54"
      using Suc.prems(5,6) zero_less_power [of "2 :: nat" k] by linarith
    then have "length es \<le> 54" by (rule strict_length [OF Suc.prems(1)])
    then have small: "length (w_live key f p es0 v) < 64" by (simp add: es)
    note pop = w_stack_pop_at [OF small]
    have split: "tree_output key f p (of_nat (chunks_of es0)) (w @ u)
        = parent_node_output (tree_cv key f p (of_nat (chunks_of es0)) w)
            (tree_cv key f p (of_nat (chunks_of es0) + of_nat (2 ^ k)) u) key f p"
      by (rule tree_output_split) (use lens Suc.prems(4) in simp_all)
    have parent: "w_parent_cv (words_from_le_bytes_32 (tree_cv key f p (of_nat (chunks_of es0)) w))
        (words_from_le_bytes_32 (tree_cv key f p (of_nat (chunks_of es)) u)) key (ucast f)
        = words_from_le_bytes_32 (tree_cv key f p (of_nat (chunks_of es0)) (w @ u))"
      using p split by (simp add: w_parent_cv_def w_parent_of [where p = p] w_chaining_value_of es)
    have step: "w_merge_cvs key (ucast f) (w_stack_at (w_live key f p es xs))
        (words_from_le_bytes_32 (tree_cv key f p (of_nat (chunks_of es)) u)) (of_nat (T div 2 ^ k))
      = w_merge_cvs key (ucast f) (w_stack_at (w_live key f p es0 v))
        (words_from_le_bytes_32 (tree_cv key f p (of_nat (chunks_of es0)) (w @ u))) (of_nat (T div 2 ^ Suc k))"
      unfolding live
      unfolding w_merge_cvs.simps [of key "ucast f" "w_stack_at (w_live key f p es0 v @ [cv])" for cv] Let_def
      using even pop parent half by simp
    have above: "strict es0" "\<forall>e \<in> set es0. Suc k \<le> e"
      using Suc.prems(1) by (auto simp: es strict_def sorted_wrt_append)
    obtain es' xs' u' j where r: "w_merge_cvs key (ucast f) (w_stack_at (w_live key f p es0 v))
        (words_from_le_bytes_32 (tree_cv key f p (of_nat (chunks_of es0)) (w @ u))) (of_nat (T div 2 ^ Suc k))
      = Some (w_stack_at (w_live key f p es' xs'), words_from_le_bytes_32 (tree_cv key f p (of_nat (chunks_of es')) u'))"
      "v @ (w @ u) = xs' @ u'" "length xs' = 1024 * chunks_of es'" "length u' = 1024 * 2 ^ j"
      "strict (es' @ [j])" "chunks_of es' + 2 ^ j = T"
      using Suc.hyps(1) [of es0 "Suc k" v "w @ u"] Suc.hyps(2) Suc.prems lens above by (auto simp: es)
    then show ?thesis
      unfolding step using r by (intro exI [of _ es'] exI [of _ xs'] exI [of _ u'] exI [of _ j]) (simp add: xs)
  qed
qed

end
