(* ===== verification/Witness_Refines.thy ===== *)
theory Witness_Refines
  imports Witness_Blake3
begin

section \<open>The witness BLAKE3 is the tree\<close>

text \<open>
  The hasher of \<open>src/witness.rs\<close> after any sequence of updates, and the theorem that its
  \<open>keyed_xof\<close> is the output stream of the BLAKE3 tree, as is the fork's.
\<close>

subsection \<open>The invariant of the hasher\<close>

definition w_hasher_at :: "cv_words \<Rightarrow> u8 \<Rightarrow> platform \<Rightarrow> nat list \<Rightarrow> bytes \<Rightarrow> bytes \<Rightarrow> w_hasher" where
  "w_hasher_at key f p es xs t =
     \<lparr>wh_key_words = key, wh_chunk = w_state_of key (of_nat (chunks_of es)) f t,
      wh_cv_stack = w_stack_at (w_live key f p es xs), wh_flags = ucast f\<rparr>"

definition w_absorbed :: "cv_words \<Rightarrow> u8 \<Rightarrow> platform \<Rightarrow> w_hasher \<Rightarrow> bytes \<Rightarrow> bool" where
  "w_absorbed key f p h inp \<longleftrightarrow>
     (\<exists>es xs t. inp = xs @ t \<and> length xs = 1024 * chunks_of es \<and> length t \<le> 1024
        \<and> h = w_hasher_at key f p es xs t \<and> strict es \<and> (t = [] \<longrightarrow> es = []))"

lemma w_hasher_at_fields [simp]:
  "wh_key_words (w_hasher_at key f p es xs t) = key"
  "wh_chunk (w_hasher_at key f p es xs t) = w_state_of key (of_nat (chunks_of es)) f t"
  "wh_cv_stack (w_hasher_at key f p es xs t) = w_stack_at (w_live key f p es xs)"
  "wh_flags (w_hasher_at key f p es xs t) = ucast f"
  by (simp_all add: w_hasher_at_def)

lemma w_state_of_counter [simp]: "wc_counter (w_state_of key c f xs) = c"
  by (simp add: w_state_of_def)

lemma w_chunk_cv_of:
  assumes "platform_ok p" "length key = 8" "length t \<le> 1024"
  shows "w_chaining_value (w_chunk_output (w_state_of key c f t)) = words_from_le_bytes_32 (tree_cv key f p c t)"
  using assms by (simp add: w_chunk_output_of [where p = p] w_chaining_value_of tree_output_chunk)

lemma w_hasher_at_chunk:
  "(w_hasher_at key f p es xs t)\<lparr>wh_chunk := w_state_of key (of_nat (chunks_of es)) f t'\<rparr> = w_hasher_at key f p es xs t'"
  by (simp add: w_hasher_at_def)

subsection \<open>A full chunk goes to the stack\<close>

lemma w_roll_full:
  assumes p: "platform_ok p" "length key = 8"
    and es: "strict es" "length xs = 1024 * chunks_of es" "length t = 1024" "chunks_of es < 2 ^ 54"
  shows "\<exists>es'. strict es' \<and> chunks_of es' = chunks_of es + 1 \<and>
    w_roll_chunk (w_hasher_at key f p es xs t) = Some (w_hasher_at key f p es' (xs @ t) [])"
proof -
  let ?T = "chunks_of es + 1"
  obtain es' xs' u' j where m: "w_merge_cvs key (ucast f) (w_stack_at (w_live key f p es xs))
        (words_from_le_bytes_32 (tree_cv key f p (of_nat (chunks_of es)) t)) (of_nat (?T div 2 ^ 0))
      = Some (w_stack_at (w_live key f p es' xs'), words_from_le_bytes_32 (tree_cv key f p (of_nat (chunks_of es')) u'))"
      "xs @ t = xs' @ u'" "length xs' = 1024 * chunks_of es'" "length u' = 1024 * 2 ^ j"
      "strict (es' @ [j])" "chunks_of es' + 2 ^ j = ?T"
    using w_merge_ok [OF p es(1), of 0 xs t ?T f] es by auto
  have "chunks_of es' < 2 ^ 54" using m(6) es(4) zero_less_power [of "2 :: nat" j] by linarith
  then have "length es' \<le> 54" by (rule strict_length [OF strict_prefix [OF m(5)]])
  then have push: "w_stack_push (w_stack_at (w_live key f p es' xs'))
      (words_from_le_bytes_32 (tree_cv key f p (of_nat (chunks_of es')) u'))
    = Some (w_stack_at (w_live key f p (es' @ [j]) (xs' @ u')))"
    by (simp add: w_stack_push_at w_live_snoc [OF m(3,4)])
  have total: "(of_nat (chunks_of es) :: u64) + 1 = of_nat ?T" by simp
  have "w_roll_chunk (w_hasher_at key f p es xs t)
      = Some ((w_hasher_at key f p es xs t)\<lparr>wh_cv_stack := w_stack_at (w_live key f p (es' @ [j]) (xs' @ u')),
          wh_chunk := w_chunk_new key (of_nat ?T) (ucast f)\<rparr>)"
    using m(1) es(3)
    by (simp add: w_roll_chunk_def w_add_chunk_cv_def w_BLAKE3_CHUNK_def w_chunk_cv_of [OF p] push total Let_def)
  also have "\<dots> = Some (w_hasher_at key f p (es' @ [j]) (xs @ t) [])"
    using m(6) by (simp add: w_hasher_at_def w_chunk_new_of m(2))
  finally show ?thesis using m by (intro exI [of _ "es' @ [j]"]) simp
qed

lemma w_roll_part:
  "length t \<noteq> 1024 \<Longrightarrow> w_roll_chunk (w_hasher_at key f p es xs t) = Some (w_hasher_at key f p es xs t)"
  by (simp add: w_roll_chunk_def w_BLAKE3_CHUNK_def)

text \<open>Before the next bytes are copied, the chunk has room.\<close>

lemma w_roll_at:
  assumes "platform_ok p" "length key = 8" "strict es" "length xs = 1024 * chunks_of es" "length t \<le> 1024"
    and "length xs + length t + length inp < 2 ^ 64" "inp \<noteq> []"
  obtains es1 xs1 t1 where "w_roll_chunk (w_hasher_at key f p es xs t) = Some (w_hasher_at key f p es1 xs1 t1)"
    "strict es1" "length xs1 = 1024 * chunks_of es1" "length t1 < 1024" "xs1 @ t1 = xs @ t" "chunks_of es1 < 2 ^ 54"
proof (cases "length t = 1024")
  case True
  have "chunks_of es + 1 < 2 ^ 54" using assms(4,6) True by simp
  then obtain es' where "strict es'" "chunks_of es' = chunks_of es + 1"
    "w_roll_chunk (w_hasher_at key f p es xs t) = Some (w_hasher_at key f p es' (xs @ t) [])"
    using w_roll_full [OF assms(1-4) True] by (metis add_lessD1)
  then show thesis using that [of es' "xs @ t" "[]"] assms(4) True \<open>chunks_of es + 1 < 2 ^ 54\<close> by simp
next
  case False
  moreover have "chunks_of es < 2 ^ 54" using assms(4,6) by simp
  ultimately show thesis using that [of es xs t] assms(3-5) w_roll_part [of t] by simp
qed

lemma w_update_at:
  assumes p: "platform_ok p" "length key = 8"
  shows "strict es \<Longrightarrow> length xs = 1024 * chunks_of es \<Longrightarrow> length t \<le> 1024 \<Longrightarrow> (t = [] \<longrightarrow> es = []) \<Longrightarrow>
    length xs + length t + length inp < 2 ^ 64 \<Longrightarrow>
    \<exists>h'. w_update (w_hasher_at key f p es xs t) inp = Some h' \<and> w_absorbed key f p h' (xs @ t @ inp)"
proof (induction "length inp" arbitrary: es xs t inp rule: less_induct)
  case less
  show ?case
  proof (cases "inp = []")
    case True
    then show ?thesis using less.prems by (auto simp: w_update.simps w_absorbed_def)
  next
    case False
    obtain es1 xs1 t1 where r: "w_roll_chunk (w_hasher_at key f p es xs t) = Some (w_hasher_at key f p es1 xs1 t1)"
      "strict es1" "length xs1 = 1024 * chunks_of es1" "length t1 < 1024" "xs1 @ t1 = xs @ t"
      using w_roll_at [OF p less.prems(1-3,5) False] by metis
    let ?n = "min (1024 - length t1) (length inp)"
    have n: "0 < ?n" "take ?n inp \<noteq> []" using r(4) False by (simp_all add: min_def)
    have step: "w_update (w_hasher_at key f p es xs t) inp
        = w_update (w_hasher_at key f p es1 xs1 (t1 @ take ?n inp)) (drop ?n inp)"
      unfolding w_update.simps [of "w_hasher_at key f p es xs t" inp] using False n(1)
      by (simp add: r(1) Let_def w_BLAKE3_CHUNK_def w_chunk_update_of [OF p(2)] w_hasher_at_chunk del: min_less_iff_conj)
    have len: "length xs1 + length t1 = length xs + length t" using r(5) by (metis length_append)
    have "\<exists>h'. w_update (w_hasher_at key f p es1 xs1 (t1 @ take ?n inp)) (drop ?n inp) = Some h'
        \<and> w_absorbed key f p h' (xs1 @ (t1 @ take ?n inp) @ drop ?n inp)"
      by (rule less.hyps) (use r n False less.prems len in \<open>auto simp del: take_eq_Nil take_eq_Nil2\<close>)
    moreover have "xs1 @ (t1 @ take ?n inp) @ drop ?n inp = xs @ t @ inp" using r(5) by (metis append_assoc append_take_drop_id)
    ultimately show ?thesis unfolding step by (simp only:)
  qed
qed

lemma w_update_ok:
  assumes "platform_ok p" "length key = 8" "w_absorbed key f p h pre" "length pre + length inp < 2 ^ 64"
  shows "\<exists>h'. w_update h inp = Some h' \<and> w_absorbed key f p h' (pre @ inp)"
  using assms w_update_at [OF assms(1,2)] by (fastforce simp: w_absorbed_def)

lemma w_updates_ok:
  assumes p: "platform_ok p" "length key = 8"
  shows "w_absorbed key f p h pre \<Longrightarrow> length pre + length (concat parts) < 2 ^ 64 \<Longrightarrow>
    \<exists>h'. w_updates h parts = Some h' \<and> w_absorbed key f p h' (pre @ concat parts)"
proof (induction parts arbitrary: h pre)
  case Nil
  then show ?case by simp
next
  case (Cons x xs)
  then obtain h' where "w_update h x = Some h'" "w_absorbed key f p h' (pre @ x)"
    using w_update_ok [OF p, of f h pre x] by auto
  then show ?case using Cons.IH [of h' "pre @ x"] Cons.prems by simp
qed

lemma w_new_keyed_absorbed:
  "w_absorbed (words_from_le_bytes_32 key) KEYED_HASH p (w_new_keyed key) []"
proof -
  have "map (\<lambda>i. le_word (subslice (i * 4) (i * 4 + 4) key)) [0..<8] = words_from_le_bytes_32 key"
    by (simp add: words_from_le_bytes_32_def le_words_def subslice_def mult.commute)
  then have "w_new_keyed key = w_hasher_at (words_from_le_bytes_32 key) KEYED_HASH p [] [] []"
    using w_chunk_new_of [of "words_from_le_bytes_32 key" 0 KEYED_HASH]
    by (simp add: w_new_keyed_def w_hasher_at_def flag_constants w_live_def w_stack_new_at Let_def)
  then show ?thesis unfolding w_absorbed_def by (intro exI [of _ "[]"]) simp
qed

subsection \<open>Finalisation\<close>

lemma fold_parents_of:
  assumes p: "platform_ok p" "length key = 8"
  shows "output_wf ou \<Longrightarrow> \<forall>cv \<in> set stack. length cv = 32 \<Longrightarrow>
    fold (\<lambda>left ou. w_parent_output left (w_chaining_value ou) key (ucast f))
      (rev (map words_from_le_bytes_32 stack)) (w_of ou)
    = w_of (merge_down key f p stack ou) \<and> output_wf (merge_down key f p stack ou)"
proof (induction stack)
  case Nil
  then show ?case by simp
next
  case (Cons cv stack)
  let ?d = "merge_down key f p stack ou"
  have "output_wf ?d" "fold (\<lambda>left ou. w_parent_output left (w_chaining_value ou) key (ucast f))
      (rev (map words_from_le_bytes_32 stack)) (w_of ou) = w_of ?d" using Cons by simp_all
  then show ?case
    using Cons.prems p by (simp add: merge_down_Cons w_chaining_value_of w_parent_of [where p = p])
qed

lemma stack_cvs_32: "cv \<in> set (stack_cvs key f p c es xs) \<Longrightarrow> length cv = 32"
  by (induction es arbitrary: c xs) auto

lemma w_finalize_ok:
  assumes p: "platform_ok p" "length key = 8" and h: "w_absorbed key f p h inp"
  shows "w_finalize_xof h n = blake3_stream key f p inp n"
proof -
  obtain es xs t where d: "inp = xs @ t" "length xs = 1024 * chunks_of es" "length t \<le> 1024"
    "h = w_hasher_at key f p es xs t" "strict es" "t = [] \<longrightarrow> es = []"
    using h unfolding w_absorbed_def by blast
  let ?ou = "chunk_output key (of_nat (chunks_of es)) f p t"
  have take: "take (length es) (w_live key f p es xs @ zs) = w_live key f p es xs" for zs by simp
  have leaf: "tree_output key f p (of_nat (0 + chunks_of es)) t = ?ou" using d(3) by (simp add: tree_output_chunk)
  have top: "merge_down key f p (stack_cvs key f p 0 es xs) ?ou = tree_output key f p 0 inp"
  proof (cases "t = []")
    case True
    then show ?thesis using d leaf by simp
  next
    case False
    then have "room es (length t)" using room_strict [OF d(5)] d(3) by simp
    from merge_down_ok [OF p this d(2), of f 0] False leaf d(1) show ?thesis by simp
  qed
  have "w_finalize_xof h n = w_root_output_bytes (fold (\<lambda>left ou. w_parent_output left (w_chaining_value ou) key (ucast f))
      (rev (map words_from_le_bytes_32 (stack_cvs key f p 0 es xs))) (w_of ?ou)) n"
    by (simp add: w_finalize_xof_def d(4) w_stack_at_def take w_live_def w_chunk_output_of [where p = p])
  also have "\<dots> = w_root_output_bytes (w_of (tree_output key f p 0 inp)) n"
    using fold_parents_of [OF p, of ?ou "stack_cvs key f p 0 es xs" f] stack_cvs_32 p by (simp add: top)
  also have "\<dots> = blake3_stream key f p inp n"
    using p by (simp add: w_root_output_of blake3_stream_def)
  finally show ?thesis .
qed

lemma w_keyed_xof_ok:
  assumes "platform_ok p" "length key = 32" "length (concat parts) < 2 ^ 64"
  shows "w_keyed_xof key parts n = Some (blake3_stream (words_from_le_bytes_32 key) KEYED_HASH p (concat parts) n)"
proof -
  have key: "length (words_from_le_bytes_32 key) = 8" by (simp add: words_from_le_bytes_32_def)
  obtain h where "w_updates (w_new_keyed key) parts = Some h"
    "w_absorbed (words_from_le_bytes_32 key) KEYED_HASH p h (concat parts)"
    using w_updates_ok [OF assms(1) key w_new_keyed_absorbed, of parts] assms(3) by auto
  then show ?thesis
    using w_finalize_ok [OF assms(1) key] by (simp add: w_keyed_xof_def w_keyed_xof_frame_def)
qed

subsection \<open>The hasher is wiped\<close>

definition w_wiped :: "w_hasher \<Rightarrow> bool" where
  "w_wiped h \<longleftrightarrow>
     (\<forall>cv \<in> set (cvs (wh_cv_stack h)). all_zero cv) \<and> stack_len (wh_cv_stack h) = 0
     \<and> all_zero (wh_key_words h) \<and> all_zero (wc_cv (wh_chunk h)) \<and> all_zero (wc_block (wh_chunk h))
     \<and> wc_block_len (wh_chunk h) = 0 \<and> wc_blocks_compressed (wh_chunk h) = 0"

lemma w_wipe_state_ok: "w_absorbed key f p h inp \<Longrightarrow> w_wiped (w_wipe_state h)"
  by (auto simp: w_absorbed_def w_wipe_state_def w_wiped_def w_stack_at_def w_BLAKE3_BLOCK_def w_live_def Let_def)

subsection \<open>Properties\<close>

text \<open>C18. The witness's own BLAKE3, one chunk at a time with an eagerly merged stack, computes the
  keyed output that the fork's incremental hasher computes, on any cuts of the same input.\<close>

theorem witness_blake3_is_fork:
  assumes "platform_ok p" and "length key = 32" and "concat parts = concat parts'"
    and "length (concat parts) < 2 ^ 64"
  shows "w_keyed_xof key parts n
    = do { h \<leftarrow> h_updates (new_keyed p key) parts'; r \<leftarrow> finalize_xof h; (_, out) \<leftarrow> reader_fill r n; Some out }"
proof -
  let ?key = "words_from_le_bytes_32 key"
  have key: "length ?key = 8" by (simp add: words_from_le_bytes_32_def)
  obtain h where h: "h_updates (new_keyed p key) parts' = Some h" "absorbed ?key KEYED_HASH p h (concat parts')"
    using h_updates_ok [OF assms(1) key new_internal_absorbed, of parts' KEYED_HASH] assms(3,4)
    by (auto simp: new_keyed_def)
  show ?thesis
    using finalize_fill_ok [OF assms(1) key h(2), of n] h(1) w_keyed_xof_ok [OF assms(1,2,4), of n] assms(3)
    by (cases "finalize_xof h") (simp_all split: option.splits prod.splits)
qed

lemma witness_blake3_is_fork_witness:
  "w_keyed_xof (replicate 32 1) [[1, 2], replicate 2000 3] 65
    = do { h \<leftarrow> h_updates (new_keyed (detect (strict_build True)) (replicate 32 1)) [[1], 2 # replicate 2000 3];
           r \<leftarrow> finalize_xof h; (_, out) \<leftarrow> reader_fill r 65; Some out }"
  by (rule witness_blake3_is_fork) simp_all

text \<open>C19. When \<open>keyed_xof\<close> returns, the hasher it leaves behind holds no key word, no chaining
  value and no input byte: every cell of the stack array is zero, the popped and unused ones included.\<close>

theorem witness_hasher_is_wiped:
  assumes "length key = 32" and "length (concat parts) < 2 ^ 64"
  shows "\<exists>h. map_option snd (w_keyed_xof_frame key parts n) = Some h \<and> w_wiped h"
proof -
  let ?p = "detect (strict_build True)" and ?key = "words_from_le_bytes_32 key"
  have key: "length ?key = 8" by (simp add: words_from_le_bytes_32_def)
  obtain h where "w_updates (w_new_keyed key) parts = Some h" "w_absorbed ?key KEYED_HASH ?p h (concat parts)"
    using w_updates_ok [OF strict_platform_ok key w_new_keyed_absorbed, of parts] assms(2) by auto
  then show ?thesis using w_wipe_state_ok by (auto simp: w_keyed_xof_frame_def)
qed

lemma witness_hasher_is_wiped_witness:
  "\<exists>h. map_option snd (w_keyed_xof_frame (replicate 32 7) [replicate 3000 1, [2]] 65) = Some h \<and> w_wiped h"
  by (rule witness_hasher_is_wiped) simp_all

end
