(* ===== verification/Witness_Siv.thy ===== *)
theory Witness_Siv
  imports Witness_Refines Siv_Kdf
begin

section \<open>The witness: the construction\<close>

text \<open>
  The last part of \<open>src/witness.rs\<close>: the derivations, the tag and the decryption over the
  witness's own ChaCha20 and BLAKE3.  As in \<open>Siv_Kdf\<close>, a function returns its residue next
  to its value; the caller's buffers are not part of it.
\<close>

definition w_hasher_bytes :: "w_hasher \<Rightarrow> bytes" where
  "w_hasher_bytes h =
     words_bytes (concat (cvs (wh_cv_stack h))) @ words_bytes (wh_key_words h) @ words_bytes (wc_cv (wh_chunk h))
     @ wc_block (wh_chunk h)"

definition w_keyed_xof_into :: "bytes \<Rightarrow> bytes list \<Rightarrow> nat \<Rightarrow> (bytes \<times> bytes list) option" where
  "w_keyed_xof_into key parts n = map_option (\<lambda>(out, h). (out, [w_hasher_bytes h])) (w_keyed_xof_frame key parts n)"

definition w_material :: "bytes \<Rightarrow> bytes \<Rightarrow> ((bytes \<times> bytes \<times> bytes) \<times> bytes list) option" where
  "w_material key nonce =
     do {
       let hch_nonce = put_slice 0 (subslice 0 16 nonce) (replicate 16 0);
       let subkey = w_hchacha20 key hch_nonce;
       let sub_nonce = replicate 12 0;
       let sub_nonce = put_slice 0 SUBKEY_DOMAIN sub_nonce;
       let sub_nonce = put_slice 4 (subslice 16 24 nonce) sub_nonce;
       block0 \<leftarrow> w_keystream_xor subkey 0 sub_nonce (replicate 64 0) (replicate 64 0);
       block1 \<leftarrow> w_keystream_xor subkey 1 sub_nonce (replicate 64 0) (replicate 64 0);
       let k_in = subslice 0 32 block0;
       let k_out = subslice 32 64 block0;
       let enc_seed = subslice 0 32 block1;
       Some ((k_in, k_out, enc_seed),
             [wiped subkey, wiped sub_nonce, wiped hch_nonce, wiped block0, wiped block1])
     }"

definition w_tag :: "bytes \<Rightarrow> bytes \<Rightarrow> bytes \<Rightarrow> bytes \<Rightarrow> bytes \<Rightarrow> (bytes \<times> bytes list) option" where
  "w_tag k_in k_out nonce aad msg =
     do {
       let head = replicate (8 + NONCE_LEN + 16) 0;
       let head = put_slice 0 DOM_PRE head;
       let head = put_slice 8 nonce head;
       let head = put_slice (8 + NONCE_LEN) (u64_bytes (of_nat (length aad))) head;
       let head = put_slice (16 + NONCE_LEN) (u64_bytes (of_nat (length msg))) head;
       (inner, r) \<leftarrow> w_keyed_xof_into k_in [head, aad, msg] 32;
       let outer = put_slice 8 inner (put_slice 0 DOM_TAG (replicate (8 + 32) 0));
       (out, r') \<leftarrow> w_keyed_xof_into k_out [outer] TAG_LEN;
       Some (out, r @ r' @ [wiped inner, wiped outer])
     }"

definition w_enc_material :: "bytes \<Rightarrow> bytes \<Rightarrow> ((bytes \<times> bytes) \<times> bytes list) option" where
  "w_enc_material enc_seed tag =
     do {
       let inp = put_slice 8 tag (put_slice 0 DOM_ENC (replicate (8 + TAG_LEN) 0));
       (material, r) \<leftarrow> w_keyed_xof_into enc_seed [inp] 44;
       let enc_key = subslice 0 32 material;
       let enc_nonce = subslice 32 44 material;
       Some ((enc_key, enc_nonce), r @ [wiped inp, wiped material])
     }"

text \<open>\<open>decrypt\<close> returns the recomputed tag and writes the plaintext into the caller's slice.\<close>

definition w_decrypt ::
  "bytes \<Rightarrow> bytes \<Rightarrow> bytes \<Rightarrow> bytes \<Rightarrow> bytes \<Rightarrow> bytes \<Rightarrow> ((bytes \<times> bytes) \<times> bytes list) option"
where
  "w_decrypt key nonce aad ciphertext received_tag plaintext =
     do {
       assert_that (length plaintext = length ciphertext);
       ((k_in, k_out, enc_seed), r1) \<leftarrow> w_material key nonce;
       ((enc_key, enc_nonce), r2) \<leftarrow> w_enc_material enc_seed received_tag;
       plaintext \<leftarrow> w_keystream_xor enc_key 0 enc_nonce ciphertext plaintext;
       (recomputed, r3) \<leftarrow> w_tag k_in k_out nonce aad plaintext;
       Some ((recomputed, plaintext),
             r1 @ r2 @ r3 @ [wiped k_in, wiped k_out, wiped enc_seed, wiped enc_key, wiped enc_nonce])
     }"

definition w_encrypt_tag :: "bytes \<Rightarrow> bytes \<Rightarrow> bytes \<Rightarrow> bytes \<Rightarrow> (bytes \<times> bytes list) option" where
  "w_encrypt_tag key nonce aad plaintext =
     do {
       ((k_in, k_out, enc_seed), r1) \<leftarrow> w_material key nonce;
       (t, r2) \<leftarrow> w_tag k_in k_out nonce aad plaintext;
       Some (t, r1 @ r2 @ [wiped k_in, wiped k_out, wiped enc_seed])
     }"

subsection \<open>The witness's BLAKE3 as a keyed XOF\<close>

lemma all_zero_concat: "\<forall>x \<in> set xs. all_zero x \<Longrightarrow> all_zero (concat xs)"
  by (induction xs) auto

lemma w_wiped_bytes: "w_wiped h \<Longrightarrow> all_zero (w_hasher_bytes h)"
  by (simp add: w_wiped_def w_hasher_bytes_def all_zero_words_bytes all_zero_concat)

lemma w_keyed_xof_into_ok:
  assumes "length key = 32" "length (concat parts) < 2 ^ 64"
  shows "\<exists>res. w_keyed_xof_into key parts n = Some (keyed_stream key (concat parts) n, res) \<and> clean res"
proof -
  let ?p = "detect (strict_build False)" and ?key = "words_from_le_bytes_32 key"
  have key: "length ?key = 8" by (simp add: words_from_le_bytes_32_def)
  obtain h where h: "w_updates (w_new_keyed key) parts = Some h" "w_absorbed ?key KEYED_HASH ?p h (concat parts)"
    using w_updates_ok [OF strict_platform_ok key w_new_keyed_absorbed, of parts] assms(2) by auto
  then show ?thesis
    using w_finalize_ok [OF strict_platform_ok key h(2), of n] w_wipe_state_ok [OF h(2)]
    by (simp add: w_keyed_xof_into_def w_keyed_xof_frame_def keyed_stream_def w_wiped_bytes)
qed

interpretation witness: keyed_xof "\<lambda>_ :: unit. True" "\<lambda>_. w_keyed_xof_into" keyed_stream
  by unfold_locales (simp_all add: w_keyed_xof_into_ok keyed_stream_prefix)

subsection \<open>The witness follows the specification\<close>

lemma w_keystream_xor_spec:
  "length key = 32 \<Longrightarrow> length nonce = 12 \<Longrightarrow> length src = length dst \<Longrightarrow>
   w_keystream_xor key c nonce src dst = Some (xor_bytes src (chacha20_stream key c nonce (length src)))"
  using w_keystream_xor_eq [of key nonce c src dst Other_Target] by (simp add: chacha20_keystream_correct)

lemma xor_zeros: "length ks = n \<Longrightarrow> xor_bytes (replicate n 0) ks = ks"
  by (rule nth_equalityI) (simp_all add: nth_xor_bytes)

lemma w_material_ok:
  assumes "length key = 32" "length nonce = 24"
  shows "\<exists>res. w_material key nonce = Some (spec_material key nonce, res) \<and> clean res"
proof -
  have "put_slice 4 (subslice 16 24 nonce) (put_slice 0 SUBKEY_DOMAIN (replicate 12 0)) = SUBKEY_DOMAIN @ drop 16 nonce"
    "put_slice 0 (subslice 0 16 nonce) (replicate 16 0) = take 16 nonce"
    using assms(2) by (simp_all add: put_slice_def subslice_def)
  then show ?thesis
    using assms by (simp add: w_material_def spec_material_def w_keystream_xor_spec xor_zeros w_hchacha20_eq subslice_def Let_def)
qed

lemma w_tag_ok:
  assumes len: "length k_in = 32" "length k_out = 32" "length nonce = 24"
    and small: "length aad + length msg < 2 ^ 63"
  shows "\<exists>res. w_tag k_in k_out nonce aad msg = Some (spec_tag k_in k_out nonce aad msg, res) \<and> clean res"
proof -
  let ?X = "keyed_stream k_in (spec_head nonce aad msg) 32"
  note head = tag_head_eq [OF len(3), of aad msg]
  have "length (spec_head nonce aad msg) < 2 ^ 64" using small len(3) by (simp add: spec_head_def)
  then have parts: "length (concat [tag_head nonce aad msg, aad, msg]) < 2 ^ 64" unfolding head .
  obtain r r' where "w_keyed_xof_into k_in [tag_head nonce aad msg, aad, msg] 32 = Some (?X, r)" "clean r"
    "w_keyed_xof_into k_out [put_slice 8 ?X (put_slice 0 DOM_TAG (replicate 40 0))] TAG_LEN
        = Some (spec_tag k_in k_out nonce aad msg, r')" "clean r'"
    using witness.two_level [OF TrueI len(1,2) parts, of DOM_TAG TAG_LEN] unfolding head spec_tag_def by auto
  then show ?thesis by (simp add: w_tag_def tag_head_def Let_def)
qed

lemma w_enc_material_ok:
  assumes "length enc_seed = 32" "length tag = 65"
  shows "\<exists>res. w_enc_material enc_seed tag = Some (spec_enc enc_seed tag, res) \<and> clean res"
proof -
  have "put_slice 8 tag (put_slice 0 DOM_ENC (replicate (8 + TAG_LEN) 0)) = DOM_ENC @ tag"
    using assms(2) by (simp add: put_slice_def TAG_LEN_def)
  then show ?thesis
    using witness.xof_stream [OF TrueI assms(1), of "[DOM_ENC @ tag]" 44] assms(2)
    by (auto simp: w_enc_material_def spec_enc_def subslice_def Let_def)
qed

end
