(* ===== verification/Siv_Api.thy ===== *)
theory Siv_Api
  imports Siv_Gates Witness_Siv
begin

section \<open>Encryption and decryption\<close>

text \<open>
  The public entry points of \<open>src/lib.rs\<close> in every build.  The result of a call is a value or
  an error, the residue (what its named buffers and those of the functions it called hold when it
  returns) and the allocation counter; an entry point that works in place returns the caller's
  buffer as well.  \<open>None\<close> would be a panic.  A buffer that goes to the caller is not residue.
\<close>

definition check_lengths :: "nat \<Rightarrow> nat \<Rightarrow> siv_error + unit" where
  "check_lengths msg_len aad_len =
     (if MAX_MSG_SIZE < msg_len then Inl MessageTooLong
      else if MAX_MSG_SIZE < aad_len then Inl AadTooLong
      else Inr ())"

definition alloc_zeroed :: "siv_env \<Rightarrow> nat \<Rightarrow> nat \<Rightarrow> (siv_error + bytes) \<times> nat" where
  "alloc_zeroed E k len =
     (case try_reserve_exact (siv_alloc E) k len of
        (True, k) \<Rightarrow> (Inr (replicate len 0), k)
      | (False, k) \<Rightarrow> (Inl AllocationFailed, k))"

subsection \<open>Encryption\<close>

text \<open>The cross-check of \<open>encrypt\<close> under \<open>ultra\<close>: the two outcomes and the residue.\<close>

definition encrypt_witness ::
  "siv_env \<Rightarrow> bytes \<Rightarrow> bytes \<Rightarrow> bytes \<Rightarrow> bytes \<Rightarrow> bytes \<Rightarrow> ((outcome \<times> outcome) \<times> bytes list) option"
where
  "encrypt_witness E key nonce aad plaintext tag =
     do {
       (witness_tag, r) \<leftarrow> w_encrypt_tag key nonce aad plaintext;
       let agree = ct_eq witness_tag tag;
       let agree2 = ct_eq_independent witness_tag tag;
       let decisions = accept_or_reject E agree agree2 rejections;
       Some (decisions, r @ [wiped witness_tag])
     }"

definition encrypt ::
  "siv_env \<Rightarrow> nat \<Rightarrow> bytes \<Rightarrow> bytes \<Rightarrow> bytes \<Rightarrow> bytes \<Rightarrow> ((siv_error + bytes \<times> bytes) \<times> bytes list \<times> nat) option"
where
  "encrypt E k key nonce aad plaintext =
     (case check_lengths (length plaintext) (length aad) of
        Inl e \<Rightarrow> Some (Inl e, [], k)
      | Inr _ \<Rightarrow>
        (case alloc_zeroed E k (length plaintext) of
           (Inl e, k) \<Rightarrow> Some (Inl e, [], k)
         | (Inr ciphertext, k) \<Rightarrow> do {
             ((k_in, k_out, enc_seed), r1) \<leftarrow> derive_material E key nonce;
             (tag, r2, k) \<leftarrow> derive_tag E k k_in k_out nonce aad plaintext;
             (decisions, r3) \<leftarrow>
               (if ultra E then encrypt_witness E key nonce aad plaintext tag else Some ((Inr (), Inr ()), []));
             (if \<not> accepted decisions then
                Some (Inl AuthenticationFailed,
                      r1 @ r2 @ r3 @ [wiped k_in, wiped k_out, wiped enc_seed, wiped tag, ciphertext], k)
              else do {
                ((enc_key, enc_nonce), r4) \<leftarrow> derive_enc E enc_seed tag;
                ciphertext \<leftarrow> chacha20_keystream (siv_target E) enc_key 0 enc_nonce plaintext ciphertext;
                Some (Inr (ciphertext, tag),
                      r1 @ r2 @ r3 @ r4 @ [wiped k_in, wiped k_out, wiped enc_seed, wiped enc_key, wiped enc_nonce], k)
              })
           }))"

definition encrypt_in_place_detached ::
  "siv_env \<Rightarrow> nat \<Rightarrow> bytes \<Rightarrow> bytes \<Rightarrow> bytes \<Rightarrow> bytes
     \<Rightarrow> ((siv_error + bytes) \<times> bytes \<times> bytes list \<times> nat) option"
where
  "encrypt_in_place_detached E k key nonce aad buffer =
     (case check_lengths (length buffer) (length aad) of
        Inl e \<Rightarrow> Some (Inl e, buffer, [], k)
      | Inr _ \<Rightarrow> do {
          ((k_in, k_out, enc_seed), r1) \<leftarrow> derive_material E key nonce;
          (tag, r2, k) \<leftarrow> derive_tag E k k_in k_out nonce aad buffer;
          ((enc_key, enc_nonce), r3) \<leftarrow> derive_enc E enc_seed tag;
          buffer \<leftarrow> chacha20_apply (siv_target E) enc_key 0 enc_nonce InPlace buffer;
          Some (Inr tag, buffer,
                r1 @ r2 @ r3 @ [wiped k_in, wiped k_out, wiped enc_seed, wiped enc_key, wiped enc_nonce], k)
        })"

subsection \<open>Decryption\<close>

text \<open>The witness's agreement under \<open>ultra\<close>; the constant \<open>true\<close> otherwise.\<close>

definition decrypt_witness ::
  "siv_env \<Rightarrow> bytes \<Rightarrow> bytes \<Rightarrow> bytes \<Rightarrow> bytes \<Rightarrow> bytes \<Rightarrow> bytes \<Rightarrow> bytes \<Rightarrow> bytes \<Rightarrow> (bool \<times> bytes list) option"
where
  "decrypt_witness E key nonce aad ciphertext tag witness_plaintext computed_tag plaintext =
     (if ultra E then
        do {
          ((witness_tag, witness_plaintext), r) \<leftarrow> w_decrypt key nonce aad ciphertext tag witness_plaintext;
          let agree = (ct_eq witness_tag computed_tag \<and> ct_eq witness_plaintext plaintext);
          Some (agree, r @ [wiped witness_tag, wiped witness_plaintext])
        }
      else Some (True, []))"

text \<open>
  What the two decrypting entry points have in common after the plaintext is recovered: the tag,
  the witness, the independent recomputation under \<open>dual-mac\<close>, the gates, the wipes of the
  derived values and the decision.
\<close>

definition verify ::
  "siv_env \<Rightarrow> nat \<Rightarrow> bytes \<Rightarrow> bytes \<Rightarrow> bytes \<Rightarrow> bytes \<Rightarrow> bytes \<Rightarrow> bytes \<times> bytes \<Rightarrow> bytes \<Rightarrow> bytes
     \<Rightarrow> ((outcome \<times> outcome) \<times> bytes list \<times> nat) option"
where
  "verify E k key nonce aad ciphertext tag tag_keys witness_plaintext plaintext =
     (case tag_keys of (k_in, k_out) \<Rightarrow>
     do {
       (computed_tag, r1, k) \<leftarrow> derive_tag E k k_in k_out nonce aad plaintext;
       (witness_ok, r2) \<leftarrow> decrypt_witness E key nonce aad ciphertext tag witness_plaintext computed_tag plaintext;
       (recomputed_tag, r3, k) \<leftarrow>
         (if dual_mac E then derive_tag E k k_in k_out nonce aad plaintext else Some ([], [], k));
       let ((gate0, gate1), r4) = gates E computed_tag recomputed_tag tag witness_ok;
       let decisions = accept_or_reject E gate0 gate1 rejections;
       Some (decisions, r1 @ r2 @ r3 @ r4 @ [wiped computed_tag, wiped recomputed_tag], k)
     })"

definition decrypt ::
  "siv_env \<Rightarrow> nat \<Rightarrow> bytes \<Rightarrow> bytes \<Rightarrow> bytes \<Rightarrow> bytes \<Rightarrow> bytes \<Rightarrow> ((siv_error + bytes) \<times> bytes list \<times> nat) option"
where
  "decrypt E k key nonce aad ciphertext tag =
     (case check_lengths (length ciphertext) (length aad) of
        Inl e \<Rightarrow> Some (Inl e, [], k)
      | Inr _ \<Rightarrow>
        (case alloc_zeroed E k (length ciphertext) of
           (Inl e, k) \<Rightarrow> Some (Inl e, [], k)
         | (Inr plaintext, k) \<Rightarrow>
           (case (if ultra E then alloc_zeroed E k (length ciphertext) else (Inr [], k)) of
              (Inl e, k) \<Rightarrow> Some (Inl e, [plaintext], k)
            | (Inr witness_plaintext, k) \<Rightarrow> do {
                ((k_in, k_out, enc_seed), r1) \<leftarrow> derive_material E key nonce;
                ((enc_key, enc_nonce), r2) \<leftarrow> derive_enc E enc_seed tag;
                plaintext \<leftarrow> chacha20_keystream (siv_target E) enc_key 0 enc_nonce ciphertext plaintext;
                (decisions, r3, k) \<leftarrow>
                  verify E k key nonce aad ciphertext tag (k_in, k_out) witness_plaintext plaintext;
                let res = r1 @ r2 @ r3
                  @ [wiped k_in, wiped k_out, wiped enc_seed, wiped enc_key, wiped enc_nonce];
                (if \<not> accepted decisions
                 then Some (Inl AuthenticationFailed, res @ [wiped plaintext], k)
                 else Some (Inr plaintext, res, k))
              })))"

definition decrypt_bounded ::
  "siv_env \<Rightarrow> nat \<Rightarrow> bytes \<Rightarrow> bytes \<Rightarrow> bytes \<Rightarrow> bytes \<Rightarrow> bytes \<Rightarrow> nat
     \<Rightarrow> ((siv_error + bytes) \<times> bytes list \<times> nat) option"
where
  "decrypt_bounded E k key nonce aad ciphertext tag max_len =
     (if max_len < length ciphertext then Some (Inl MessageTooLong, [], k)
      else decrypt E k key nonce aad ciphertext tag)"

text \<open>In place: the buffer at return is the third component, wiped on every failure.\<close>

definition decrypt_in_place_detached ::
  "siv_env \<Rightarrow> nat \<Rightarrow> bytes \<Rightarrow> bytes \<Rightarrow> bytes \<Rightarrow> bytes \<Rightarrow> bytes
     \<Rightarrow> ((siv_error + unit) \<times> bytes \<times> bytes list \<times> nat) option"
where
  "decrypt_in_place_detached E k key nonce aad buffer tag =
     (case check_lengths (length buffer) (length aad) of
        Inl e \<Rightarrow> Some (Inl e, wiped buffer, [], k)
      | Inr _ \<Rightarrow>
        (case (if ultra E then alloc_zeroed E k (length buffer) else (Inr [], k)) of
           (Inl e, k) \<Rightarrow> Some (Inl e, wiped buffer, [], k)
         | (Inr witness_ciphertext, k) \<Rightarrow>
           (case (if ultra E then alloc_zeroed E k (length buffer) else (Inr [], k)) of
              (Inl e, k) \<Rightarrow> Some (Inl e, wiped buffer, [witness_ciphertext], k)
            | (Inr witness_plaintext, k) \<Rightarrow> do {
                ((k_in, k_out, enc_seed), r1) \<leftarrow> derive_material E key nonce;
                ((enc_key, enc_nonce), r2) \<leftarrow> derive_enc E enc_seed tag;
                let witness_ciphertext = (if ultra E then buffer else []);
                buffer \<leftarrow> chacha20_apply (siv_target E) enc_key 0 enc_nonce InPlace buffer;
                (decisions, r3, k) \<leftarrow>
                  verify E k key nonce aad witness_ciphertext tag (k_in, k_out) witness_plaintext buffer;
                let res = r1 @ r2 @ r3
                  @ [wiped witness_ciphertext, wiped k_in, wiped k_out, wiped enc_seed, wiped enc_key, wiped enc_nonce];
                (if \<not> accepted decisions
                 then Some (Inl AuthenticationFailed, wiped buffer, res, k)
                 else Some (Inr (), buffer, res, k))
              })))"

subsection \<open>The scheme as a specification\<close>

definition siv_keystream :: "bytes \<Rightarrow> bytes \<Rightarrow> bytes \<Rightarrow> nat \<Rightarrow> bytes" where
  "siv_keystream key nonce tag n =
     (case spec_material key nonce of (_, _, enc_seed) \<Rightarrow>
        case spec_enc enc_seed tag of (enc_key, enc_nonce) \<Rightarrow> chacha20_stream enc_key 0 enc_nonce n)"

definition siv_tag :: "bytes \<Rightarrow> bytes \<Rightarrow> bytes \<Rightarrow> bytes \<Rightarrow> bytes" where
  "siv_tag key nonce aad msg =
     (case spec_material key nonce of (k_in, k_out, _) \<Rightarrow> spec_tag k_in k_out nonce aad msg)"

definition siv_apply :: "bytes \<Rightarrow> bytes \<Rightarrow> bytes \<Rightarrow> bytes \<Rightarrow> bytes" where
  "siv_apply key nonce tag xs = xor_bytes xs (siv_keystream key nonce tag (length xs))"

definition siv_encrypt :: "bytes \<Rightarrow> bytes \<Rightarrow> bytes \<Rightarrow> bytes \<Rightarrow> bytes \<times> bytes" where
  "siv_encrypt key nonce aad msg =
     (let tag = siv_tag key nonce aad msg in (siv_apply key nonce tag msg, tag))"

definition siv_decrypt :: "bytes \<Rightarrow> bytes \<Rightarrow> bytes \<Rightarrow> bytes \<Rightarrow> bytes \<Rightarrow> bytes option" where
  "siv_decrypt key nonce aad ciphertext tag =
     (let msg = siv_apply key nonce tag ciphertext
      in if siv_tag key nonce aad msg = tag then Some msg else None)"

lemma length_siv_keystream [simp, len_simps]: "length (siv_keystream key nonce tag n) = n"
  by (simp add: siv_keystream_def case_prod_beta)

lemma length_siv_apply [simp, len_simps]: "length (siv_apply key nonce tag xs) = length xs"
  by (simp add: siv_apply_def)

lemma length_siv_tag [simp, len_simps]: "length (siv_tag key nonce aad msg) = 65"
  by (simp add: siv_tag_def case_prod_beta)

lemma siv_apply_twice: "siv_apply key nonce tag (siv_apply key nonce tag xs) = xs"
  by (simp add: siv_apply_def xor_bytes_cancel)

lemma siv_decrypt_encrypt: "siv_encrypt key nonce aad msg = (c, t) \<Longrightarrow> siv_decrypt key nonce aad c t = Some msg"
  by (auto simp: siv_encrypt_def siv_decrypt_def siv_apply_twice Let_def)

lemma siv_encrypt_decrypt: "siv_decrypt key nonce aad c t = Some msg \<Longrightarrow> siv_encrypt key nonce aad msg = (c, t)"
  using siv_apply_twice [of key nonce t c]
  by (auto simp: siv_encrypt_def siv_decrypt_def Let_def split: if_splits)

subsection \<open>The entry points compute the specification\<close>

text \<open>The lengths an entry point is called with, and the ones it accepts.\<close>

definition sized :: "bytes \<Rightarrow> bytes \<Rightarrow> bool" where
  "sized key nonce \<longleftrightarrow> length key = 32 \<and> length nonce = 24"

definition fits :: "bytes \<Rightarrow> bytes \<Rightarrow> bool" where
  "fits msg aad \<longleftrightarrow> length msg \<le> MAX_MSG_SIZE \<and> length aad \<le> MAX_MSG_SIZE"

lemma fits_small: "fits msg aad \<Longrightarrow> length aad + length msg < 2 ^ 63"
  by (simp add: fits_def MAX_MSG_SIZE_def)

lemma check_lengths_cases:
  "check_lengths (length msg) (length aad) = Inr () \<longleftrightarrow> fits msg aad"
  "check_lengths (length msg) (length aad) = Inl MessageTooLong \<longleftrightarrow> MAX_MSG_SIZE < length msg"
  "check_lengths (length msg) (length aad) = Inl AadTooLong \<longleftrightarrow> length msg \<le> MAX_MSG_SIZE \<and> MAX_MSG_SIZE < length aad"
  by (auto simp: check_lengths_def fits_def)

lemma check_lengths_fits: "fits msg aad \<Longrightarrow> check_lengths (length msg) (length aad) = Inr ()"
  by (simp add: check_lengths_cases)

lemma alloc_zeroed_cases:
  obtains k' where "alloc_zeroed E k n = (Inr (replicate n 0), k')"
  | k' where "alloc_zeroed E k n = (Inl AllocationFailed, k')"
  by (cases "try_reserve_exact (siv_alloc E) k n"; cases "fst (try_reserve_exact (siv_alloc E) k n)")
    (auto simp: alloc_zeroed_def)

text \<open>The derivations, named once for a key and a nonce.\<close>

lemma derivations:
  assumes "env_ok E" "sized key nonce"
  obtains k_in k_out enc_seed r where
    "spec_material key nonce = (k_in, k_out, enc_seed)"
    "derive_material E key nonce = Some ((k_in, k_out, enc_seed), r)" "clean r"
    "length k_in = 32" "length k_out = 32" "length enc_seed = 32"
proof -
  obtain k_in k_out enc_seed where m: "spec_material key nonce = (k_in, k_out, enc_seed)"
    by (metis prod_cases3)
  moreover obtain r where "derive_material E key nonce = Some (spec_material key nonce, r)" "clean r"
    using derive_material_ok [of key nonce E] assms by (auto simp: sized_def)
  ultimately show thesis using that spec_lengths(1) [OF m] by simp
qed

lemma w_encrypt_tag_ok:
  assumes "sized key nonce" "length aad + length msg < 2 ^ 63"
  shows "\<exists>res. w_encrypt_tag key nonce aad msg = Some (siv_tag key nonce aad msg, res) \<and> clean res"
proof -
  obtain k_in k_out enc_seed where m: "spec_material key nonce = (k_in, k_out, enc_seed)" by (metis prod_cases3)
  obtain r1 where "w_material key nonce = Some ((k_in, k_out, enc_seed), r1)" "clean r1"
    using w_material_ok [of key nonce] assms(1) by (auto simp: sized_def m)
  moreover obtain r2 where "w_tag k_in k_out nonce aad msg = Some (spec_tag k_in k_out nonce aad msg, r2)" "clean r2"
    using w_tag_ok [of k_in k_out nonce aad msg] spec_lengths(1) [OF m] assms by (auto simp: sized_def)
  ultimately show ?thesis by (simp add: w_encrypt_tag_def siv_tag_def m)
qed

lemma w_decrypt_ok:
  assumes "sized key nonce" "length aad + length c < 2 ^ 63" "length tag = 65" "length out = length c"
  shows "\<exists>res. w_decrypt key nonce aad c tag out
    = Some ((siv_tag key nonce aad (siv_apply key nonce tag c), siv_apply key nonce tag c), res) \<and> clean res"
proof -
  obtain k_in k_out enc_seed where m: "spec_material key nonce = (k_in, k_out, enc_seed)" by (metis prod_cases3)
  note len = spec_lengths(1) [OF m]
  obtain enc_key enc_nonce where e: "spec_enc enc_seed tag = (enc_key, enc_nonce)" by (metis prod.exhaust)
  let ?pt = "siv_apply key nonce tag c"
  obtain r1 where "w_material key nonce = Some ((k_in, k_out, enc_seed), r1)" "clean r1"
    using w_material_ok [of key nonce] assms(1) by (auto simp: sized_def m)
  moreover obtain r2 where "w_enc_material enc_seed tag = Some ((enc_key, enc_nonce), r2)" "clean r2"
    using w_enc_material_ok [of enc_seed tag] len assms(3) by (auto simp: e)
  moreover have "w_keystream_xor enc_key 0 enc_nonce c out = Some ?pt"
    using spec_lengths(2) [OF e] assms(4) by (simp add: w_keystream_xor_spec siv_apply_def siv_keystream_def m e)
  moreover obtain r3 where "w_tag k_in k_out nonce aad ?pt = Some (spec_tag k_in k_out nonce aad ?pt, r3)" "clean r3"
    using w_tag_ok [of k_in k_out nonce aad ?pt] len assms by (auto simp: sized_def)
  ultimately show ?thesis using assms(4) by (simp add: w_decrypt_def siv_tag_def m)
qed

subsection \<open>Encryption\<close>

lemma encrypt_witness_ok:
  assumes "env_ok E" "sized key nonce" "length aad + length msg < 2 ^ 63"
  shows "\<exists>res. encrypt_witness E key nonce aad msg (siv_tag key nonce aad msg)
    = Some (accept_or_reject E True True rejections, res) \<and> clean res"
  using w_encrypt_tag_ok [OF assms(2,3)]
  by (auto simp: encrypt_witness_def ct_eq_independent_iff Let_def)

lemma siv_tag_eq: "spec_material key nonce = (k_in, k_out, enc_seed) \<Longrightarrow> spec_tag k_in k_out nonce aad msg = siv_tag key nonce aad msg"
  by (simp add: siv_tag_def)

lemma siv_apply_eq:
  "spec_material key nonce = (k_in, k_out, enc_seed) \<Longrightarrow> spec_enc enc_seed tag = (enc_key, enc_nonce) \<Longrightarrow>
   xor_bytes xs (chacha20_stream enc_key 0 enc_nonce (length xs)) = siv_apply key nonce tag xs"
  by (simp add: siv_apply_def siv_keystream_def)

lemma encrypt_ok:
  assumes E: "env_ok E" and s: "sized key nonce" and f: "fits msg aad"
    and al: "alloc_zeroed E k (length msg) = (Inr (replicate (length msg) 0), k')"
  shows "\<exists>res k'. encrypt E k key nonce aad msg = Some (Inr (siv_encrypt key nonce aad msg), res, k') \<and> clean res"
proof -
  note small = fits_small [OF f]
  obtain k_in k_out enc_seed r1 where m: "spec_material key nonce = (k_in, k_out, enc_seed)"
    "derive_material E key nonce = Some ((k_in, k_out, enc_seed), r1)" "clean r1"
    "length k_in = 32" "length k_out = 32" "length enc_seed = 32"
    using derivations [OF E s] .
  let ?tag = "siv_tag key nonce aad msg"
  obtain r2 k'' where t: "derive_tag E k' k_in k_out nonce aad msg = Some (?tag, r2, k'')" "clean r2"
    using derive_tag_ok [OF E m(4,5) _ small, of nonce k'] s siv_tag_eq [OF m(1)] by (auto simp: sized_def)
  obtain d r3 where w: "(if ultra E then encrypt_witness E key nonce aad msg ?tag else Some ((Inr (), Inr ()), [])) = Some (d, r3)"
    "accepted d" "clean r3"
  proof (cases "ultra E")
    case True
    obtain res where "encrypt_witness E key nonce aad msg ?tag = Some (accept_or_reject E True True rejections, res)" "clean res"
      using encrypt_witness_ok [OF E s small] by blast
    then show thesis using that [of "accept_or_reject E True True rejections" res] True by (simp add: accepted_iff)
  next
    case False
    then show thesis using that [of "(Inr (), Inr ())" "[]"] by (simp add: accepted_def)
  qed
  obtain enc_key enc_nonce where e: "spec_enc enc_seed ?tag = (enc_key, enc_nonce)" by (metis prod.exhaust)
  obtain r4 where d: "derive_enc E enc_seed ?tag = Some ((enc_key, enc_nonce), r4)" "clean r4"
    using derive_enc_ok [OF E m(6), of ?tag] by (auto simp: e)
  have ks: "chacha20_keystream (siv_target E) enc_key 0 enc_nonce msg (replicate (length msg) 0) = Some (siv_apply key nonce ?tag msg)"
    using spec_lengths(2) [OF e] by (simp add: chacha20_keystream_correct siv_apply_eq [OF m(1) e])
  show ?thesis
    unfolding encrypt_def check_lengths_fits [OF f] al sum.case prod.case m(2) bind.bind_lunit t(1) w(1) d(1) ks
    using m(3) t(2) w(2,3) d(2) by (simp add: siv_encrypt_def Let_def)
qed

lemma encrypt_no_memory:
  assumes "fits msg aad" "alloc_zeroed E k (length msg) = (Inl AllocationFailed, k')"
  shows "encrypt E k key nonce aad msg = Some (Inl AllocationFailed, [], k')"
  by (simp add: encrypt_def check_lengths_fits [OF assms(1)] assms(2))

lemma encrypt_too_long:
  "\<not> fits msg aad \<Longrightarrow> encrypt E k key nonce aad msg
     = Some (Inl (if MAX_MSG_SIZE < length msg then MessageTooLong else AadTooLong), [], k)"
  by (auto simp: encrypt_def check_lengths_def fits_def)

lemma encrypt_in_place_ok:
  assumes E: "env_ok E" and s: "sized key nonce" and f: "fits msg aad"
  shows "\<exists>res k'. encrypt_in_place_detached E k key nonce aad msg
    = Some (Inr (snd (siv_encrypt key nonce aad msg)), fst (siv_encrypt key nonce aad msg), res, k') \<and> clean res"
proof -
  note small = fits_small [OF f]
  obtain k_in k_out enc_seed r1 where m: "spec_material key nonce = (k_in, k_out, enc_seed)"
    "derive_material E key nonce = Some ((k_in, k_out, enc_seed), r1)" "clean r1"
    "length k_in = 32" "length k_out = 32" "length enc_seed = 32"
    using derivations [OF E s] .
  let ?tag = "siv_tag key nonce aad msg"
  obtain r2 k'' where t: "derive_tag E k k_in k_out nonce aad msg = Some (?tag, r2, k'')" "clean r2"
    using derive_tag_ok [OF E m(4,5) _ small, of nonce k] s siv_tag_eq [OF m(1)] by (auto simp: sized_def)
  obtain enc_key enc_nonce where e: "spec_enc enc_seed ?tag = (enc_key, enc_nonce)" by (metis prod.exhaust)
  obtain r3 where d: "derive_enc E enc_seed ?tag = Some ((enc_key, enc_nonce), r3)" "clean r3"
    using derive_enc_ok [OF E m(6), of ?tag] by (auto simp: e)
  have ks: "chacha20_apply (siv_target E) enc_key 0 enc_nonce InPlace msg = Some (siv_apply key nonce ?tag msg)"
    using spec_lengths(2) [OF e] by (simp add: chacha20_apply_in_place siv_apply_eq [OF m(1) e])
  show ?thesis
    unfolding encrypt_in_place_detached_def check_lengths_fits [OF f] sum.case prod.case m(2) bind.bind_lunit t(1) d(1) ks
    using m(3) t(2) d(2) by (simp add: siv_encrypt_def Let_def)
qed

subsection \<open>Decryption\<close>

lemma decrypt_witness_ok:
  assumes "sized key nonce" "length aad + length c < 2 ^ 63" "length tag = 65" "ultra E \<Longrightarrow> length out = length c"
    and "pt = siv_apply key nonce tag c" "ultra E \<Longrightarrow> c' = c"
  shows "\<exists>res. decrypt_witness E key nonce aad c' tag out (siv_tag key nonce aad pt) pt = Some (True, res) \<and> clean res"
  using w_decrypt_ok [OF assms(1-3), of out] assms(4-6)
  by (cases "ultra E") (auto simp: decrypt_witness_def Let_def)

lemma verify_ok:
  assumes E: "env_ok E" and s: "sized key nonce" and small: "length aad + length c < 2 ^ 63" and t: "length tag = 65"
    and m: "spec_material key nonce = (k_in, k_out, enc_seed)" "length k_in = 32" "length k_out = 32"
    and pt: "pt = siv_apply key nonce tag c" and out: "ultra E \<Longrightarrow> length out = length c" "ultra E \<Longrightarrow> c' = c"
  shows "\<exists>d res k'. verify E k key nonce aad c' tag (k_in, k_out) out pt = Some (d, res, k')
    \<and> (accepted d \<longleftrightarrow> siv_tag key nonce aad pt = tag) \<and> clean res"
proof -
  let ?ct = "siv_tag key nonce aad pt"
  have len: "length aad + length pt < 2 ^ 63" using small pt by simp
  have tag: "\<exists>r k'. derive_tag E k k_in k_out nonce aad pt = Some (?ct, r, k') \<and> clean r" for k
    using derive_tag_ok [OF E m(2,3) _ len, of nonce k] s siv_tag_eq [OF m(1)] by (auto simp: sized_def)
  obtain r1 k1 where t1: "derive_tag E k k_in k_out nonce aad pt = Some (?ct, r1, k1)" "clean r1" using tag by blast
  obtain r2 where t2: "decrypt_witness E key nonce aad c' tag out ?ct pt = Some (True, r2)" "clean r2"
    using decrypt_witness_ok [OF s small t out(1) pt out(2)] by blast
  obtain rt r3 k3 where t3: "(if dual_mac E then derive_tag E k1 k_in k_out nonce aad pt else Some ([], [], k1)) = Some (rt, r3, k3)"
    "clean r3" "dual_mac E \<longrightarrow> rt = ?ct"
    using tag [of k1] by (cases "dual_mac E") auto
  obtain g0 g1 r4 where g: "gates E ?ct rt tag True = ((g0, g1), r4)" by (metis prod.exhaust)
  have "accepted (accept_or_reject E g0 g1 rejections) \<longleftrightarrow> ?ct = tag"
    using gates_iff [of ?ct tag E rt True] t t3(3) g by simp
  moreover have "clean r4" by (rule gates_clean [OF g])
  ultimately show ?thesis
    unfolding verify_def prod.case t1(1) bind.bind_lunit t2(1) t3(1) Let_def g
    using t1(2) t2(2) t3(2) by simp
qed

lemma decrypt_ok:
  assumes E: "env_ok E" and s: "sized key nonce" and f: "fits c aad" and t: "length tag = 65"
    and al: "alloc_zeroed E k (length c) = (Inr (replicate (length c) 0), k1)"
    and al': "ultra E \<Longrightarrow> alloc_zeroed E k1 (length c) = (Inr (replicate (length c) 0), k2)"
  shows "\<exists>res k'. decrypt E k key nonce aad c tag
    = Some (case siv_decrypt key nonce aad c tag of None \<Rightarrow> Inl AuthenticationFailed | Some m \<Rightarrow> Inr m, res, k') \<and> clean res"
proof -
  note small = fits_small [OF f]
  obtain k_in k_out enc_seed r1 where m: "spec_material key nonce = (k_in, k_out, enc_seed)"
    "derive_material E key nonce = Some ((k_in, k_out, enc_seed), r1)" "clean r1"
    "length k_in = 32" "length k_out = 32" "length enc_seed = 32"
    using derivations [OF E s] .
  obtain enc_key enc_nonce where e: "spec_enc enc_seed tag = (enc_key, enc_nonce)" by (metis prod.exhaust)
  obtain r2 where d: "derive_enc E enc_seed tag = Some ((enc_key, enc_nonce), r2)" "clean r2"
    using derive_enc_ok [OF E m(6) t] by (auto simp: e)
  let ?pt = "siv_apply key nonce tag c"
  have ks: "chacha20_keystream (siv_target E) enc_key 0 enc_nonce c (replicate (length c) 0) = Some ?pt"
    using spec_lengths(2) [OF e] by (simp add: chacha20_keystream_correct siv_apply_eq [OF m(1) e])
  obtain out k3 where o: "(if ultra E then alloc_zeroed E k1 (length c) else (Inr [], k1)) = (Inr out, k3)"
    "ultra E \<Longrightarrow> length out = length c"
    using al' by (cases "ultra E") auto
  obtain ds r3 k4 where v: "verify E k3 key nonce aad c tag (k_in, k_out) out ?pt = Some (ds, r3, k4)"
    "accepted ds \<longleftrightarrow> siv_tag key nonce aad ?pt = tag" "clean r3"
    using verify_ok [OF E s small t m(1,4,5) refl o(2) refl] by blast
  show ?thesis
    unfolding decrypt_def check_lengths_fits [OF f] al sum.case prod.case o(1) m(2) bind.bind_lunit d(1) ks v(1) Let_def
    using m(3) d(2) v(2,3) by (simp add: siv_decrypt_def Let_def)
qed

lemma decrypt_in_place_ok:
  assumes E: "env_ok E" and s: "sized key nonce" and f: "fits c aad" and t: "length tag = 65"
    and al: "ultra E \<Longrightarrow> alloc_zeroed E k (length c) = (Inr (replicate (length c) 0), k1)"
      "ultra E \<Longrightarrow> alloc_zeroed E k1 (length c) = (Inr (replicate (length c) 0), k2)"
  shows "\<exists>res k'. decrypt_in_place_detached E k key nonce aad c tag
    = Some (case siv_decrypt key nonce aad c tag of
        None \<Rightarrow> (Inl AuthenticationFailed, wiped c, res, k') | Some m \<Rightarrow> (Inr (), m, res, k')) \<and> clean res"
proof -
  note small = fits_small [OF f]
  obtain k_in k_out enc_seed r1 where m: "spec_material key nonce = (k_in, k_out, enc_seed)"
    "derive_material E key nonce = Some ((k_in, k_out, enc_seed), r1)" "clean r1"
    "length k_in = 32" "length k_out = 32" "length enc_seed = 32"
    using derivations [OF E s] .
  obtain enc_key enc_nonce where e: "spec_enc enc_seed tag = (enc_key, enc_nonce)" by (metis prod.exhaust)
  obtain r2 where d: "derive_enc E enc_seed tag = Some ((enc_key, enc_nonce), r2)" "clean r2"
    using derive_enc_ok [OF E m(6) t] by (auto simp: e)
  let ?pt = "siv_apply key nonce tag c"
  have ks: "chacha20_apply (siv_target E) enc_key 0 enc_nonce InPlace c = Some ?pt"
    using spec_lengths(2) [OF e] by (simp add: chacha20_apply_in_place siv_apply_eq [OF m(1) e])
  obtain wc k3 where o1: "(if ultra E then alloc_zeroed E k (length c) else (Inr [], k)) = (Inr wc, k3)" "ultra E \<Longrightarrow> k3 = k1"
    using al(1) by (cases "ultra E") auto
  obtain out k4 where o2: "(if ultra E then alloc_zeroed E k3 (length c) else (Inr [], k3)) = (Inr out, k4)"
    "ultra E \<Longrightarrow> length out = length c"
    using al(2) o1(2) by (cases "ultra E") auto
  have verified: "\<exists>d res k'. verify E k4 key nonce aad (if ultra E then c else []) tag (k_in, k_out) out ?pt = Some (d, res, k')
    \<and> (accepted d \<longleftrightarrow> siv_tag key nonce aad ?pt = tag) \<and> clean res"
    by (rule verify_ok [OF E s small t m(1,4,5) refl o2(2)]) simp_all
  obtain ds r3 k5 where v: "verify E k4 key nonce aad (if ultra E then c else []) tag (k_in, k_out) out ?pt = Some (ds, r3, k5)"
    "accepted ds \<longleftrightarrow> siv_tag key nonce aad ?pt = tag" "clean r3"
    using verified by (elim exE conjE)
  show ?thesis
    unfolding decrypt_in_place_detached_def check_lengths_fits [OF f] sum.case prod.case o1(1) o2(1) m(2)
      bind.bind_lunit d(1) ks v(1) Let_def
    using m(3) d(2) v(2,3) by (simp add: siv_decrypt_def wiped_def Let_def)
qed

end
