(* ===== verification/Locked_Pages.thy ===== *)
theory Locked_Pages
  imports Mem_Wipe
begin

section \<open>Requests to the kernel: page size, locking, accounting\<close>

text \<open>
  The module \<open>imp\<close> of \<open>src/lib.rs\<close> (feature \<open>locked\<close>), and its stubs for other targets.  The
  operating system is not part of the program: \<open>sys\<close> answers a raw system call, given its
  number and arguments, from a state of its own, with the returned \<open>isize\<close> (a 64-bit
  word, read as signed) and the bytes it writes to a buffer argument.  A slice index out of
  range is \<open>None\<close>.  The memory of the process is the byte memory of \<open>Mem_Wipe\<close>;
  \<open>history\<close> is a ghost: memory and kernel after each effect.
\<close>

type_synonym isize = "64 word"
type_synonym 'k syscalls = "u64 \<Rightarrow> u64 list \<Rightarrow> 'k \<Rightarrow> (isize \<times> bytes) \<times> 'k"

record 'k machine =
  SUPPORTED :: bool
  x86_64 :: bool
  sys :: "'k syscalls"
  page_alloc :: "nat \<Rightarrow> nat \<Rightarrow> nat \<Rightarrow> u64"
  vec_alloc :: allocator

record 'k world =
  kern :: 'k
  PAGE_SIZE :: u64
  mem :: memory
  requests :: nat
  history :: "(memory \<times> 'k) list"
  released :: "bytes list"

definition NR_MLOCK :: "'k machine \<Rightarrow> u64" where "NR_MLOCK M = (if x86_64 M then 149 else 228)"
definition NR_MUNLOCK :: "'k machine \<Rightarrow> u64" where "NR_MUNLOCK M = (if x86_64 M then 150 else 229)"
definition NR_MADVISE :: "'k machine \<Rightarrow> u64" where "NR_MADVISE M = (if x86_64 M then 28 else 233)"
definition NR_PRCTL :: "'k machine \<Rightarrow> u64" where "NR_PRCTL M = (if x86_64 M then 157 else 167)"
definition NR_READ :: "'k machine \<Rightarrow> u64" where "NR_READ M = (if x86_64 M then 0 else 63)"
definition NR_OPENAT :: "'k machine \<Rightarrow> u64" where "NR_OPENAT M = (if x86_64 M then 257 else 56)"
definition NR_CLOSE :: "'k machine \<Rightarrow> u64" where "NR_CLOSE M = (if x86_64 M then 3 else 57)"
definition PR_SET_DUMPABLE :: u64 where "PR_SET_DUMPABLE = 4"
definition PR_GET_DUMPABLE :: u64 where "PR_GET_DUMPABLE = 3"
definition MADV_DONTDUMP :: u64 where "MADV_DONTDUMP = 16"
definition MADV_DODUMP :: u64 where "MADV_DODUMP = 17"
definition AT_FDCWD :: isize where "AT_FDCWD = - 100"
definition O_RDONLY :: u64 where "O_RDONLY = 0"
definition O_CLOEXEC :: u64 where "O_CLOEXEC = 0x80000"
definition MAX_EINTR_RETRIES :: nat where "MAX_EINTR_RETRIES = 16"

text \<open>The error numbers the source writes as literals.\<close>

definition ENOSYS :: isize where "ENOSYS = - 38"
definition EINTR :: isize where "EINTR = - 4"

definition ok :: "isize \<Rightarrow> bool" where
  "ok ret \<longleftrightarrow> 0 \<le> sint ret"

subsection \<open>System calls\<close>

text \<open>
  \<open>syscall2\<close> and \<open>syscall3\<close>; a call that writes to no buffer.  \<open>note\<close> keeps the ghost.
\<close>

definition note_effect :: "'k world \<Rightarrow> 'k world" where
  "note_effect w = w\<lparr>history := history w @ [(mem w, kern w)]\<rparr>"

definition syscall :: "'k machine \<Rightarrow> u64 \<Rightarrow> u64 list \<Rightarrow> 'k world \<Rightarrow> (isize \<times> bytes) \<times> 'k world" where
  "syscall M number args w =
     (case sys M number args (kern w) of (reply, k) \<Rightarrow> (reply, note_effect (w\<lparr>kern := k\<rparr>)))"

definition syscall2 :: "'k machine \<Rightarrow> u64 \<Rightarrow> u64 \<Rightarrow> u64 \<Rightarrow> 'k world \<Rightarrow> isize \<times> 'k world" where
  "syscall2 M number a b w = (case syscall M number [a, b] w of ((ret, _), w) \<Rightarrow> (ret, w))"

definition syscall3 :: "'k machine \<Rightarrow> u64 \<Rightarrow> u64 \<Rightarrow> u64 \<Rightarrow> u64 \<Rightarrow> 'k world \<Rightarrow> isize \<times> 'k world" where
  "syscall3 M number a b c w = (case syscall M number [a, b, c] w of ((ret, _), w) \<Rightarrow> (ret, w))"

text \<open>
  A call that reads or writes a buffer passes its address in the source.  Here a path literal is
  passed as a number that names the file, and \<open>read\<close> passes zero and receives the bytes written.
\<close>

definition PATH_AUXV :: u64 where "PATH_AUXV = 1"
definition PATH_STATUS :: u64 where "PATH_STATUS = 2"

definition open_ro :: "'k machine \<Rightarrow> u64 \<Rightarrow> 'k world \<Rightarrow> isize \<times> 'k world" where
  "open_ro M path w = syscall3 M (NR_OPENAT M) AT_FDCWD path (O_RDONLY OR O_CLOEXEC) w"

text \<open>The retry loop around \<open>read\<close>, with the buffer it reads into.\<close>

function read_retry :: "'k machine \<Rightarrow> u64 \<Rightarrow> nat \<Rightarrow> bytes \<Rightarrow> 'k world \<Rightarrow> (isize \<times> bytes) \<times> 'k world" where
  "read_retry M fd tries buf w =
     (case syscall M (NR_READ M) [fd, 0, of_nat (length buf)] w of
        ((n, written), w) \<Rightarrow>
          (let buf = put_slice 0 (take (length buf) written) buf;
               tries = tries + 1
           in if n \<noteq> EINTR \<or> MAX_EINTR_RETRIES \<le> tries then ((n, buf), w)
              else read_retry M fd tries buf w))"
  by pat_completeness auto
termination
  by (relation "measure (\<lambda>(M, fd, tries, buf, w). MAX_EINTR_RETRIES - tries)") auto

declare read_retry.simps [simp del]

definition close_fd :: "'k machine \<Rightarrow> u64 \<Rightarrow> 'k world \<Rightarrow> 'k world" where
  "close_fd M fd w = snd (syscall2 M (NR_CLOSE M) fd 0 w)"

subsection \<open>The page size\<close>

definition AT_PAGESZ :: u64 where "AT_PAGESZ = 6"

definition is_power_of_two :: "u64 \<Rightarrow> bool" where
  "is_power_of_two v \<longleftrightarrow> list_ex (\<lambda>k. v = 2 ^ k) [0..<64]"

text \<open>
  The walk over the auxiliary vector from offset \<open>i\<close>: \<open>Some v\<close> is the value accepted.  Both
  architectures are little-endian, so \<open>from_ne_bytes\<close> is \<open>from_le_bytes\<close>.
\<close>

function find_pagesz :: "bytes \<Rightarrow> nat \<Rightarrow> nat \<Rightarrow> u64 option option" where
  "find_pagesz buf n i =
     (if i + 16 \<le> n then
        do {
          assert_that (i + 16 \<le> length buf);
          let ty = (le_word (subslice i (i + 8) buf) :: u64);
          let v = (le_word (subslice (i + 8) (i + 16) buf) :: u64);
          (if ty = 0 then Some None
           else if ty = AT_PAGESZ then
             (if 4096 \<le> v \<and> is_power_of_two v then Some (Some v) else Some None)
           else find_pagesz buf n (i + 16))
        }
      else Some None)"
  by pat_completeness auto
termination
  by (relation "measure (\<lambda>(buf, n, i). n - i)") auto

declare find_pagesz.simps [simp del]

definition page_size :: "'k machine \<Rightarrow> 'k world \<Rightarrow> (u64 option \<times> 'k world) option" where
  "page_size M w =
     (let cached = PAGE_SIZE w
      in if cached \<noteq> 0 then Some (Some cached, w)
         else (case open_ro M PATH_AUXV w of
           (fd, w) \<Rightarrow>
             if \<not> ok fd then Some (None, w)
             else (case read_retry M fd 0 (replicate 512 0) w of
               ((n, buf), w) \<Rightarrow>
                 let w = close_fd M fd w
                 in if sint n < 16 then Some (None, w)
                    else do {
                      v \<leftarrow> find_pagesz buf (unat n) 0;
                      (case v of
                         Some v \<Rightarrow> Some (Some v, w\<lparr>PAGE_SIZE := v\<rparr>)
                       | None \<Rightarrow> Some (None, w))
                    })))"

definition page_size_pub :: "'k machine \<Rightarrow> 'k world \<Rightarrow> (u64 option \<times> 'k world) option" where
  "page_size_pub M w = (if SUPPORTED M then page_size M w else Some (Some (16 * 1024), w))"

subsection \<open>Locking a range\<close>

definition saturating_add :: "u64 \<Rightarrow> u64 \<Rightarrow> u64" where
  "saturating_add a b = (if unat a + unat b < 2 ^ 64 then a + b else - 1)"

definition page_start :: "u64 \<Rightarrow> u64 \<Rightarrow> u64" where
  "page_start ps p = p AND NOT (ps - 1)"

definition page_end :: "u64 \<Rightarrow> u64 \<Rightarrow> u64 \<Rightarrow> u64" where
  "page_end ps p len = saturating_add (saturating_add p len) (ps - 1) AND NOT (ps - 1)"

definition lock_range :: "'k machine \<Rightarrow> u64 \<Rightarrow> u64 \<Rightarrow> 'k world \<Rightarrow> ((isize + unit) \<times> 'k world) option" where
  "lock_range M p len w =
     (if \<not> SUPPORTED M then Some (Inl ENOSYS, w)
      else if len = 0 then Some (Inr (), w)
      else do {
        (size, w) \<leftarrow> page_size M w;
        (case size of
           None \<Rightarrow> Some (Inl ENOSYS, w)
         | Some ps \<Rightarrow>
           (case syscall2 M (NR_MLOCK M) p len w of
              (l, w) \<Rightarrow>
                if \<not> ok l then Some (Inl l, w)
                else
                  (let start = page_start ps p; end' = page_end ps p len
                   in case syscall3 M (NR_MADVISE M) start (end' - start) MADV_DONTDUMP w of
                     (d, w) \<Rightarrow>
                       if \<not> ok d then
                         (case syscall2 M (NR_MUNLOCK M) p len w of
                            (u, w) \<Rightarrow>
                              let w = (if ok u
                                       then snd (syscall3 M (NR_MADVISE M) start (end' - start) MADV_DODUMP w)
                                       else w)
                              in Some (Inl d, w))
                       else Some (Inr (), w))))
      })"

definition unlock_range_with :: "'k machine \<Rightarrow> u64 \<Rightarrow> u64 \<Rightarrow> u64 \<Rightarrow> 'k world \<Rightarrow> 'k world" where
  "unlock_range_with M ps p len w =
     (if \<not> SUPPORTED M then w
      else
        (let start = page_start ps p; end' = page_end ps p len
         in case syscall2 M (NR_MUNLOCK M) p len w of
              (u, w) \<Rightarrow>
                if ok u then snd (syscall3 M (NR_MADVISE M) start (end' - start) MADV_DODUMP w) else w))"

definition unlock_range :: "'k machine \<Rightarrow> u64 \<Rightarrow> u64 \<Rightarrow> 'k world \<Rightarrow> 'k world option" where
  "unlock_range M p len w =
     (if \<not> SUPPORTED M \<or> len = 0 then Some w
      else do {
        (size, w) \<leftarrow> page_size M w;
        (case size of None \<Rightarrow> Some w | Some ps \<Rightarrow> Some (unlock_range_with M ps p len w))
      })"

subsection \<open>The dumpable flag\<close>

definition deny_debugging :: "'k machine \<Rightarrow> 'k world \<Rightarrow> (isize + u32) \<times> 'k world" where
  "deny_debugging M w =
     (if \<not> SUPPORTED M then (Inl ENOSYS, w)
      else (case syscall2 M (NR_PRCTL M) PR_GET_DUMPABLE 0 w of
        (previous, w) \<Rightarrow>
          if \<not> ok previous then (Inl previous, w)
          else (case syscall2 M (NR_PRCTL M) PR_SET_DUMPABLE 0 w of
            (r, w) \<Rightarrow> if \<not> ok r then (Inl r, w) else (Inr (ucast previous), w))))"

definition is_dumpable :: "'k machine \<Rightarrow> 'k world \<Rightarrow> bool option \<times> 'k world" where
  "is_dumpable M w =
     (if \<not> SUPPORTED M then (None, w)
      else (case syscall2 M (NR_PRCTL M) PR_GET_DUMPABLE 0 w of
        (v, w) \<Rightarrow> (if \<not> ok v then None else Some (v \<noteq> 0), w)))"

subsection \<open>What the kernel documents\<close>

text \<open>
  \<open>L k a\<close>: the page of address \<open>a\<close> is locked; \<open>H k a\<close>: it is excluded from core dumps.  The
  calls work on whole pages of \<open>2 ^ b\<close> bytes; a failed call may have been applied to a part of its
  range, in the direction of the request only; other calls change neither.
\<close>

definition cover :: "nat \<Rightarrow> nat \<Rightarrow> nat \<Rightarrow> nat set" where
  "cover b p n = {a. p div 2 ^ b * 2 ^ b \<le> a \<and> a < (p + n + (2 ^ b - 1)) div 2 ^ b * 2 ^ b}"

definition mlock_ok :: "'k machine \<Rightarrow> nat \<Rightarrow> ('k \<Rightarrow> nat \<Rightarrow> bool) \<Rightarrow> ('k \<Rightarrow> nat \<Rightarrow> bool) \<Rightarrow> bool" where
  "mlock_ok M b L H \<longleftrightarrow> (\<forall>k p n r ws k'. sys M (NR_MLOCK M) [p, n] k = ((r, ws), k') \<longrightarrow>
     H k' = H k \<and> (\<forall>a. L k a \<longrightarrow> L k' a) \<and> (\<forall>a. L k' a \<longrightarrow> L k a \<or> a \<in> cover b (unat p) (unat n))
     \<and> (ok r \<longrightarrow> (\<forall>a \<in> cover b (unat p) (unat n). L k' a)))"

definition munlock_ok :: "'k machine \<Rightarrow> nat \<Rightarrow> ('k \<Rightarrow> nat \<Rightarrow> bool) \<Rightarrow> ('k \<Rightarrow> nat \<Rightarrow> bool) \<Rightarrow> bool" where
  "munlock_ok M b L H \<longleftrightarrow> (\<forall>k p n r ws k'. sys M (NR_MUNLOCK M) [p, n] k = ((r, ws), k') \<longrightarrow>
     H k' = H k \<and> (\<forall>a. L k' a \<longrightarrow> L k a) \<and> (\<forall>a. L k a \<longrightarrow> L k' a \<or> a \<in> cover b (unat p) (unat n))
     \<and> (ok r \<longrightarrow> (\<forall>a \<in> cover b (unat p) (unat n). \<not> L k' a)))"

definition madvise_ok :: "'k machine \<Rightarrow> nat \<Rightarrow> ('k \<Rightarrow> nat \<Rightarrow> bool) \<Rightarrow> ('k \<Rightarrow> nat \<Rightarrow> bool) \<Rightarrow> bool" where
  "madvise_ok M b L H \<longleftrightarrow> (\<forall>k p n adv r ws k'. sys M (NR_MADVISE M) [p, n, adv] k = ((r, ws), k') \<longrightarrow>
     L k' = L k
     \<and> (\<forall>a. a \<notin> cover b (unat p) (unat n) \<longrightarrow> H k' a = H k a)
     \<and> (adv = MADV_DONTDUMP \<longrightarrow> (\<forall>a. H k a \<longrightarrow> H k' a))
     \<and> (adv = MADV_DONTDUMP \<and> ok r \<and> unat p mod 2 ^ b = 0 \<longrightarrow> (\<forall>a \<in> cover b (unat p) (unat n). H k' a)))"

definition kernel_ok :: "'k machine \<Rightarrow> nat \<Rightarrow> ('k \<Rightarrow> nat \<Rightarrow> bool) \<Rightarrow> ('k \<Rightarrow> nat \<Rightarrow> bool) \<Rightarrow> bool" where
  "kernel_ok M b L H \<longleftrightarrow> mlock_ok M b L H \<and> munlock_ok M b L H \<and> madvise_ok M b L H
     \<and> (\<forall>k nr args reply k'. nr \<notin> {NR_MLOCK M, NR_MUNLOCK M, NR_MADVISE M} \<and> sys M nr args k = (reply, k')
          \<longrightarrow> L k' = L k \<and> H k' = H k)"

text \<open>\<open>read\<close> never returns more than it was asked for.\<close>

definition reads_bounded :: "'k machine \<Rightarrow> bool" where
  "reads_bounded M \<longleftrightarrow> (\<forall>k fd p n r ws k'. sys M (NR_READ M) [fd, p, n] k = ((r, ws), k') \<longrightarrow> sint r \<le> uint n)"

subsection \<open>Page arithmetic\<close>

lemma and_not_mask: "(x :: u64) AND NOT (2 ^ b - 1) = push_bit b (drop_bit b x)"
  by (rule bit_word_eqI) (auto simp: bit_simps mask_eq_exp_minus_1 [symmetric] dest: bit_imp_le_length)

lemma unat_push_drop: "unat (push_bit b (drop_bit b x) :: u64) = unat x div 2 ^ b * 2 ^ b"
proof -
  have le: "unat x div 2 ^ b * 2 ^ b \<le> unat x" by simp
  have lt: "unat x < 2 ^ 64" using unsigned_less [of x] by simp
  have d: "unat (drop_bit b x) = unat x div 2 ^ b"
    unfolding unsigned_drop_bit_eq drop_bit_eq_div [of b "take_bit _ _"]
    using lt by (simp add: take_bit_nat_eq_self)
  have "unat (push_bit b (drop_bit b x)) = take_bit 64 (push_bit b (unat (drop_bit b x)))"
    using unsigned_push_bit_eq [of b "drop_bit b x", where 'a = nat] by simp
  also have "\<dots> = unat x div 2 ^ b * 2 ^ b"
    unfolding d push_bit_eq_mult take_bit_nat_eq_self_iff using le lt by linarith
  finally show ?thesis .
qed

lemma unat_align: "unat ((x :: u64) AND NOT (2 ^ b - 1)) = unat x div 2 ^ b * 2 ^ b"
  by (simp only: and_not_mask unat_push_drop)

lemma unat_saturating_add: "unat (saturating_add a b) = min (unat a + unat b) (2 ^ 64 - 1)"
proof (cases "unat a + unat b < 2 ^ 64")
  case True
  then show ?thesis by (simp add: saturating_add_def unat_word_ariths)
next
  case False
  then show ?thesis by (simp add: saturating_add_def unsigned_minus_1_eq_mask mask_eq_exp_minus_1)
qed

text \<open>The range advised is exactly the pages that the lock covers.\<close>

lemma unat_2_power: "b < 64 \<Longrightarrow> unat (2 ^ b :: u64) = 2 ^ b"
proof -
  assume "b < 64"
  then have "unat (of_nat (2 ^ b) :: u64) = 2 ^ b"
    unfolding unat_of_nat by (intro mod_less) (use power_strict_increasing [of b 64 "2 :: nat"] in simp)
  then show ?thesis by simp
qed

definition range_ok :: "nat \<Rightarrow> u64 \<Rightarrow> u64 \<Rightarrow> bool" where
  "range_ok b p n \<longleftrightarrow> b < 64 \<and> 0 < unat n \<and> unat p + unat n + 2 ^ b \<le> 2 ^ 64"

lemma unat_page_start: "unat (page_start (2 ^ b) p) = unat p div 2 ^ b * 2 ^ b"
  by (simp add: page_start_def unat_align)

lemma unat_page_end:
  assumes "range_ok b p n"
  shows "unat (page_end (2 ^ b) p n) = (unat p + unat n + (2 ^ b - 1)) div 2 ^ b * 2 ^ b"
proof -
  have b: "b < 64" and fit: "unat p + unat n + 2 ^ b \<le> 2 ^ 64" using assms by (simp_all add: range_ok_def)
  have "(0 :: nat) < 2 ^ b" by simp
  then have "unat p + unat n < 2 ^ 64" "unat p + unat n + (2 ^ b - 1) < 2 ^ 64"
    "unat (2 ^ b - 1 :: u64) = 2 ^ b - 1"
    using fit unat_2_power [OF b] by (linarith, linarith, simp add: unat_sub word_le_nat_alt)
  then show ?thesis
    by (simp add: page_end_def unat_align unat_saturating_add)
qed

lemma round_up_multiple: "((q :: nat) * 2 ^ b + (2 ^ b - 1)) div 2 ^ b * 2 ^ b = q * 2 ^ b"
  by (subst div_mult_self3) simp_all

lemma cover_advised:
  assumes "range_ok b p n"
  defines "start \<equiv> page_start (2 ^ b) p" and "stop \<equiv> page_end (2 ^ b) p n"
  shows "cover b (unat start) (unat (stop - start)) = cover b (unat p) (unat n)"
proof -
  let ?s = "unat p div 2 ^ b * 2 ^ b" and ?e = "(unat p + unat n + (2 ^ b - 1)) div 2 ^ b * 2 ^ b"
  have s: "unat start = ?s" and e: "unat stop = ?e"
    using assms(1) by (simp_all add: start_def stop_def unat_page_start unat_page_end)
  have "(1 :: nat) \<le> 2 ^ b" by simp
  then have "?s \<le> ?e" by (intro mult_le_mono1 div_le_mono) linarith
  then have "unat (stop - start) = ?e - ?s" by (simp add: unat_sub_if' s e)
  then have "unat start + unat (stop - start) = ?e" using \<open>?s \<le> ?e\<close> s by linarith
  then have "(unat start + unat (stop - start) + (2 ^ b - 1)) div 2 ^ b * 2 ^ b = ?e"
    by (simp only: round_up_multiple)
  then show ?thesis by (simp add: cover_def s)
qed

lemma page_start_aligned: "unat (page_start (2 ^ b) p) mod 2 ^ b = 0"
  by (simp add: unat_page_start)

subsection \<open>What calls leave alone\<close>

text \<open>
  \<open>evolves P w w'\<close>: on the way from \<open>w\<close> to \<open>w'\<close> the memory of the process was not written, and
  every kernel state passed satisfies \<open>P\<close>.
\<close>

definition evolves :: "('k \<Rightarrow> bool) \<Rightarrow> 'k world \<Rightarrow> 'k world \<Rightarrow> bool" where
  "evolves P w w' \<longleftrightarrow> mem w' = mem w \<and> requests w' = requests w \<and> released w' = released w
     \<and> (\<exists>new. history w' = history w @ map (Pair (mem w)) new \<and> (\<forall>k \<in> set new. P k))"

lemma evolves_refl [simp, intro]: "evolves P w w"
  by (auto simp: evolves_def intro: exI [of _ "[]"])

lemma evolves_trans:
  assumes "evolves P w w'" "evolves P w' w''" shows "evolves P w w''"
proof -
  obtain xs where "history w' = history w @ map (Pair (mem w)) xs" "\<forall>k \<in> set xs. P k"
    using assms(1) by (auto simp: evolves_def)
  moreover obtain ys where "history w'' = history w' @ map (Pair (mem w')) ys" "\<forall>k \<in> set ys. P k"
    using assms(2) by (auto simp: evolves_def)
  ultimately show ?thesis
    using assms by (auto simp: evolves_def intro!: exI [of _ "xs @ ys"])
qed

lemma evolves_mono: "evolves P w w' \<Longrightarrow> (\<And>k. P k \<Longrightarrow> Q k) \<Longrightarrow> evolves Q w w'"
  by (auto simp: evolves_def)

lemma evolves_cache [simp]: "evolves P w (w'\<lparr>PAGE_SIZE := v\<rparr>) = evolves P w w'"
  by (simp add: evolves_def)

lemma syscall_evolves: "syscall M nr args w = (reply, w') \<Longrightarrow> P (kern w') \<Longrightarrow> evolves P w w'"
  by (auto simp: syscall_def note_effect_def evolves_def split: prod.splits intro!: exI [of _ "[kern w']"])

lemma syscall2_evolves: "syscall2 M nr a b w = (r, w') \<Longrightarrow> P (kern w') \<Longrightarrow> evolves P w w'"
  by (auto simp: syscall2_def split: prod.splits intro: syscall_evolves)

lemma syscall3_evolves: "syscall3 M nr a b c w = (r, w') \<Longrightarrow> P (kern w') \<Longrightarrow> evolves P w w'"
  by (auto simp: syscall3_def split: prod.splits intro: syscall_evolves)

text \<open>The kernel answers a call from its own state; \<open>kern\<close> follows it.\<close>

lemma syscall_kern: "syscall M nr args w = (reply, w') \<Longrightarrow> sys M nr args (kern w) = (reply, kern w')"
  by (auto simp: syscall_def note_effect_def split: prod.splits)

lemma syscall2_kern: "syscall2 M nr a b w = (r, w') \<Longrightarrow> \<exists>ws. sys M nr [a, b] (kern w) = ((r, ws), kern w')"
  by (auto simp: syscall2_def split: prod.splits dest!: syscall_kern)

lemma syscall3_kern: "syscall3 M nr a b c w = (r, w') \<Longrightarrow> \<exists>ws. sys M nr [a, b, c] (kern w) = ((r, ws), kern w')"
  by (auto simp: syscall3_def split: prod.splits dest!: syscall_kern)

lemma world_of_syscall: "syscall M nr args w = (reply, w') \<Longrightarrow> PAGE_SIZE w' = PAGE_SIZE w"
  by (auto simp: syscall_def note_effect_def split: prod.splits)

subsection \<open>Reading the page size\<close>

text \<open>\<open>ignores M P\<close>: opening, reading and closing a file keep \<open>P\<close>.\<close>

definition ignores :: "'k machine \<Rightarrow> ('k \<Rightarrow> bool) \<Rightarrow> bool" where
  "ignores M P \<longleftrightarrow> (\<forall>k nr args reply k'. nr \<in> {NR_READ M, NR_OPENAT M, NR_CLOSE M} \<and> P k
     \<and> sys M nr args k = (reply, k') \<longrightarrow> P k')"

lemma ignores_True [simp]: "ignores M (\<lambda>k. True)"
  by (simp add: ignores_def)

lemma ignored_call:
  "ignores M P \<Longrightarrow> nr \<in> {NR_READ M, NR_OPENAT M, NR_CLOSE M} \<Longrightarrow> P (kern w) \<Longrightarrow> syscall M nr args w = (reply, w')
   \<Longrightarrow> P (kern w') \<and> evolves P w w'"
  unfolding ignores_def by (metis syscall_kern syscall_evolves)

lemma sint_nonneg_unat: "0 \<le> sint n \<Longrightarrow> int (unat n) = sint (n :: isize)"
proof -
  assume "0 \<le> sint n"
  moreover have "sint n < 2 ^ 63" using sint_less [of n] by simp
  ultimately have "take_bit 64 (sint n) = sint n" by (simp add: take_bit_int_eq_self_iff)
  then show ?thesis using uint_sint [of n] by simp
qed

lemma read_retry_ok:
  assumes "ignores M P" "reads_bounded M" "length buf < 2 ^ 63"
  shows "P (kern w) \<Longrightarrow> \<exists>n buf' w'. read_retry M fd tries buf w = ((n, buf'), w') \<and> P (kern w') \<and> evolves P w w'
    \<and> length buf' = length buf \<and> sint n \<le> int (length buf)"
  using assms(3)
proof (induction "MAX_EINTR_RETRIES - tries" arbitrary: tries buf w rule: less_induct)
  case less
  obtain n ws w1 where c: "syscall M (NR_READ M) [fd, 0, of_nat (length buf)] w = ((n, ws), w1)"
    by (metis prod.exhaust)
  have p: "P (kern w1)" "evolves P w w1"
    using ignored_call [OF assms(1) _ less.prems(1) c] by simp_all
  define buf1 where "buf1 = put_slice 0 (take (length buf) ws) buf"
  have l: "length buf1 = length buf" by (simp add: buf1_def)
  have "uint (of_nat (length buf) :: u64) = int (length buf)"
    using less.prems(2) by (simp add: unsigned_of_nat take_bit_nat_eq_self_iff)
  moreover have "sint n \<le> uint (of_nat (length buf) :: u64)"
    using assms(2) syscall_kern [OF c] unfolding reads_bounded_def by blast
  ultimately have n: "sint n \<le> int (length buf)" by simp
  show ?case
  proof (cases "n \<noteq> EINTR \<or> MAX_EINTR_RETRIES \<le> tries + 1")
    case True
    then have "read_retry M fd tries buf w = ((n, buf1), w1)"
      by (subst read_retry.simps) (simp add: c buf1_def [symmetric])
    then show ?thesis using p l n by blast
  next
    case False
    then have "read_retry M fd tries buf w = read_retry M fd (tries + 1) buf1 w1"
      by (subst read_retry.simps) (simp add: c buf1_def [symmetric])
    moreover have "MAX_EINTR_RETRIES - (tries + 1) < MAX_EINTR_RETRIES - tries" using False by linarith
    from less.hyps [OF this p(1)] l less.prems(2) obtain n' buf' w'
      where *: "read_retry M fd (tries + 1) buf1 w1 = ((n', buf'), w')" "P (kern w')" "evolves P w1 w'"
        "length buf' = length buf" "sint n' \<le> int (length buf)"
      by metis
    moreover have "evolves P w w'" by (rule evolves_trans [OF p(2) *(3)])
    ultimately show ?thesis by simp
  qed
qed

lemma find_pagesz_total: "n \<le> length buf \<Longrightarrow> \<exists>v. find_pagesz buf n i = Some v"
proof (induction buf n i rule: find_pagesz.induct)
  case (1 buf n i)
  then show ?case by (subst find_pagesz.simps) (auto simp: Let_def)
qed

lemma find_pagesz_value: "find_pagesz buf n i = Some (Some v) \<Longrightarrow> 4096 \<le> v \<and> is_power_of_two v"
proof (induction buf n i rule: find_pagesz.induct)
  case (1 buf n i)
  from 1(2) show ?case
    by (subst (asm) find_pagesz.simps)
      (auto simp: Let_def assert_that_def bind_eq_Some_conv split: if_splits dest: "1.IH")
qed

lemma page_size_ok:
  assumes "ignores M P" "reads_bounded M" "P (kern w)"
  shows "\<exists>v w'. page_size M w = Some (v, w') \<and> P (kern w') \<and> evolves P w w'
    \<and> (\<forall>ps. v = Some ps \<longrightarrow> PAGE_SIZE w' = ps)"
proof (cases "PAGE_SIZE w = 0")
  case False
  then show ?thesis using assms by (simp add: page_size_def Let_def)
next
  case True
  obtain fd w1 where o: "open_ro M PATH_AUXV w = (fd, w1)" by (metis prod.exhaust)
  then obtain reply where "syscall M (NR_OPENAT M) [AT_FDCWD, PATH_AUXV, O_RDONLY OR O_CLOEXEC] w = (reply, w1)"
    by (auto simp: open_ro_def syscall3_def split: prod.splits)
  then have p1: "P (kern w1)" "evolves P w w1"
    using ignored_call [OF assms(1) _ assms(3), of "NR_OPENAT M"] by simp_all
  show ?thesis
  proof (cases "ok fd")
    case False
    then show ?thesis using True o p1 by (simp add: page_size_def Let_def)
  next
    case open': True
    obtain n buf w2 where r: "read_retry M fd 0 (replicate 512 0) w1 = ((n, buf), w2)" "P (kern w2)" "evolves P w1 w2"
      "length buf = 512" "sint n \<le> 512"
      using read_retry_ok [OF assms(1,2) _ p1(1), of "replicate 512 0" fd 0] by auto
    obtain reply w3 where c: "syscall M (NR_CLOSE M) [fd, 0] w2 = (reply, w3)" by (metis prod.exhaust)
    have p3: "P (kern w3)" "evolves P w2 w3" using ignored_call [OF assms(1) _ r(2) c] by simp_all
    have w3: "close_fd M fd w2 = w3"
      using c by (simp add: close_fd_def syscall2_def split: prod.splits)
    have ev: "evolves P w w3" using p1 r(3) p3(2) evolves_trans by blast
    show ?thesis
    proof (cases "sint n < 16")
      case short: True
      show ?thesis using True o open' r(1) w3 short p3(1) ev by (simp add: page_size_def Let_def)
    next
      case False
      have "int (unat n) = sint n" using False by (intro sint_nonneg_unat) linarith
      then have "unat n \<le> length buf" using r(4,5) by linarith
      from find_pagesz_total [OF this] obtain v where v: "find_pagesz buf (unat n) 0 = Some v" by blast
      show ?thesis using True o open' r(1) w3 False p3(1) ev v
        by (cases v) (simp_all add: page_size_def Let_def)
    qed
  qed
qed

subsection \<open>Locking and unlocking\<close>

text \<open>With any kernel at all, the two calls return and write nothing.\<close>

lemma syscall2_any [simp]: "syscall2 M nr a b w = (r, w') \<Longrightarrow> evolves (\<lambda>k. True) w w'"
  by (erule syscall2_evolves) simp

lemma syscall3_any [simp]: "syscall3 M nr a b c w = (r, w') \<Longrightarrow> evolves (\<lambda>k. True) w w'"
  by (erule syscall3_evolves) simp

lemma snd_syscall3_any: "evolves (\<lambda>k. True) w (snd (syscall3 M nr a b c w))"
  by (cases "syscall3 M nr a b c w") simp

lemma unlock_evolves: "evolves (\<lambda>k. True) w (unlock_range_with M ps p len w)"
  by (auto simp: unlock_range_with_def Let_def split: prod.split
      intro: evolves_trans [OF syscall2_any snd_syscall3_any])

lemma lock_range_evolves:
  assumes "reads_bounded M"
  shows "\<exists>r w'. lock_range M p len w = Some (r, w') \<and> evolves (\<lambda>k. True) w w'"
proof (cases "SUPPORTED M \<and> len \<noteq> 0")
  case False
  then show ?thesis by (auto simp: lock_range_def)
next
  case True
  obtain v w1 where ps: "page_size M w = Some (v, w1)" "evolves (\<lambda>k. True) w w1"
    using page_size_ok [OF ignores_True assms] by blast
  show ?thesis
  proof (cases v)
    case None
    then show ?thesis using True ps by (simp add: lock_range_def)
  next
    case (Some q)
    define start where "start = page_start q p"
    define size where "size = page_end q p len - start"
    obtain l w2 where l: "syscall2 M (NR_MLOCK M) p len w1 = (l, w2)" by (metis prod.exhaust)
    obtain d w3 where d: "syscall3 M (NR_MADVISE M) start size MADV_DONTDUMP w2 = (d, w3)" by (metis prod.exhaust)
    obtain u w4 where u: "syscall2 M (NR_MUNLOCK M) p len w3 = (u, w4)" by (metis prod.exhaust)
    obtain e w5 where e: "syscall3 M (NR_MADVISE M) start size MADV_DODUMP w4 = (e, w5)" by (metis prod.exhaust)
    have 2: "evolves (\<lambda>k. True) w w2" by (rule evolves_trans [OF ps(2) syscall2_any [OF l]])
    have 3: "evolves (\<lambda>k. True) w w3" by (rule evolves_trans [OF 2 syscall3_any [OF d]])
    have 4: "evolves (\<lambda>k. True) w w4" by (rule evolves_trans [OF 3 syscall2_any [OF u]])
    have 5: "evolves (\<lambda>k. True) w w5" by (rule evolves_trans [OF 4 syscall3_any [OF e]])
    show ?thesis
      using 2 3 4 5 True ps Some l d u e by (simp add: lock_range_def Let_def start_def [symmetric] size_def [symmetric])
  qed
qed

text \<open>With a kernel that keeps its contract, success means that the pages are protected.\<close>

definition knows_page :: "'k machine \<Rightarrow> nat \<Rightarrow> 'k world \<Rightarrow> bool" where
  "knows_page M b w \<longleftrightarrow> (\<forall>v w'. page_size M w = Some (Some v, w') \<longrightarrow> v = 2 ^ b)"

lemma mlock_step:
  "kernel_ok M b L H \<Longrightarrow> syscall2 M (NR_MLOCK M) p n w = (r, w') \<Longrightarrow> ok r
   \<Longrightarrow> a \<in> cover b (unat p) (unat n) \<Longrightarrow> L (kern w') a"
  by (drule syscall2_kern) (auto simp: kernel_ok_def mlock_ok_def)

lemma madviseD:
  "kernel_ok M b L H \<Longrightarrow> sys M (NR_MADVISE M) [p, n, adv] k = ((r, ws), k') \<Longrightarrow>
   L k' = L k \<and> (\<forall>a. a \<notin> cover b (unat p) (unat n) \<longrightarrow> H k' a = H k a)
   \<and> (adv = MADV_DONTDUMP \<and> ok r \<and> unat p mod 2 ^ b = 0 \<longrightarrow> (\<forall>a \<in> cover b (unat p) (unat n). H k' a))"
  unfolding kernel_ok_def madvise_ok_def
  by (elim conjE, drule spec, drule spec, drule spec, drule spec, drule spec, drule spec, drule spec, drule (1) mp, simp)

lemma munlockD:
  "kernel_ok M b L H \<Longrightarrow> sys M (NR_MUNLOCK M) [p, n] k = ((r, ws), k') \<Longrightarrow>
   H k' = H k \<and> (\<forall>a. L k' a \<longrightarrow> L k a) \<and> (ok r \<longrightarrow> (\<forall>a \<in> cover b (unat p) (unat n). \<not> L k' a))"
  unfolding kernel_ok_def munlock_ok_def
  by (elim conjE, drule spec, drule spec, drule spec, drule spec, drule spec, drule spec, drule (1) mp, simp)

lemma advise_step:
  assumes "kernel_ok M b L H" "range_ok b p n"
    "syscall3 M (NR_MADVISE M) (page_start (2 ^ b) p) (page_end (2 ^ b) p n - page_start (2 ^ b) p) MADV_DONTDUMP w = (r, w')"
    "ok r" "a \<in> cover b (unat p) (unat n)"
  shows "L (kern w') = L (kern w) \<and> H (kern w') a"
proof -
  obtain ws where "sys M (NR_MADVISE M) [page_start (2 ^ b) p, page_end (2 ^ b) p n - page_start (2 ^ b) p, MADV_DONTDUMP]
      (kern w) = ((r, ws), kern w')"
    using syscall3_kern [OF assms(3)] by blast
  note madviseD [OF assms(1) this, unfolded cover_advised [OF assms(2)]]
  then show ?thesis using assms(4,5) page_start_aligned [of b p] by blast
qed

lemma lock_range_protects:
  assumes "kernel_ok M b L H" "range_ok b p n" "knows_page M b w"
    and run: "lock_range M p n w = Some (Inr (), w')"
    and a: "SUPPORTED M" "a \<in> cover b (unat p) (unat n)"
  shows "L (kern w') a \<and> H (kern w') a"
proof -
  have n: "n \<noteq> 0" using assms(2) by (auto simp: range_ok_def)
  obtain v w1 where ps: "page_size M w = Some (v, w1)"
    using run n a(1) by (auto simp: lock_range_def bind_eq_Some_conv)
  then have v: "v = None \<or> v = Some (2 ^ b)" using assms(3) by (cases v) (auto simp: knows_page_def)
  obtain l w2 where l: "syscall2 M (NR_MLOCK M) p n w1 = (l, w2)" by (metis prod.exhaust)
  obtain d w3 where d: "syscall3 M (NR_MADVISE M) (page_start (2 ^ b) p)
      (page_end (2 ^ b) p n - page_start (2 ^ b) p) MADV_DONTDUMP w2 = (d, w3)" by (metis prod.exhaust)
  have "ok l \<and> ok d \<and> w' = w3"
    using run n a(1) ps v l d by (auto simp: lock_range_def Let_def split: if_splits prod.splits)
  then show ?thesis
    using mlock_step [OF assms(1) l _ a(2)] advise_step [OF assms(1,2) d _ a(2)] by simp
qed

subsection \<open>A kernel that keeps its contract\<close>

text \<open>
  A small x86-64 kernel with pages of 4096 bytes: its state is the locked and the excluded
  addresses, it refuses the calls listed, and its auxiliary vector is one page-size entry.
\<close>

type_synonym lab = "(nat \<Rightarrow> bool) \<times> (nat \<Rightarrow> bool)"

definition lab_auxv :: bytes where
  "lab_auxv = u64_bytes AT_PAGESZ @ u64_bytes 4096"

definition lab_sys :: "u64 list \<Rightarrow> lab syscalls" where
  "lab_sys refused nr args k =
     (if nr \<in> set refused then ((- 1, []), k)
      else if nr = 149 then
        ((0, []), (\<lambda>a. fst k a \<or> a \<in> cover 12 (unat (args ! 0)) (unat (args ! 1)), snd k))
      else if nr = 150 then
        ((0, []), (\<lambda>a. fst k a \<and> a \<notin> cover 12 (unat (args ! 0)) (unat (args ! 1)), snd k))
      else if nr = 28 then
        (if unat (args ! 0) mod 4096 = 0 then
           ((0, []), (fst k, \<lambda>a. if a \<in> cover 12 (unat (args ! 0)) (unat (args ! 1))
                                then args ! 2 = MADV_DONTDUMP else snd k a))
         else ((- 22, []), k))
      else if nr = 0 then
        (if 16 \<le> unat (args ! 2) then ((16, lab_auxv), k) else ((0, []), k))
      else ((3, []), k))"

definition lab_machine :: "u64 list \<Rightarrow> lab machine" where
  "lab_machine refused =
     \<lparr>SUPPORTED = True, x86_64 = True, sys = lab_sys refused, page_alloc = \<lambda>k size align. 28672,
      vec_alloc = \<lambda>k n. True\<rparr>"

lemmas lab_numbers = NR_MLOCK_def NR_MUNLOCK_def NR_MADVISE_def NR_READ_def NR_OPENAT_def NR_CLOSE_def lab_machine_def

lemma lab_mlock: "mlock_ok (lab_machine refused) 12 fst snd"
  by (auto simp: mlock_ok_def lab_numbers lab_sys_def ok_def split: if_splits)

lemma lab_munlock: "munlock_ok (lab_machine refused) 12 fst snd"
  by (auto simp: munlock_ok_def lab_numbers lab_sys_def ok_def split: if_splits)

lemma lab_madvise: "madvise_ok (lab_machine refused) 12 fst snd"
  by (auto simp: madvise_ok_def lab_numbers lab_sys_def ok_def split: if_splits)

lemma lab_other: "nr \<notin> {149, 150, 28} \<Longrightarrow> lab_sys refused nr args k = (reply, k') \<Longrightarrow> k' = k"
  by (simp add: lab_sys_def split: if_splits)

lemma lab_kernel_ok [simp]: "kernel_ok (lab_machine refused) 12 fst snd"
  unfolding kernel_ok_def
proof (intro conjI lab_mlock lab_munlock lab_madvise allI impI, goal_cases)
  case (1 k nr args reply k')
  then show ?case using lab_other [of nr refused args k reply k'] by (simp add: lab_numbers)
next
  case (2 k nr args reply k')
  then show ?case using lab_other [of nr refused args k reply k'] by (simp add: lab_numbers)
qed

lemma lab_reads_bounded [simp]: "reads_bounded (lab_machine refused)"
proof -
  have "sint r \<le> uint n" if "lab_sys refused 0 [fd, p, n] k = ((r, ws), k')" for k fd p n r ws k'
  proof (cases "16 \<le> unat n")
    case True
    then have "16 \<le> uint n" using uint_nat [of n] by linarith
    then show ?thesis using that True uint_ge_0 [of n] by (auto simp: lab_sys_def split: if_splits)
  next
    case False
    moreover have "- 1 \<le> uint n" using uint_ge_0 [of n] by linarith
    ultimately show ?thesis using that by (auto simp: lab_sys_def split: if_splits)
  qed
  then show ?thesis by (auto simp: reads_bounded_def lab_numbers)
qed

definition lab_world :: "u64 \<Rightarrow> lab world" where
  "lab_world cached =
     \<lparr>kern = (\<lambda>a. False, \<lambda>a. False), PAGE_SIZE = cached, mem = \<lambda>a. 0, requests = 0, history = [], released = []\<rparr>"

text \<open>The pages locked but not excluded from core dumps: where a secret must never be.\<close>

definition bare :: "('k \<Rightarrow> nat \<Rightarrow> bool) \<Rightarrow> ('k \<Rightarrow> nat \<Rightarrow> bool) \<Rightarrow> 'k \<Rightarrow> nat set" where
  "bare L H k = {a. L k a \<and> \<not> H k a}"

text \<open>C36. Releasing a range never makes a page locked and dumpable that was not so before, at any
  point and whichever of the two system calls the kernel refuses: the dump exclusion is lifted
  from exactly the pages that the preceding \<open>munlock\<close> has released, whatever the alignment of
  the range.\<close>

theorem unlock_never_locked_and_dumpable:
  assumes "kernel_ok M b L H" and "range_ok b p n"
  shows "evolves (\<lambda>k. bare L H k \<subseteq> bare L H (kern w)) w (unlock_range_with M (2 ^ b) p n w)"
proof (cases "SUPPORTED M")
  case False
  then show ?thesis by (simp add: unlock_range_with_def)
next
  case True
  let ?P = "\<lambda>k. bare L H k \<subseteq> bare L H (kern w)"
  define start where "start = page_start (2 ^ b) p"
  define size where "size = page_end (2 ^ b) p n - start"
  have cov: "cover b (unat start) (unat size) = cover b (unat p) (unat n)"
    unfolding start_def size_def by (rule cover_advised [OF assms(2)])
  obtain u w1 where u: "syscall2 M (NR_MUNLOCK M) p n w = (u, w1)" by (metis prod.exhaust)
  obtain e w2 where e: "syscall3 M (NR_MADVISE M) start size MADV_DODUMP w1 = (e, w2)" by (metis prod.exhaust)
  obtain ws where "sys M (NR_MUNLOCK M) [p, n] (kern w) = ((u, ws), kern w1)" using syscall2_kern [OF u] by blast
  note 1 = munlockD [OF assms(1) this]
  obtain ws' where "sys M (NR_MADVISE M) [start, size, MADV_DODUMP] (kern w1) = ((e, ws'), kern w2)"
    using syscall3_kern [OF e] by blast
  note 2 = madviseD [OF assms(1) this, unfolded cov]
  have w1: "?P (kern w1)" using 1 by (auto simp: bare_def)
  have w2: "ok u \<Longrightarrow> ?P (kern w2)" using 1 2 by (auto simp: bare_def)
  have "evolves ?P w w1" using w1 by (intro syscall2_evolves [OF u])
  moreover have "ok u \<Longrightarrow> evolves ?P w1 w2" using w2 by (intro syscall3_evolves [OF e])
  ultimately show ?thesis
    using True u e evolves_trans [of ?P w w1 w2]
    by (simp add: unlock_range_with_def Let_def start_def [symmetric] size_def [symmetric])
qed

lemma unlock_never_locked_and_dumpable_witness:
  "evolves (\<lambda>k. bare fst snd k \<subseteq> bare fst snd (kern (lab_world 4096))) (lab_world 4096)
    (unlock_range_with (lab_machine [150]) (2 ^ 12) 5000 8000 (lab_world 4096))"
  by (rule unlock_never_locked_and_dumpable) (simp_all add: range_ok_def)

text \<open>C39. Whatever the kernel answers, within the bound on what \<open>read\<close> returns, establishing the
  page size ends (a storm of interrupted reads included), never indexes out of the buffer, writes
  nothing, and yields nothing or a power of two of at least 4096, which later calls return again
  without asking.\<close>

theorem page_size_is_a_page_size:
  assumes "reads_bounded M" and "PAGE_SIZE w = 0"
  shows "\<exists>v w'. page_size M w = Some (v, w') \<and> evolves (\<lambda>k. True) w w'
    \<and> (case v of None \<Rightarrow> True | Some ps \<Rightarrow>
         4096 \<le> ps \<and> (\<exists>b < 64. ps = 2 ^ b) \<and> page_size M w' = Some (Some ps, w'))"
proof -
  obtain v w' where ps: "page_size M w = Some (v, w')" "evolves (\<lambda>k. True) w w'"
    "\<forall>ps. v = Some ps \<longrightarrow> PAGE_SIZE w' = ps"
    using page_size_ok [OF ignores_True assms(1)] by blast
  have "4096 \<le> q \<and> is_power_of_two q" if "v = Some q" for q
    using ps(1) assms(2) that
    by (auto simp: page_size_def Let_def bind_eq_Some_conv split: prod.splits if_splits option.splits
        dest: find_pagesz_value)
  moreover have "\<exists>b < 64. q = 2 ^ b" if "is_power_of_two q" for q
    using that by (auto simp: is_power_of_two_def list_ex_iff)
  moreover have "page_size M w' = Some (Some q, w')" if "v = Some q" "4096 \<le> q" for q
    using ps(3) that by (auto simp: page_size_def)
  ultimately show ?thesis
    using ps(1,2) by (cases v) simp_all
qed

lemma page_size_is_a_page_size_witness:
  "\<exists>v w'. page_size (lab_machine []) (lab_world 0) = Some (v, w') \<and> evolves (\<lambda>k. True) (lab_world 0) w'
    \<and> (case v of None \<Rightarrow> True | Some ps \<Rightarrow>
         4096 \<le> ps \<and> (\<exists>b < 64. ps = 2 ^ b) \<and> page_size (lab_machine []) w' = Some (Some ps, w'))"
  by (rule page_size_is_a_page_size) (simp_all add: lab_world_def)

text \<open>
  When \<open>madvise\<close> is refused outright and then \<open>munlock\<close> as well, \<open>lock_range\<close> returns the error with
  the pages locked and dumpable: no advice was applied that could stay.  No key is in them yet.
\<close>

lemma refused_rollback_leaves_bare_pages:
  "\<exists>w'. lock_range (lab_machine [28, 150]) 28672 4096 (lab_world 4096) = Some (Inl (- 1), w')
    \<and> 28672 \<in> bare fst snd (kern w')"
proof -
  have bad: "\<not> ok (- 1)" and good: "ok 0" by (simp_all add: ok_def)
  show ?thesis
    by (simp add: lock_range_def page_size_def lab_world_def lab_numbers lab_sys_def syscall2_def syscall3_def
        syscall_def note_effect_def bad good bare_def cover_def Let_def)
qed

end
