(* ===== verification/Locked_Status.thy ===== *)
theory Locked_Status
  imports Locked_Pages
begin

section \<open>The kernel's accounting of locked memory\<close>

text \<open>
  \<open>locked_bytes\<close> and \<open>parse_vmlck\<close> of \<open>src/lib.rs\<close>: \<open>/proc/self/status\<close> is read to its
  end and its \<open>VmLck:\<close> line parsed as bytes.  \<open>vmlck_of_lines\<close> is the specification over lines.
\<close>

text \<open>The ASCII string \<open>VmLck:\<close>.\<close>

definition NEEDLE :: bytes where "NEEDLE = [0x56, 0x6D, 0x4C, 0x63, 0x6B, 0x3A]"

lemma length_NEEDLE [simp]: "length NEEDLE = 6"
  by (simp add: NEEDLE_def)

definition is_ascii_digit :: "u8 \<Rightarrow> bool" where
  "is_ascii_digit c \<longleftrightarrow> 0x30 \<le> c \<and> c \<le> 0x39"

definition is_blank :: "u8 \<Rightarrow> bool" where
  "is_blank c \<longleftrightarrow> c = 0x20 \<or> c = 0x09"

definition u64_checked_mul :: "u64 \<Rightarrow> u64 \<Rightarrow> u64 option" where
  "u64_checked_mul a b = (if unat a * unat b < 2 ^ 64 then Some (a * b) else None)"

definition u64_checked_add :: "u64 \<Rightarrow> u64 \<Rightarrow> u64 option" where
  "u64_checked_add a b = (if unat a + unat b < 2 ^ 64 then Some (a + b) else None)"

definition u64_saturating_mul :: "u64 \<Rightarrow> u64 \<Rightarrow> u64" where
  "u64_saturating_mul a b = (if unat a * unat b < 2 ^ 64 then a * b else - 1)"

text \<open>The four loops of \<open>parse_vmlck\<close>.\<close>

function find_needle :: "bytes \<Rightarrow> nat \<Rightarrow> nat option \<Rightarrow> nat option" where
  "find_needle buf i found =
     (if i + length NEEDLE \<le> length buf then
        find_needle buf (i + 1)
          (if (i = 0 \<or> buf ! (i - 1) = 0x0A) \<and> subslice i (i + length NEEDLE) buf = NEEDLE
           then Some i else found)
      else found)"
  by pat_completeness auto
termination
  by (relation "measure (\<lambda>(buf, i, found). length buf - i)") auto

function skip_while :: "(u8 \<Rightarrow> bool) \<Rightarrow> bytes \<Rightarrow> nat \<Rightarrow> nat" where
  "skip_while ok_char buf j =
     (if j < length buf \<and> ok_char (buf ! j) then skip_while ok_char buf (j + 1) else j)"
  by pat_completeness auto
termination
  by (relation "measure (\<lambda>(ok_char, buf, j). length buf - j)") auto

function sum_digits :: "bytes \<Rightarrow> nat \<Rightarrow> nat \<Rightarrow> u64 \<Rightarrow> u64 option" where
  "sum_digits buf j k kb =
     (if k < j then
        do {
          m \<leftarrow> u64_checked_mul kb 10;
          kb \<leftarrow> u64_checked_add m (ucast (buf ! k - 0x30));
          sum_digits buf j (k + 1) kb
        }
      else Some kb)"
  by pat_completeness auto
termination
  by (relation "measure (\<lambda>(buf, j, k, kb). j - k)") auto

declare find_needle.simps [simp del] skip_while.simps [simp del] sum_digits.simps [simp del]

definition parse_vmlck :: "bytes \<Rightarrow> u64 option" where
  "parse_vmlck buf =
     do {
       i \<leftarrow> find_needle buf 0 None;
       let j = skip_while is_blank buf (i + length NEEDLE);
       let start = j;
       let j = skip_while is_ascii_digit buf j;
       (if j = start then None
        else do {
          kb \<leftarrow> sum_digits buf j start 0;
          Some (u64_saturating_mul kb 1024)
        })
     }"

text \<open>
  The read loop: what is read is appended until the end of the file; a misbehaving \<open>read\<close> that
  returns more than was asked for is the panic of the slice.  The outer option is the panic.
\<close>

function read_all :: "'k machine \<Rightarrow> u64 \<Rightarrow> bytes \<Rightarrow> bytes \<Rightarrow> 'k world \<Rightarrow> (bytes option \<times> 'k world) option" where
  "read_all M fd buf chunk w =
     (case read_retry M fd 0 chunk w of
        ((n, chunk), w) \<Rightarrow>
          if sint n < 0 then Some (None, close_fd M fd w)
          else if unat n = 0 then Some (Some buf, close_fd M fd w)
          else if 2 ^ 20 < length buf + unat n then Some (None, close_fd M fd w)
          else if \<not> vec_alloc M (requests w) (length buf + unat n)
          then Some (None, close_fd M fd (w\<lparr>requests := requests w + 1\<rparr>))
          else if length chunk < unat n then None
          else read_all M fd (buf @ take (unat n) chunk) chunk (w\<lparr>requests := requests w + 1\<rparr>))"
  by pat_completeness auto
termination
  by (relation "measure (\<lambda>(M, fd, buf, chunk, w). 2 ^ 20 - length buf)") (auto simp: min_def)

declare read_all.simps [simp del]

definition locked_bytes :: "'k machine \<Rightarrow> 'k world \<Rightarrow> (u64 option \<times> 'k world) option" where
  "locked_bytes M w =
     (if \<not> SUPPORTED M then Some (None, w)
      else (case open_ro M PATH_STATUS w of
        (fd, w) \<Rightarrow>
          if \<not> ok fd then Some (None, w)
          else do {
            (buf, w) \<leftarrow> read_all M fd [] (replicate 4096 0) w;
            (case buf of
               None \<Rightarrow> Some (None, w)
             | Some buf \<Rightarrow> Some (parse_vmlck buf, w))
          }))"

subsection \<open>The specification: the last matching line\<close>

function lines :: "bytes \<Rightarrow> bytes list" where
  "lines xs =
     takeWhile (\<lambda>c. c \<noteq> 0x0A) xs
       # (case dropWhile (\<lambda>c. c \<noteq> 0x0A) xs of [] \<Rightarrow> [] | _ # ys \<Rightarrow> lines ys)"
  by pat_completeness auto
termination
proof (relation "measure length", goal_cases)
  case (2 xs y ys)
  then have "length (dropWhile (\<lambda>c. c \<noteq> 0x0A) xs) = Suc (length ys)" by simp
  then show ?case using length_dropWhile_le [of "\<lambda>c. c \<noteq> 0x0A" xs] by simp
qed simp

declare lines.simps [simp del]

definition digits_value :: "bytes \<Rightarrow> nat" where
  "digits_value ds = foldl (\<lambda>v c. 10 * v + unat (c - 0x30)) 0 ds"

definition vmlck_of_lines :: "bytes \<Rightarrow> u64 option" where
  "vmlck_of_lines buf =
     (case filter (\<lambda>l. take 6 l = NEEDLE) (lines buf) of
        [] \<Rightarrow> None
      | ls \<Rightarrow>
        (let ds = takeWhile is_ascii_digit (dropWhile is_blank (drop 6 (last ls)))
         in if ds = [] \<or> 2 ^ 64 \<le> digits_value ds then None
            else Some (of_nat (min (1024 * digits_value ds) (2 ^ 64 - 1)))))"

subsection \<open>The parser meets it\<close>

fun last_match :: "bool \<Rightarrow> bytes \<Rightarrow> bytes option" where
  "last_match st [] = None"
| "last_match st (x # xs) =
     (case last_match (x = 0x0A) xs of
        Some r \<Rightarrow> Some r
      | None \<Rightarrow> if st \<and> take 6 (x # xs) = NEEDLE then Some (x # xs) else None)"

lemma last_match_short: "length xs < 6 \<Longrightarrow> last_match st xs = None"
  by (induction xs arbitrary: st) (auto dest!: arg_cong [of _ NEEDLE length])

lemma last_match_suffix: "last_match st xs = Some r \<Longrightarrow> \<exists>ys. xs = ys @ r"
  by (induction xs arbitrary: st) (auto split: option.splits if_splits, metis append_Cons)

lemma last_match_needle: "last_match st xs = Some r \<Longrightarrow> take 6 r = NEEDLE"
  by (induction xs arbitrary: st) (auto split: option.splits if_splits)

lemma find_needle_last_match:
  "i \<le> length buf \<Longrightarrow> find_needle buf i found =
     (case last_match (i = 0 \<or> buf ! (i - 1) = 0x0A) (drop i buf) of
        Some r \<Rightarrow> Some (length buf - length r) | None \<Rightarrow> found)"
proof (induction buf i found rule: find_needle.induct)
  case (1 buf i found)
  show ?case
  proof (cases "i + 6 \<le> length buf")
    case True
    then have d: "drop i buf = buf ! i # drop (i + 1) buf" by (simp add: Cons_nth_drop_Suc)
    have t: "subslice i (i + 6) buf = take 6 (drop i buf)" by (simp add: subslice_def)
    show ?thesis
      using 1 True
      by (subst find_needle.simps) (auto simp: d t split: option.split)
  next
    case False
    then show ?thesis by (subst find_needle.simps) (simp add: last_match_short)
  qed
qed

lemma skip_while_eq:
  "j \<le> length buf \<Longrightarrow> skip_while P buf j = j + length (takeWhile P (drop j buf))"
proof (induction P buf j rule: skip_while.induct)
  case (1 P buf j)
  show ?case
  proof (cases "j < length buf")
    case True
    then have "drop j buf = buf ! j # drop (j + 1) buf" by (simp add: Cons_nth_drop_Suc)
    then show ?thesis using 1 True by (subst skip_while.simps) auto
  next
    case False
    then show ?thesis by (subst skip_while.simps) simp
  qed
qed

lemma digits_value_Cons: "foldl (\<lambda>v c. 10 * v + unat (c - 0x30 :: u8)) a ds = a * 10 ^ length ds + digits_value ds"
proof (induction ds arbitrary: a)
  case Nil
  then show ?case by (simp add: digits_value_def)
next
  case (Cons d ds)
  have "digits_value (d # ds) = foldl (\<lambda>v c. 10 * v + unat (c - 0x30)) (unat (d - 0x30)) ds"
    by (simp add: digits_value_def)
  then show ?case by (simp only: foldl_Cons Cons.IH length_Cons power_Suc) (simp add: algebra_simps)
qed

lemma sum_digits_eq:
  "j \<le> length buf \<Longrightarrow> k \<le> j \<Longrightarrow>
   sum_digits buf j k kb
     = (let v = foldl (\<lambda>v c. 10 * v + unat (c - 0x30)) (unat kb) (subslice k j buf)
        in if v < 2 ^ 64 then Some (of_nat v) else None)"
proof (induction buf j k kb rule: sum_digits.induct)
  case (1 buf j k kb)
  show ?case
  proof (cases "k < j")
    case False
    then have "k = j" using 1 by simp
    moreover have "unat kb < 2 ^ 64" using unsigned_less [of kb] by simp
    ultimately show ?thesis by (subst sum_digits.simps) (simp add: subslice_def)
  next
    case True
    define d where "d = buf ! k - 0x30"
    have "unat d < 256" using unsigned_less [of d] by simp
    then have d: "unat (ucast d :: u64) = unat d" by (simp add: unsigned_ucast_eq take_bit_nat_eq_self_iff)
    have s: "subslice k j buf = buf ! k # subslice (k + 1) j buf"
      using True 1(2) by (simp add: subslice_def take_Cons' Cons_nth_drop_Suc [symmetric])
    let ?v = "foldl (\<lambda>v c. 10 * v + unat (c - 0x30 :: u8)) (10 * unat kb + unat d) (subslice (k + 1) j buf)"
    have "10 * unat kb + unat d \<le> ?v" unfolding digits_value_Cons by (simp add: trans_le_add1)
    show ?thesis
    proof (cases "unat kb * 10 + unat d < 2 ^ 64")
      case fits: True
      have m: "u64_checked_mul kb 10 = Some (kb * 10)" using fits by (simp add: u64_checked_mul_def)
      have u: "unat (kb * 10) = unat kb * 10" using fits by (simp add: unat_word_ariths)
      have a: "u64_checked_add (kb * 10) (ucast d) = Some (kb * 10 + ucast d)"
        using fits by (simp add: u64_checked_add_def d u)
      have "unat (kb * 10 + ucast d) = 10 * unat kb + unat d"
        using fits by (simp add: unat_word_ariths d u)
      then show ?thesis
        using 1 True by (subst sum_digits.simps) (simp add: m a s d_def [symmetric])
    next
      case False
      have "u64_checked_mul kb 10 \<bind> (\<lambda>m. u64_checked_add m (ucast d)) = None"
      proof (cases "unat kb * 10 < 2 ^ 64")
        case True
        then have "unat (kb * 10) = unat kb * 10" by (simp add: unat_word_ariths)
        then show ?thesis using True False by (simp add: u64_checked_mul_def u64_checked_add_def d)
      qed (simp add: u64_checked_mul_def)
      then have "sum_digits buf j k kb = None"
        using True by (subst sum_digits.simps) (auto simp: d_def [symmetric] bind_eq_None_conv split: option.split)
      then show ?thesis using False \<open>_ \<le> ?v\<close> by (simp add: s d_def [symmetric] Let_def)
    qed
  qed
qed

lemma last_match_line:
  "last_match False xs = (case dropWhile (\<lambda>c. c \<noteq> 0x0A) xs of [] \<Rightarrow> None | _ # ys \<Rightarrow> last_match True ys)"
  by (induction xs) (auto split: option.split list.split)

lemma last_match_True:
  "last_match True xs =
     (case (case dropWhile (\<lambda>c. c \<noteq> 0x0A) xs of [] \<Rightarrow> None | _ # ys \<Rightarrow> last_match True ys) of
        Some r \<Rightarrow> Some r
      | None \<Rightarrow> if take 6 xs = NEEDLE then Some xs else None)"
proof (cases xs)
  case Nil
  then show ?thesis by (simp add: NEEDLE_def)
next
  case (Cons x ys)
  show ?thesis
  proof (cases "x = 0x0A")
    case True
    then show ?thesis unfolding Cons by (simp add: NEEDLE_def split: option.split)
  next
    case False
    then show ?thesis unfolding Cons using last_match_line [of ys] by (simp split: option.split)
  qed
qed

text \<open>No newline is among the needle, the blanks and the digits.\<close>

lemma take_line:
  assumes "0x0A \<notin> set (take n xs)"
  shows "takeWhile (\<lambda>c. c \<noteq> 0x0A) xs = take n xs @ takeWhile (\<lambda>c. c \<noteq> 0x0A) (drop n xs)"
proof -
  have "takeWhile (\<lambda>c. c \<noteq> 0x0A) (take n xs @ drop n xs) = take n xs @ takeWhile (\<lambda>c. c \<noteq> 0x0A) (drop n xs)"
    by (rule takeWhile_append2) (use assms in auto)
  then show ?thesis by simp
qed

lemma needle_line: "take 6 (takeWhile (\<lambda>c. c \<noteq> 0x0A) xs) = NEEDLE \<longleftrightarrow> take 6 xs = NEEDLE"
proof
  assume "take 6 (takeWhile (\<lambda>c. c \<noteq> 0x0A) xs) = NEEDLE"
  moreover from this have "6 \<le> length (takeWhile (\<lambda>c. c \<noteq> 0x0A) xs)"
    by (metis length_NEEDLE length_take min.cobounded1)
  ultimately show "take 6 xs = NEEDLE" by (metis takeWhile_eq_take take_take min.absorb1)
next
  assume t: "take 6 xs = NEEDLE"
  then have "6 \<le> length xs" by (metis length_NEEDLE length_take min.cobounded1)
  then show "take 6 (takeWhile (\<lambda>c. c \<noteq> 0x0A) xs) = NEEDLE"
    using take_line [of 6 xs] t by (simp add: NEEDLE_def)
qed

lemma lines_last_match:
  "(case last_match True xs of
      None \<Rightarrow> filter (\<lambda>l. take 6 l = NEEDLE) (lines xs) = []
    | Some r \<Rightarrow> filter (\<lambda>l. take 6 l = NEEDLE) (lines xs) \<noteq> []
        \<and> last (filter (\<lambda>l. take 6 l = NEEDLE) (lines xs)) = takeWhile (\<lambda>c. c \<noteq> 0x0A) r)"
proof (induction xs rule: lines.induct)
  case (1 xs)
  note unfolded = lines.simps [of xs] last_match_True [of xs]
  show ?case
  proof (cases "dropWhile (\<lambda>c. c \<noteq> 0x0A) xs")
    case Nil
    then show ?thesis unfolding unfolded by (simp add: needle_line del: dropWhile_eq_Nil_conv)
  next
    case (Cons y ys)
    note IH = 1 [OF Cons]
    show ?thesis
    proof (cases "last_match True ys")
      case None
      then show ?thesis using IH Cons unfolding unfolded by (simp add: needle_line)
    next
      case (Some r)
      then show ?thesis using IH Cons unfolding unfolded by simp
    qed
  qed
qed

lemma digits_in_line:
  "takeWhile is_ascii_digit (dropWhile is_blank (takeWhile (\<lambda>c. c \<noteq> 0x0A) xs))
     = takeWhile is_ascii_digit (dropWhile is_blank xs)"
proof (induction xs)
  case Nil
  then show ?case by simp
next
  case (Cons x xs)
  have d: "takeWhile is_ascii_digit (takeWhile (\<lambda>c. c \<noteq> 0x0A) ys) = takeWhile is_ascii_digit ys" for ys
    by (induction ys) (auto simp: is_ascii_digit_def)
  have "\<not> is_ascii_digit 0x0A" "\<not> is_blank 0x0A" by (simp_all add: is_ascii_digit_def is_blank_def)
  then show ?case using Cons d [of xs] by auto
qed

subsection \<open>Reading ends\<close>

text \<open>
  The loop ends however much the kernel has to say, and never slices beyond its buffer.
\<close>

lemma read_all_returns:
  "reads_bounded M \<Longrightarrow> length chunk < 2 ^ 63 \<Longrightarrow> \<exists>r w'. read_all M fd buf chunk w = Some (r, w')"
proof (induction M fd buf chunk w rule: read_all.induct)
  case (1 M fd buf chunk w)
  obtain n chunk' w1 where r: "read_retry M fd 0 chunk w = ((n, chunk'), w1)"
    and len: "length chunk' = length chunk" "sint n \<le> int (length chunk)"
    using read_retry_ok [OF ignores_True 1(2,3) TrueI, where fd = fd and w = w and tries = 0] by blast
  show ?case
  proof (cases "sint n < 0 \<or> unat n = 0 \<or> 2 ^ 20 < length buf + unat n
      \<or> \<not> vec_alloc M (requests w1) (length buf + unat n)")
    case True
    then show ?thesis by (subst read_all.simps) (auto simp: r)
  next
    case False
    then have "int (unat n) = sint n" by (intro sint_nonneg_unat) linarith
    then have fits: "\<not> length chunk' < unat n" using len by linarith
    have "read_all M fd buf chunk w
        = read_all M fd (buf @ take (unat n) chunk') chunk' (w1\<lparr>requests := requests w1 + 1\<rparr>)"
      using False fits by (subst read_all.simps) (simp add: r)
    also have "\<exists>r w'. \<dots> = Some (r, w')"
      by (rule 1(1) [OF r [symmetric] refl]) (use False fits len 1(2,3) in auto)
    finally show ?thesis .
  qed
qed

lemma locked_bytes_returns: "reads_bounded M \<Longrightarrow> \<exists>r w'. locked_bytes M w = Some (r, w')"
proof -
  assume "reads_bounded M"
  obtain fd w1 where o: "open_ro M PATH_STATUS w = (fd, w1)" by (metis prod.exhaust)
  obtain r w2 where "read_all M fd [] (replicate 4096 0) w1 = Some (r, w2)"
    using read_all_returns [OF \<open>reads_bounded M\<close>, of "replicate 4096 0"] by fastforce
  then show ?thesis by (simp add: locked_bytes_def o split: option.split)
qed

subsection \<open>Properties\<close>

text \<open>For every content of \<open>/proc/self/status\<close>, decodable text or not, the parser returns the
  value of the last line that starts with \<open>VmLck:\<close>: its decimal number after blanks, times 1024 and
  saturating; nothing when there is no such line, no digit, or a number beyond 64 bits.\<close>

theorem parse_vmlck_is_last_line:
  "parse_vmlck buf = vmlck_of_lines buf"
proof (cases "last_match True buf")
  case None
  then show ?thesis
    using lines_last_match [of buf] find_needle_last_match [of 0 buf None]
    by (simp add: parse_vmlck_def vmlck_of_lines_def)
next
  case (Some r)
  let ?ls = "filter (\<lambda>l. take 6 l = NEEDLE) (lines buf)"
  let ?i = "length buf - length r"
  let ?ds = "takeWhile is_ascii_digit (dropWhile is_blank (drop 6 r))"
  obtain ys where buf: "buf = ys @ r" using last_match_suffix [OF Some] by blast
  have needle: "take 6 r = NEEDLE" by (rule last_match_needle [OF Some])
  then have r6: "6 \<le> length r" by (metis length_NEEDLE length_take min.cobounded1)
  have i: "find_needle buf 0 None = Some ?i"
    using find_needle_last_match [of 0 buf None] Some by simp
  have "drop 6 (takeWhile (\<lambda>c. c \<noteq> 0x0A) r) = takeWhile (\<lambda>c. c \<noteq> 0x0A) (drop 6 r)"
    using take_line [of 6 r] needle r6 by (simp add: NEEDLE_def)
  then have ls: "?ls \<noteq> []" "takeWhile is_ascii_digit (dropWhile is_blank (drop 6 (last ?ls))) = ?ds"
    using lines_last_match [of buf] Some by (simp_all add: digits_in_line)
  define b where "b = length (takeWhile is_blank (drop 6 r))"
  have d: "drop (?i + 6 + b) buf = dropWhile is_blank (drop 6 r)"
    by (simp add: buf b_def dropWhile_eq_drop add.commute)
  have start: "skip_while is_blank buf (?i + 6) = ?i + 6 + b"
    using r6 by (subst skip_while_eq) (simp_all add: buf b_def)
  have "b \<le> length r - 6" using length_takeWhile_le [of is_blank "drop 6 r"] by (simp add: b_def)
  then have inside: "?i + 6 + b \<le> length buf" using r6 by (simp add: buf)
  then have stop: "skip_while is_ascii_digit buf (?i + 6 + b) = ?i + 6 + b + length ?ds"
    by (subst skip_while_eq) (simp_all add: d)
  have ds: "subslice (?i + 6 + b) (?i + 6 + b + length ?ds) buf = ?ds"
    by (simp add: subslice_def d takeWhile_eq_take [symmetric])
  have "length (dropWhile is_blank (drop 6 r)) = length buf - (?i + 6 + b)"
    by (simp only: d [symmetric] length_drop)
  then have "?i + 6 + b + length ?ds \<le> length buf"
    using inside length_takeWhile_le [of is_ascii_digit "dropWhile is_blank (drop 6 r)"] by linarith
  from sum_digits_eq [OF this, of "?i + 6 + b" 0]
  have sum: "sum_digits buf (?i + 6 + b + length ?ds) (?i + 6 + b) 0
      = (if digits_value ?ds < 2 ^ 64 then Some (of_nat (digits_value ?ds)) else None)"
    by (simp add: ds digits_value_def Let_def)
  have mul: "u64_saturating_mul (of_nat v) 1024 = of_nat (min (1024 * v) (2 ^ 64 - 1))" if "v < 2 ^ 64" for v
  proof -
    have "unat (of_nat v :: u64) = v" using that by (simp add: unsigned_of_nat take_bit_nat_eq_self_iff)
    then show ?thesis
      by (auto simp: u64_saturating_mul_def min_def mult.commute)
  qed
  obtain l ls' where cons: "?ls = l # ls'" using ls(1) by (cases ?ls) auto
  show ?thesis
    using i start stop sum mul ls(2)
    by (auto simp: parse_vmlck_def vmlck_of_lines_def cons Let_def not_le)
qed

end
