(* ===== verification/Locked_Key.thy ===== *)
theory Locked_Key
  imports Locked_Status Blake3_Api
begin

section \<open>The locked key\<close>

text \<open>
  \<open>Page\<close> and \<open>LockedKey\<close> of \<open>src/lib.rs\<close>: one page of its own, zeroed, locked and excluded
  from core dumps before the key enters it, an integrity tag beside the key, and the wipe before
  the release.  The page lives in the byte memory of the world; residue is as in \<open>Siv_Kdf\<close>.
\<close>

definition EINVAL :: isize where "EINVAL = - 22"
definition ENOMEM :: isize where "ENOMEM = - 12"
definition KEY_TAG_LEN :: nat where "KEY_TAG_LEN = 8"

record page =
  pg_ptr :: u64
  pg_layout :: u64
  pg_page_size :: u64

text \<open>\<open>Layout::from_size_align\<close>: the alignment a power of two, the rounded size within \<open>isize\<close>.\<close>

definition layout_ok :: "u64 \<Rightarrow> u64 \<Rightarrow> bool" where
  "layout_ok sz align \<longleftrightarrow> is_power_of_two align \<and> unat sz + unat align \<le> 2 ^ 63"

text \<open>The ghost history starts with the allocation of the page.\<close>

definition page_new :: "'k machine \<Rightarrow> 'k world \<Rightarrow> ((isize + page) \<times> 'k world) option" where
  "page_new M w =
     do {
       (size, w) \<leftarrow> page_size_pub M w;
       (case size of
          None \<Rightarrow> Some (Inl ENOSYS, w)
        | Some ps \<Rightarrow>
            if \<not> layout_ok ps ps then Some (Inl EINVAL, w)
            else
              (let p = page_alloc M (requests w) (unat ps) (unat ps);
                   w = w\<lparr>requests := requests w + 1\<rparr>
               in if p = 0 then Some (Inl ENOMEM, w)
                  else Some (Inr \<lparr>pg_ptr = p, pg_layout = ps, pg_page_size = ps\<rparr>,
                             w\<lparr>mem := zeroed (unat p) (unat ps) (mem w), history := []\<rparr>)))
     }"

text \<open>\<open>bytes_mut()[off..off + src.len()].copy_from_slice(src)\<close>.\<close>

definition page_write :: "page \<Rightarrow> nat \<Rightarrow> bytes \<Rightarrow> 'k world \<Rightarrow> 'k world option" where
  "page_write pg off src w =
     do {
       assert_that (off + length src \<le> unat (pg_layout pg));
       Some (note_effect (w\<lparr>mem := load_slice (unat (pg_ptr pg) + off) src (mem w)\<rparr>))
     }"

definition page_wipe :: "page \<Rightarrow> 'k world \<Rightarrow> 'k world option" where
  "page_wipe pg w =
     do {
       m \<leftarrow> zeroize_raw 64 8 (unat (pg_ptr pg)) (unat (pg_layout pg)) (mem w);
       Some (note_effect (w\<lparr>mem := m\<rparr>))
     }"

text \<open>\<open>Page::drop\<close>; what the allocator gets back is recorded.\<close>

definition page_drop :: "page \<Rightarrow> 'k world \<Rightarrow> 'k world option" where
  "page_drop pg w =
     do {
       w \<leftarrow> page_wipe pg w;
       Some (w\<lparr>released := released w @ [read_slice (unat (pg_ptr pg)) (unat (pg_layout pg)) (mem w)]\<rparr>)
     }"

definition integrity_tag :: "platform \<Rightarrow> bytes \<Rightarrow> (bytes \<times> bytes list) option" where
  "integrity_tag p key =
     do {
       hasher \<leftarrow> h_update (h_new p) key;
       reader \<leftarrow> finalize_xof hasher;
       (reader, out) \<leftarrow> reader_fill reader KEY_TAG_LEN;
       let reader = reader_zeroize reader;
       let hasher = hasher_zeroize hasher;
       Some (out, [reader_bytes reader, hasher_bytes hasher])
     }"

definition locked_key_new ::
  "'k machine \<Rightarrow> platform \<Rightarrow> bytes \<Rightarrow> 'k world \<Rightarrow> ((isize + page) \<times> bytes list \<times> 'k world) option"
where
  "locked_key_new M p key w =
     (if \<not> SUPPORTED M then Some (Inl ENOSYS, [], w)
      else do {
        (pg, w) \<leftarrow> page_new M w;
        (case pg of
           Inl e \<Rightarrow> Some (Inl e, [], w)
         | Inr pg \<Rightarrow> do {
             (locked, w) \<leftarrow> lock_range M (pg_ptr pg) (pg_layout pg) w;
             (case locked of
                Inl e \<Rightarrow> do {
                  w \<leftarrow> page_drop pg w;
                  Some (Inl e, [], w)
                }
              | Inr _ \<Rightarrow> do {
                  w \<leftarrow> page_write pg 0 key w;
                  (tag, r) \<leftarrow> integrity_tag p key;
                  w \<leftarrow> page_write pg (length key) tag w;
                  Some (Inr pg, r @ [wiped tag], w)
                })
           })
      })"

text \<open>
  \<open>as_bytes\<close> with \<open>check_integrity\<close>: the inner \<open>None\<close> is its deliberate panic, which leaves the
  residue behind as well.
\<close>

definition check_integrity :: "platform \<Rightarrow> page \<Rightarrow> bytes \<Rightarrow> 'k world \<Rightarrow> (bool \<times> bytes list) option" where
  "check_integrity p pg bs w =
     do {
       (expected, r) \<leftarrow> integrity_tag p bs;
       let stored = read_slice (unat (pg_ptr pg) + 32) KEY_TAG_LEN (mem w);
       let ok_tag = ct_eq expected stored;
       Some (ok_tag, r @ [wiped expected])
     }"

definition as_bytes :: "platform \<Rightarrow> page \<Rightarrow> 'k world \<Rightarrow> (bytes option \<times> bytes list) option" where
  "as_bytes p pg w =
     do {
       let bs = read_slice (unat (pg_ptr pg)) 32 (mem w);
       (ok_tag, r) \<leftarrow> check_integrity p pg bs w;
       Some (if ok_tag then Some bs else None, r)
     }"

text \<open>\<open>PartialEq\<close> reads both keys through \<open>as_bytes\<close>.\<close>

definition locked_key_eq :: "platform \<Rightarrow> page \<Rightarrow> page \<Rightarrow> 'k world \<Rightarrow> (bool option \<times> bytes list) option" where
  "locked_key_eq p pg pg' w =
     do {
       (a, r) \<leftarrow> as_bytes p pg w;
       (case a of
          None \<Rightarrow> Some (None, r)
        | Some a \<Rightarrow> do {
            (b, r') \<leftarrow> as_bytes p pg' w;
            Some (map_option (ct_eq a) b, r @ r')
          })
     }"

text \<open>Dropping a key: wipe, unlock, then the drop of its page.\<close>

definition locked_key_drop :: "'k machine \<Rightarrow> page \<Rightarrow> 'k world \<Rightarrow> 'k world option" where
  "locked_key_drop M pg w =
     do {
       w \<leftarrow> page_wipe pg w;
       let w = unlock_range_with M (pg_page_size pg) (pg_ptr pg) (pg_layout pg) w;
       page_drop pg w
     }"

subsection \<open>The page in memory\<close>

text \<open>A page of \<open>2 ^ b\<close> bytes at its alignment, with room above it.\<close>

definition page_ok :: "nat \<Rightarrow> page \<Rightarrow> bool" where
  "page_ok b pg \<longleftrightarrow> 12 \<le> b \<and> b < 63 \<and> pg_layout pg = 2 ^ b \<and> pg_page_size pg = 2 ^ b
     \<and> unat (pg_ptr pg) mod 2 ^ b = 0 \<and> unat (pg_ptr pg) + 2 ^ b + 2 ^ b \<le> 2 ^ 64"

definition page_span :: "page \<Rightarrow> nat set" where
  "page_span pg = {unat (pg_ptr pg) ..< unat (pg_ptr pg) + unat (pg_layout pg)}"

lemma page_size_4096: "page_ok b pg \<Longrightarrow> unat (pg_layout pg) = 2 ^ b \<and> 4096 \<le> (2 :: nat) ^ b"
  using power_increasing [of 12 b "2 :: nat"] by (simp add: page_ok_def unat_2_power)

lemma page_room: "page_ok b pg \<Longrightarrow> range_ok b (pg_ptr pg) (pg_layout pg)"
  by (simp add: page_ok_def range_ok_def unat_2_power)

lemma page_cover:
  assumes "page_ok b pg" shows "cover b (unat (pg_ptr pg)) (unat (pg_layout pg)) = page_span pg"
proof -
  obtain q where q: "unat (pg_ptr pg) = q * 2 ^ b"
    using assms by (auto simp: page_ok_def mod_eq_0_iff_dvd elim!: dvdE)
  have "(q * 2 ^ b + 2 ^ b + (2 ^ b - 1)) div 2 ^ b * 2 ^ b = q * 2 ^ b + (2 :: nat) ^ b"
    using round_up_multiple [of "q + 1" b] by (simp add: algebra_simps)
  then show ?thesis
    using page_size_4096 [OF assms] by (auto simp: cover_def page_span_def q)
qed

lemma read_zeroed: "c \<le> a \<Longrightarrow> a + n \<le> c + k \<Longrightarrow> read_slice a n (zeroed c k m) = replicate n 0"
  by (rule nth_equalityI) (auto simp: zeroed_def)

subsection \<open>The operations of a page\<close>

lemma page_wipe_ok:
  assumes "page_ok b pg"
  shows "page_wipe pg w = Some (note_effect (w\<lparr>mem := zeroed (unat (pg_ptr pg)) (2 ^ b) (mem w)\<rparr>))"
proof -
  have "unat (pg_ptr pg) + unat (pg_layout pg) \<le> 2 ^ 64"
    using assms page_size_4096 [OF assms] by (simp add: page_ok_def)
  then show ?thesis using page_size_4096 [OF assms] by (simp add: page_wipe_def zeroize_raw_ok)
qed

lemma page_drop_ok:
  "page_ok b pg \<Longrightarrow> page_drop pg w =
     Some (note_effect (w\<lparr>mem := zeroed (unat (pg_ptr pg)) (2 ^ b) (mem w)\<rparr>)\<lparr>released := released w @ [replicate (2 ^ b) 0]\<rparr>)"
  by (simp add: page_drop_def page_wipe_ok page_size_4096 read_zeroed note_effect_def)

lemma page_write_ok:
  "page_ok b pg \<Longrightarrow> off + length src \<le> 4096 \<Longrightarrow> page_write pg off src w
     = Some (note_effect (w\<lparr>mem := load_slice (unat (pg_ptr pg) + off) src (mem w)\<rparr>))"
  using page_size_4096 [of b pg] by (simp add: page_write_def)

text \<open>The integrity tag as a function of the key.\<close>

definition key_tag :: "bytes \<Rightarrow> bytes" where
  "key_tag key = blake3_stream IV 0 (detect (strict_build False)) key KEY_TAG_LEN"

lemma length_key_tag [simp, len_simps]: "length (key_tag key) = 8"
  by (simp add: key_tag_def KEY_TAG_LEN_def)

lemma clean_zeroized: "clean [reader_bytes (reader_zeroize r), hasher_bytes (hasher_zeroize h)]"
  using hasher_zeroize_bytes [of h] reader_zeroize_bytes [of r] by (auto simp: clean_def all_zero_def)

lemma integrity_tag_ok:
  assumes "platform_ok p" "length key = 32"
  shows "\<exists>r. integrity_tag p key = Some (key_tag key, r) \<and> clean r"
proof -
  have iv: "length IV = 8" by (simp add: IV_def)
  obtain h where h: "h_update (h_new p) key = Some h" "absorbed IV 0 p h key"
    using h_update_ok [OF assms(1) iv new_internal_absorbed, of key 0] assms(2) by (auto simp: h_new_def)
  obtain r where "finalize_xof h = Some r" using finalize_xof_ok [OF assms(1) iv h(2)] by blast
  then show ?thesis
    using finalize_fill_ok [OF assms(1) iv h(2), of KEY_TAG_LEN] h(1) clean_zeroized
      blake3_stream_platform [of IV 0 p key KEY_TAG_LEN "detect (strict_build False)"]
    by (auto simp: integrity_tag_def key_tag_def)
qed

lemma as_bytes_ok:
  fixes pg :: page
  assumes "platform_ok p"
  defines "a \<equiv> unat (pg_ptr pg)"
  shows "\<exists>r. as_bytes p pg w = Some (if read_slice (a + 32) 8 (mem w) = key_tag (read_slice a 32 (mem w))
      then Some (read_slice a 32 (mem w)) else None, r) \<and> clean r"
proof -
  obtain r where "integrity_tag p (read_slice a 32 (mem w)) = Some (key_tag (read_slice a 32 (mem w)), r)" "clean r"
    using integrity_tag_ok [OF assms(1), of "read_slice a 32 (mem w)"] by auto
  then show ?thesis
    by (auto simp: as_bytes_def check_integrity_def a_def KEY_TAG_LEN_def Let_def)
qed

text \<open>What a live key's page holds, and when its bytes are exposed.\<close>

definition holds_key :: "page \<Rightarrow> bytes \<Rightarrow> memory \<Rightarrow> bool" where
  "holds_key pg key m \<longleftrightarrow> read_slice (unat (pg_ptr pg)) 32 m = key
     \<and> read_slice (unat (pg_ptr pg) + 32) 8 m = key_tag key"

definition exposed :: "('k \<Rightarrow> nat \<Rightarrow> bool) \<Rightarrow> ('k \<Rightarrow> nat \<Rightarrow> bool) \<Rightarrow> page \<Rightarrow> memory \<times> 'k \<Rightarrow> bool" where
  "exposed L H pg s \<longleftrightarrow> (\<exists>a \<in> page_span pg. fst s a \<noteq> 0 \<and> \<not> (L (snd s) a \<and> H (snd s) a))"

text \<open>The allocator returns an aligned page below the end of the address space, or null.\<close>

definition allocs_pages :: "'k machine \<Rightarrow> nat \<Rightarrow> bool" where
  "allocs_pages M b \<longleftrightarrow> (\<forall>k. page_alloc M k (2 ^ b) (2 ^ b) = 0 \<or>
     unat (page_alloc M k (2 ^ b) (2 ^ b)) mod 2 ^ b = 0
     \<and> unat (page_alloc M k (2 ^ b) (2 ^ b)) + 2 ^ b + 2 ^ b \<le> 2 ^ 64)"

lemma page_new_ok:
  assumes "reads_bounded M" "SUPPORTED M" "knows_page M b w" "allocs_pages M b" "12 \<le> b" "b < 63"
  obtains (refused) e w1 where "page_new M w = Some (Inl e, w1)" "released w1 = released w"
  | (granted) pg w1 w2 where "page_new M w = Some (Inr pg, w2)" "page_ok b pg"
      "w2 = w1\<lparr>mem := zeroed (unat (pg_ptr pg)) (2 ^ b) (mem w1), history := []\<rparr>" "released w1 = released w"
      "PAGE_SIZE w2 = 2 ^ b"
proof -
  obtain v w1 where ps: "page_size M w = Some (v, w1)" "evolves (\<lambda>k. True) w w1"
    "\<forall>q. v = Some q \<longrightarrow> PAGE_SIZE w1 = q"
    using page_size_ok [OF ignores_True assms(1)] by blast
  have rel: "released w1 = released w" using ps(2) by (simp add: evolves_def)
  have u: "unat (2 ^ b :: u64) = 2 ^ b" using assms(6) by (simp add: unat_2_power)
  show thesis
  proof (cases v)
    case None
    then show thesis using ps(1) assms(2) rel by (intro refused [of ENOSYS w1]) (simp_all add: page_new_def page_size_pub_def)
  next
    case (Some q)
    then have q: "q = 2 ^ b" using assms(3) ps(1) by (auto simp: knows_page_def)
    have "is_power_of_two q" using assms(6) q by (auto simp: is_power_of_two_def list_ex_iff)
    moreover have "unat q + unat q \<le> 2 ^ 63"
      using u q assms(6) power_increasing [of b 62 "2 :: nat"] by simp
    ultimately have lay: "layout_ok q q" by (simp add: layout_ok_def)
    let ?p = "page_alloc M (requests w1) (2 ^ b) (2 ^ b)"
    show thesis
    proof (cases "?p = 0")
      case True
      then show thesis using ps(1) Some assms(2) rel lay q u
        by (intro refused [of ENOMEM "w1\<lparr>requests := requests w1 + 1\<rparr>"])
          (simp_all add: page_new_def page_size_pub_def)
    next
      case False
      then have p: "unat ?p mod 2 ^ b = 0" "unat ?p + 2 ^ b + 2 ^ b \<le> 2 ^ 64"
        using assms(4) unfolding allocs_pages_def by blast+
      show thesis
        by (rule granted [of "\<lparr>pg_ptr = ?p, pg_layout = q, pg_page_size = q\<rparr>"
              "w1\<lparr>requests := requests w1 + 1, mem := zeroed (unat ?p) (2 ^ b) (mem w1), history := []\<rparr>"
              "w1\<lparr>requests := requests w1 + 1\<rparr>"])
          (use False ps Some assms(2,5,6) rel lay p q u in \<open>simp_all add: page_new_def page_size_pub_def page_ok_def Let_def\<close>)
    qed
  qed
qed

lemma knows_cached: "PAGE_SIZE w = 2 ^ b \<Longrightarrow> b < 64 \<Longrightarrow> knows_page M b w"
  using unat_2_power [of b] by (auto simp: knows_page_def page_size_def)

text \<open>Writing the key into a protected page, next to its tag.\<close>

definition key_written :: "page \<Rightarrow> bytes \<Rightarrow> memory \<Rightarrow> memory" where
  "key_written pg key m =
     load_slice (unat (pg_ptr pg) + 32) (key_tag key) (load_slice (unat (pg_ptr pg)) key m)"

lemma key_written_holds: "length key = 32 \<Longrightarrow> holds_key pg key (key_written pg key m)"
  by (simp add: holds_key_def key_written_def read_load_other)

lemma locked_key_new_ok:
  assumes "kernel_ok M b L H" "reads_bounded M" "knows_page M b w" "allocs_pages M b" "12 \<le> b" "b < 63"
    and "platform_ok p" "length key = 32"
  shows "\<exists>res r w'. locked_key_new M p key w = Some (res, r, w') \<and> clean r \<and>
    (case res of
       Inl e \<Rightarrow> released w' = released w \<or> released w' = released w @ [replicate (2 ^ b) 0]
     | Inr pg \<Rightarrow> page_ok b pg \<and> holds_key pg key (mem w')
         \<and> (\<forall>a \<in> page_span pg. L (kern w') a \<and> H (kern w') a)
         \<and> (\<forall>s \<in> set (history w'). \<not> exposed L H pg s))"
proof (cases "SUPPORTED M")
  case False
  then show ?thesis by (simp add: locked_key_new_def)
next
  case sup: True
  show ?thesis
  proof (rule page_new_ok [OF assms(2) sup assms(3-6)])
    fix e w1
    assume "page_new M w = Some (Inl e, w1)" "released w1 = released w"
    then show ?thesis using sup by (simp add: locked_key_new_def)
  next
    fix pg w1 w2
    assume new: "page_new M w = Some (Inr pg, w2)" and pg: "page_ok b pg"
      and w2: "w2 = w1\<lparr>mem := zeroed (unat (pg_ptr pg)) (2 ^ b) (mem w1), history := []\<rparr>"
      and rel: "released w1 = released w" and cached: "PAGE_SIZE w2 = 2 ^ b"
    have b64: "b < 64" using assms(6) by simp
    obtain r w3 where lock: "lock_range M (pg_ptr pg) (pg_layout pg) w2 = Some (r, w3)" and ev: "evolves (\<lambda>k. True) w2 w3"
      using lock_range_evolves [OF assms(2)] by blast
    have rel3: "released w3 = released w" using ev rel w2 by (simp add: evolves_def)
    have zero: "m a = 0" if "(m, k) \<in> set (history w3)" "a \<in> page_span pg" for m k a
      using ev that w2 page_size_4096 [OF pg] by (auto simp: evolves_def page_span_def zeroed_def)
    show ?thesis
    proof (cases r)
      case (Inl e)
      then show ?thesis using sup new lock rel3 by (simp add: locked_key_new_def page_drop_ok [OF pg] note_effect_def)
    next
      case (Inr u)
      then have lock': "lock_range M (pg_ptr pg) (pg_layout pg) w2 = Some (Inr (), w3)" using lock by simp
      have prot: "L (kern w3) a \<and> H (kern w3) a" if "a \<in> page_span pg" for a
        using lock_range_protects [OF assms(1) page_room [OF pg] knows_cached [OF cached b64] lock' sup]
          that page_cover [OF pg] by blast
      obtain r' where tag: "integrity_tag p key = Some (key_tag key, r')" "clean r'"
        using integrity_tag_ok [OF assms(7,8)] by blast
      let ?a = "unat (pg_ptr pg)"
      let ?w4 = "note_effect (w3\<lparr>mem := load_slice ?a key (mem w3)\<rparr>)"
      let ?w5 = "note_effect (?w4\<lparr>mem := key_written pg key (mem w3)\<rparr>)"
      have "page_write pg 0 key w3 = Some ?w4" "page_write pg 32 (key_tag key) ?w4 = Some ?w5"
        using assms(8) by (simp_all add: page_write_ok [OF pg] key_written_def note_effect_def)
      then have run: "locked_key_new M p key w = Some (Inr pg, r' @ [wiped (key_tag key)], ?w5)"
        using sup new lock' tag(1) assms(8) by (simp add: locked_key_new_def)
      have before: "\<not> exposed L H pg (m, k)" if "(m, k) \<in> set (history w3)" for m k
        using zero [OF that] by (simp add: exposed_def)
      have after: "\<not> exposed L H pg (m, kern w3)" for m
        using prot by (simp add: exposed_def)
      have "\<not> exposed L H pg s" if "s \<in> set (history ?w5)" for s
        using that before [of "fst s" "snd s"] after by (auto simp: note_effect_def)
      then show ?thesis
        using run tag(2) pg prot key_written_holds [OF assms(8), of pg "mem w3"]
        by (auto simp: note_effect_def)
    qed
  qed
qed

subsection \<open>Properties\<close>

text \<open>C34. On a kernel that keeps its documented contract, \<open>LockedKey::new\<close> returns, whatever system
  call or allocation is refused.  On success the key and its tag are in a page that is locked and
  excluded from core dumps, and at no moment since the page was allocated did a byte of it other
  than zero sit in memory that was not both.  On failure no memory was released that ever held
  anything but zeros.  The tag's copy and the hasher are wiped.\<close>

theorem locked_key_never_exposed:
  assumes "kernel_ok M b L H" and "reads_bounded M" and "knows_page M b w" and "allocs_pages M b"
    and "12 \<le> b" and "b < 63" and "platform_ok p" and "length key = 32"
  shows "\<exists>res r w'. locked_key_new M p key w = Some (res, r, w') \<and> clean r \<and>
    (case res of
       Inl e \<Rightarrow> released w' = released w \<or> released w' = released w @ [replicate (2 ^ b) 0]
     | Inr pg \<Rightarrow> page_ok b pg \<and> holds_key pg key (mem w')
         \<and> (\<forall>a \<in> page_span pg. L (kern w') a \<and> H (kern w') a)
         \<and> (\<forall>s \<in> set (history w'). \<not> exposed L H pg s))"
  by (rule locked_key_new_ok [OF assms])

lemma lab_allocs_pages [simp]: "allocs_pages (lab_machine refused) 12"
  by (simp add: allocs_pages_def lab_machine_def)

lemma locked_key_never_exposed_witness:
  "\<exists>res r w'. locked_key_new (lab_machine []) (detect (strict_build False)) (replicate 32 7) (lab_world 4096) = Some (res, r, w')
    \<and> clean r \<and>
    (case res of
       Inl e \<Rightarrow> released w' = released (lab_world 4096) \<or> released w' = released (lab_world 4096) @ [replicate (2 ^ 12) 0]
     | Inr pg \<Rightarrow> page_ok 12 pg \<and> holds_key pg (replicate 32 7) (mem w')
         \<and> (\<forall>a \<in> page_span pg. fst (kern w') a \<and> snd (kern w') a)
         \<and> (\<forall>s \<in> set (history w'). \<not> exposed fst snd pg s))"
  by (rule locked_key_never_exposed) (simp_all add: knows_cached lab_world_def)

text \<open>C35. Dropping a locked key wipes its whole page before the first system call that could release
  it: with any kernel, every state from the wipe on has only zeros in the page, the allocator gets
  zeros back, and no other byte of memory is touched.\<close>

theorem locked_key_wiped_before_release:
  assumes "page_ok b pg"
  shows "\<exists>w'. locked_key_drop M pg w = Some w'
    \<and> released w' = released w @ [replicate (2 ^ b) 0]
    \<and> (\<forall>(m, k) \<in> set (drop (length (history w)) (history w')). \<forall>a. m a = (if a \<in> page_span pg then 0 else mem w a))"
proof -
  let ?m = "zeroed (unat (pg_ptr pg)) (2 ^ b) (mem w)"
  let ?w1 = "note_effect (w\<lparr>mem := ?m\<rparr>)"
  define w2 where "w2 = unlock_range_with M (pg_page_size pg) (pg_ptr pg) (pg_layout pg) ?w1"
  have ev: "evolves (\<lambda>k. True) ?w1 w2" unfolding w2_def by (rule unlock_evolves)
  have mem2: "mem w2 = ?m" using ev by (simp add: evolves_def note_effect_def)
  then have again: "zeroed (unat (pg_ptr pg)) (2 ^ b) (mem w2) = ?m" by (simp add: zeroed_def fun_eq_iff)
  have m: "?m a = (if a \<in> page_span pg then 0 else mem w a)" for a
    using page_size_4096 [OF assms] by (simp add: page_span_def zeroed_def)
  have run: "locked_key_drop M pg w
      = Some (note_effect (w2\<lparr>mem := ?m\<rparr>)\<lparr>released := released w2 @ [replicate (2 ^ b) 0]\<rparr>)"
    by (simp add: locked_key_drop_def page_wipe_ok [OF assms] page_drop_ok [OF assms] w2_def [symmetric] again)
  obtain ks where "history w2 = history w @ map (Pair ?m) ks"
    using ev by (auto simp: evolves_def note_effect_def intro: that [of "kern w # _"])
  then show ?thesis
    using run ev m by (auto simp: evolves_def note_effect_def)
qed

lemma locked_key_wiped_before_release_witness:
  "\<exists>w'. locked_key_drop (lab_machine [150]) \<lparr>pg_ptr = 28672, pg_layout = 4096, pg_page_size = 4096\<rparr>
        ((lab_world 4096)\<lparr>mem := \<lambda>a. 5\<rparr>) = Some w'
    \<and> released w' = released ((lab_world 4096)\<lparr>mem := \<lambda>a. 5\<rparr>) @ [replicate (2 ^ 12) 0]
    \<and> (\<forall>(m, k) \<in> set (drop (length (history ((lab_world 4096)\<lparr>mem := \<lambda>a. 5\<rparr>))) (history w')).
         \<forall>a. m a = (if a \<in> page_span \<lparr>pg_ptr = 28672, pg_layout = 4096, pg_page_size = 4096\<rparr> then 0
                   else mem ((lab_world 4096)\<lparr>mem := \<lambda>a. 5\<rparr>) a))"
  by (rule locked_key_wiped_before_release) (simp add: page_ok_def)

text \<open>C37. One changed byte in the page of a live key: in the key or its tag, reading the key panics,
  unless the changed key has the same eight tag bytes; in the rest of the page, the key is returned.
  On both paths the recomputed tag and the hasher are wiped.\<close>

theorem corrupted_key_is_refused:
  assumes "platform_ok p" and "page_ok b pg" and "holds_key pg key (mem w)" and "i < 2 ^ b"
    and "v \<noteq> mem w (unat (pg_ptr pg) + i)"
    and "i < 32 \<Longrightarrow> key_tag (key[i := v]) \<noteq> key_tag key"
  shows "\<exists>r. as_bytes p pg (w\<lparr>mem := (mem w)(unat (pg_ptr pg) + i := v)\<rparr>)
      = Some (if i < 40 then None else Some key, r) \<and> clean r"
proof -
  let ?a = "unat (pg_ptr pg)"
  let ?m = "(mem w)(?a + i := v)"
  have k: "read_slice ?a 32 (mem w) = key" "read_slice (?a + 32) 8 (mem w) = key_tag key"
    using assms(3) by (simp_all add: holds_key_def)
  have k': "read_slice ?a 32 ?m = (if i < 32 then key[i := v] else key)"
    unfolding k(1) [symmetric] by (rule nth_equalityI) (auto simp: nth_list_update)
  have t': "read_slice (?a + 32) 8 ?m = (if 32 \<le> i \<and> i < 40 then (key_tag key)[i - 32 := v] else key_tag key)"
    unfolding k(2) [symmetric] by (rule nth_equalityI) (auto simp: nth_list_update)
  have differs: "(key_tag key)[i - 32 := v] \<noteq> key_tag key" if "32 \<le> i" "i < 40"
  proof
    assume same: "(key_tag key)[i - 32 := v] = key_tag key"
    have "i - 32 < length (key_tag key)" using that by simp
    then have "(key_tag key)[i - 32 := v] ! (i - 32) = v" by simp
    then have "key_tag key ! (i - 32) = v" by (simp only: same)
    moreover have "key_tag key ! (i - 32) = mem w (?a + i)"
      unfolding k(2) [symmetric] using that by simp
    ultimately show False using assms(5) by simp
  qed
  show ?thesis
    using as_bytes_ok [OF assms(1), of pg "w\<lparr>mem := ?m\<rparr>"] assms(6) differs k' t'
    by (auto split: if_splits)
qed

text \<open>A page with a key, and its tag's second byte incremented.\<close>

definition lab_page :: page where
  "lab_page = \<lparr>pg_ptr = 28672, pg_layout = 4096, pg_page_size = 4096\<rparr>"

definition lab_holding :: "bytes \<Rightarrow> lab world" where
  "lab_holding key = (lab_world 4096)\<lparr>mem := key_written lab_page key (\<lambda>a. 0)\<rparr>"

lemma lab_page_ok: "page_ok 12 lab_page"
  by (simp add: page_ok_def lab_page_def)

lemma corrupted_key_is_refused_witness:
  "\<exists>r. as_bytes (detect (strict_build True)) lab_page
        ((lab_holding (replicate 32 7))\<lparr>mem := (mem (lab_holding (replicate 32 7)))
           (unat (pg_ptr lab_page) + 33 := mem (lab_holding (replicate 32 7)) (unat (pg_ptr lab_page) + 33) + 1)\<rparr>)
      = Some (if (33 :: nat) < 40 then None else Some (replicate 32 7), r) \<and> clean r"
  by (rule corrupted_key_is_refused [OF _ lab_page_ok])
    (simp_all add: lab_holding_def key_written_holds)

end
