(* ===== verification/Key_Types.thy ===== *)
theory Key_Types
  imports Siv_Kdf
begin

section \<open>Plaintext, Key, and randomness\<close>

text \<open>
  The wrapper types of \<open>src/lib.rs\<close> and the module \<open>random\<close> (feature \<open>rng\<close>).  A \<open>Plaintext\<close> is a
  vector in the byte memory, with the capacity past its length; a \<open>Key\<close> is an array by value.
  The operating system's source of randomness is a parameter: given the buffer it answers with
  an error or success, and with the buffer as it leaves it.
\<close>

record plaintext =
  pt_ptr :: nat
  pt_len :: nat
  pt_capacity :: nat

definition pt_as_slice :: "plaintext \<Rightarrow> memory \<Rightarrow> bytes" where
  "pt_as_slice pt m = read_slice (pt_ptr pt) (pt_len pt) m"

definition pt_is_empty :: "plaintext \<Rightarrow> bool" where
  "pt_is_empty pt \<longleftrightarrow> pt_len pt = 0"

text \<open>Every \<open>PartialEq\<close> impl compares in constant time with the other's bytes.\<close>

definition pt_eq :: "plaintext \<Rightarrow> bytes \<Rightarrow> memory \<Rightarrow> bool" where
  "pt_eq pt other m \<longleftrightarrow> ct_eq (pt_as_slice pt m) other"

definition pt_drop :: "plaintext \<Rightarrow> memory \<Rightarrow> memory option" where
  "pt_drop pt m =
     do {
       m \<leftarrow> zeroize_raw 64 8 (pt_ptr pt) (pt_len pt) m;
       let len = pt_len pt;
       let cap = pt_capacity pt;
       (if len < cap then zeroize_raw 64 8 (pt_ptr pt + len) (cap - len) m else Some m)
     }"

datatype key = Key bytes

fun key_as_bytes :: "key \<Rightarrow> bytes" where
  "key_as_bytes (Key bs) = bs"

definition key_from_bytes :: "bytes \<Rightarrow> key" where
  "key_from_bytes bs = Key bs"

definition key_eq :: "key \<Rightarrow> key \<Rightarrow> bool" where
  "key_eq a b \<longleftrightarrow> ct_eq (key_as_bytes a) (key_as_bytes b)"

text \<open>\<open>Zeroize for Key\<close>, which \<open>Drop\<close> calls: the array as it is left.\<close>

definition key_zeroize :: "key \<Rightarrow> key" where
  "key_zeroize k = Key (wiped (key_as_bytes k))"

subsection \<open>Randomness\<close>

type_synonym ('e, 's) entropy = "bytes \<Rightarrow> 's \<Rightarrow> ('e + unit) \<times> bytes \<times> 's"

definition fill_from :: "bytes \<Rightarrow> ('e, 's) entropy \<Rightarrow> 's \<Rightarrow> ('e + unit) \<times> bytes \<times> 's" where
  "fill_from dest source s =
     (case source dest s of
        (Inr _, dest, s) \<Rightarrow> (Inr (), dest, s)
      | (Inl e, dest, s) \<Rightarrow> (Inl e, wiped dest, s))"

text \<open>The local key is dropped, and so wiped, when \<open>?\<close> returns the error.\<close>

definition generate_key :: "('e, 's) entropy \<Rightarrow> 's \<Rightarrow> ('e + key) \<times> bytes list \<times> 's" where
  "generate_key source s =
     (case fill_from (key_as_bytes (key_from_bytes (replicate KEY_LEN 0))) source s of
        (Inr _, dest, s) \<Rightarrow> (Inr (Key dest), [], s)
      | (Inl e, dest, s) \<Rightarrow> (Inl e, [key_as_bytes (key_zeroize (Key dest))], s))"

definition generate_nonce :: "('e, 's) entropy \<Rightarrow> 's \<Rightarrow> ('e + bytes) \<times> bytes list \<times> 's" where
  "generate_nonce source s =
     (case fill_from (replicate NONCE_LEN 0) source s of
        (Inr _, nonce, s) \<Rightarrow> (Inr nonce, [], s)
      | (Inl e, nonce, s) \<Rightarrow> (Inl e, [nonce], s))"

subsection \<open>Equality is equality of the bytes\<close>

lemma pt_eq_iff [simp]: "pt_eq pt other m \<longleftrightarrow> pt_as_slice pt m = other"
  by (simp add: pt_eq_def)

lemma key_eq_iff [simp]: "key_eq a b \<longleftrightarrow> a = b"
  by (cases a; cases b) (simp add: key_eq_def)

subsection \<open>Properties\<close>

text \<open>Dropping a plaintext makes every byte of its allocation zero, the capacity beyond the
  length included, and touches no other byte, wherever the allocation starts.\<close>

theorem plaintext_drop_wipes_allocation:
  assumes "pt_len pt \<le> pt_capacity pt" and "pt_ptr pt + pt_capacity pt \<le> 2 ^ 64"
  shows "\<exists>m'. pt_drop pt m = Some m'
    \<and> (\<forall>a. m' a = (if pt_ptr pt \<le> a \<and> a < pt_ptr pt + pt_capacity pt then 0 else m a))"
  using assms by (auto simp: pt_drop_def zeroize_raw_ok zeroed_def Let_def)

lemma plaintext_drop_wipes_allocation_witness:
  "\<exists>m'. pt_drop \<lparr>pt_ptr = 5003, pt_len = 100, pt_capacity = 128\<rparr> (\<lambda>a. 9) = Some m'
    \<and> (\<forall>a. m' a = (if pt_ptr \<lparr>pt_ptr = 5003, pt_len = 100, pt_capacity = 128\<rparr> \<le> a
          \<and> a < pt_ptr \<lparr>pt_ptr = 5003, pt_len = 100, pt_capacity = 128\<rparr>
                + pt_capacity \<lparr>pt_ptr = 5003, pt_len = 100, pt_capacity = 128\<rparr> then 0 else 9))"
  by (rule plaintext_drop_wipes_allocation) simp_all

text \<open>A generated key is exactly what the source wrote on success; when the source fails,
  whatever it left in the buffer is wiped, no key is returned, and nothing else than zeros stays
  in the frame.\<close>

theorem failed_entropy_yields_no_key:
  "case source (replicate 32 0) s of
     (Inr _, bs, s') \<Rightarrow> generate_key source s = (Inr (Key bs), [], s')
   | (Inl e, bs, s') \<Rightarrow> \<exists>res. generate_key source s = (Inl e, res, s') \<and> clean res"
  by (auto simp: generate_key_def fill_from_def key_from_bytes_def key_zeroize_def KEY_LEN_def
      split: prod.split sum.split)

end
