(* ===== verification/Blake3_Sse.thy ===== *)
theory Blake3_Sse
  imports Simd_Lanes Blake3_Compress
begin

section \<open>The SSE2 and SSE4.1 compression of BLAKE3\<close>

text \<open>
  \<open>compress_in_place\<close> and \<open>compress_xof\<close> of \<open>blake3/src/rust_sse2.rs\<close> and
  \<open>blake3/src/rust_sse41.rs\<close>, which differ in one operation only: the 16-bit blend, an intrinsic of
  SSE4.1 that the SSE2 file builds from masks.  The state is four rows of four lanes; each is
  shown equal to \<open>portable.rs\<close>.
\<close>

type_synonym rows = "vec \<times> vec \<times> vec \<times> vec"

subsection \<open>Intrinsics of these files\<close>

text \<open>\<open>_mm_loadu_si128\<close> of an array of words, and of bytes.\<close>

definition loadu_words :: "nat \<Rightarrow> u32 list \<Rightarrow> vec" where
  "loadu_words i ws = subslice i (i + 4) ws"

definition loadu :: "nat \<Rightarrow> bytes \<Rightarrow> vec" where
  "loadu off bs = le_words 4 (drop off bs)"

text \<open>\<open>_mm_shuffle_epi32(a, _MM_SHUFFLE!(z, y, x, w))\<close>, and \<open>shuffle2!\<close>, which is \<open>_mm_shuffle_ps\<close>.\<close>

definition shuffle_epi32 :: "vec \<Rightarrow> nat \<Rightarrow> nat \<Rightarrow> nat \<Rightarrow> nat \<Rightarrow> vec" where
  "shuffle_epi32 a z y x w = [a ! w, a ! x, a ! y, a ! z]"

definition shuffle2 :: "vec \<Rightarrow> vec \<Rightarrow> nat \<Rightarrow> nat \<Rightarrow> nat \<Rightarrow> nat \<Rightarrow> vec" where
  "shuffle2 a b z y x w = [a ! w, a ! x, b ! y, b ! z]"

definition vand :: "vec \<Rightarrow> vec \<Rightarrow> vec" where "vand u v = map2 (AND) u v"
definition vandnot :: "vec \<Rightarrow> vec \<Rightarrow> vec" where "vandnot u v = map2 (\<lambda>x y. NOT x AND y) u v"

text \<open>The same register as eight lanes of 16 bits.\<close>

definition lanes16 :: "vec \<Rightarrow> 16 word list" where
  "lanes16 v = concat (map (\<lambda>w. [ucast w, ucast (drop_bit 16 w)]) v)"

fun of_lanes16 :: "16 word list \<Rightarrow> vec" where
  "of_lanes16 (lo # hi # rest) = (ucast lo OR push_bit 16 (ucast hi)) # of_lanes16 rest"
| "of_lanes16 _ = []"

definition set_epi16 :: "16 word list \<Rightarrow> vec" where
  "set_epi16 es = of_lanes16 (rev es)"

definition set1_epi16 :: "16 word \<Rightarrow> vec" where
  "set1_epi16 x = of_lanes16 (replicate 8 x)"

definition cmpeq_epi16 :: "vec \<Rightarrow> vec \<Rightarrow> vec" where
  "cmpeq_epi16 a b = of_lanes16 (map2 (\<lambda>x y. if x = y then - 1 else 0) (lanes16 a) (lanes16 b))"

text \<open>\<open>_mm_blend_epi16\<close> (SSE4.1).\<close>

definition mm_blend_epi16 :: "vec \<Rightarrow> vec \<Rightarrow> 16 word \<Rightarrow> vec" where
  "mm_blend_epi16 a b imm8 =
     of_lanes16 (map (\<lambda>i. if bit imm8 i then lanes16 b ! i else lanes16 a ! i) [0..<8])"

subsection \<open>The functions\<close>

text \<open>\<open>rot16\<close>, \<open>rot12\<close>, \<open>rot8\<close> and \<open>rot7\<close>.\<close>

definition vrotr :: "nat \<Rightarrow> vec \<Rightarrow> vec" where
  "vrotr n a = vor (vsrli n a) (vslli (32 - n) a)"

text \<open>The rotations of a file, by their amount: a parameter, for \<open>wasm32_simd.rs\<close> shuffles bytes.\<close>

type_synonym rot_fn = "nat \<Rightarrow> vec \<Rightarrow> vec"

definition g1 :: "rot_fn \<Rightarrow> rows \<Rightarrow> vec \<Rightarrow> rows" where
  "g1 rot rows m =
     (case rows of (row0, row1, row2, row3) \<Rightarrow>
        let row0 = vadd (vadd row0 m) row1;
            row3 = vxor row3 row0;
            row3 = rot 16 row3;
            row2 = vadd row2 row3;
            row1 = vxor row1 row2;
            row1 = rot 12 row1
        in (row0, row1, row2, row3))"

definition g2 :: "rot_fn \<Rightarrow> rows \<Rightarrow> vec \<Rightarrow> rows" where
  "g2 rot rows m =
     (case rows of (row0, row1, row2, row3) \<Rightarrow>
        let row0 = vadd (vadd row0 m) row1;
            row3 = vxor row3 row0;
            row3 = rot 8 row3;
            row2 = vadd row2 row3;
            row1 = vxor row1 row2;
            row1 = rot 7 row1
        in (row0, row1, row2, row3))"

definition diagonalize :: "rows \<Rightarrow> rows" where
  "diagonalize rows =
     (case rows of (row0, row1, row2, row3) \<Rightarrow>
        (shuffle_epi32 row0 2 1 0 3, row1, shuffle_epi32 row2 0 3 2 1, shuffle_epi32 row3 1 0 3 2))"

definition undiagonalize :: "rows \<Rightarrow> rows" where
  "undiagonalize rows =
     (case rows of (row0, row1, row2, row3) \<Rightarrow>
        (shuffle_epi32 row0 0 3 2 1, row1, shuffle_epi32 row2 2 1 0 3, shuffle_epi32 row3 1 0 3 2))"

definition blend_epi16 :: "vec \<Rightarrow> vec \<Rightarrow> 16 word \<Rightarrow> vec" where
  "blend_epi16 a b imm8 =
     (let bits = set_epi16 [0x80, 0x40, 0x20, 0x10, 0x08, 0x04, 0x02, 0x01];
          mask = set1_epi16 imm8;
          mask = vand mask bits;
          mask = cmpeq_epi16 mask bits
      in vor (vand mask b) (vandnot mask a))"

definition first_round :: "rot_fn \<Rightarrow> rows \<times> rows \<Rightarrow> rows \<times> rows" where
  "first_round rot st =
     (case st of (rows, m0, m1, m2, m3) \<Rightarrow>
        let t0 = shuffle2 m0 m1 2 0 2 0;
            rows = g1 rot rows t0;
            t1 = shuffle2 m0 m1 3 1 3 1;
            rows = g2 rot rows t1;
            rows = diagonalize rows;
            t2 = shuffle2 m2 m3 2 0 2 0;
            t2 = shuffle_epi32 t2 2 1 0 3;
            rows = g1 rot rows t2;
            t3 = shuffle2 m2 m3 3 1 3 1;
            t3 = shuffle_epi32 t3 2 1 0 3;
            rows = g2 rot rows t3;
            rows = undiagonalize rows
        in (rows, t0, t1, t2, t3))"

text \<open>The rounds 2 to 7 have the same text; the blend is the parameter.\<close>

definition later_round :: "rot_fn \<Rightarrow> (vec \<Rightarrow> vec \<Rightarrow> 16 word \<Rightarrow> vec) \<Rightarrow> rows \<times> rows \<Rightarrow> rows \<times> rows" where
  "later_round rot blend st =
     (case st of (rows, m0, m1, m2, m3) \<Rightarrow>
        let t0 = shuffle2 m0 m1 3 1 1 2;
            t0 = shuffle_epi32 t0 0 3 2 1;
            rows = g1 rot rows t0;
            t1 = shuffle2 m2 m3 3 3 2 2;
            tt = shuffle_epi32 m0 0 0 3 3;
            t1 = blend tt t1 0xCC;
            rows = g2 rot rows t1;
            rows = diagonalize rows;
            t2 = unpacklo_epi64 m3 m1;
            tt = blend t2 m2 0xC0;
            t2 = shuffle_epi32 tt 1 3 2 0;
            rows = g1 rot rows t2;
            t3 = unpackhi_epi32 m1 m3;
            tt = unpacklo_epi32 m2 t3;
            t3 = shuffle_epi32 tt 0 1 3 2;
            rows = g2 rot rows t3;
            rows = undiagonalize rows
        in (rows, t0, t1, t2, t3))"

definition sse_compress_pre ::
  "rot_fn \<Rightarrow> (vec \<Rightarrow> vec \<Rightarrow> 16 word \<Rightarrow> vec) \<Rightarrow> cv_words \<Rightarrow> bytes \<Rightarrow> u8 \<Rightarrow> u64 \<Rightarrow> u8 \<Rightarrow> rows"
where
  "sse_compress_pre rot blend cv block block_len counter flags =
     (let row0 = loadu_words 0 cv;
          row1 = loadu_words 4 cv;
          row2 = [IV ! 0, IV ! 1, IV ! 2, IV ! 3];
          row3 = [counter_low counter, counter_high counter, ucast block_len, ucast flags];
          m0 = loadu 0 block;
          m1 = loadu 16 block;
          m2 = loadu 32 block;
          m3 = loadu 48 block;
          st = first_round rot ((row0, row1, row2, row3), m0, m1, m2, m3);
          st = later_round rot blend st;
          st = later_round rot blend st;
          st = later_round rot blend st;
          st = later_round rot blend st;
          st = later_round rot blend st;
          st = later_round rot blend st
      in fst st)"

definition sse_compress_in_place ::
  "rot_fn \<Rightarrow> (vec \<Rightarrow> vec \<Rightarrow> 16 word \<Rightarrow> vec) \<Rightarrow> cv_words \<Rightarrow> bytes \<Rightarrow> u8 \<Rightarrow> u64 \<Rightarrow> u8 \<Rightarrow> cv_words"
where
  "sse_compress_in_place rot blend cv block block_len counter flags =
     (case sse_compress_pre rot blend cv block block_len counter flags of
        (row0, row1, row2, row3) \<Rightarrow> vxor row0 row2 @ vxor row1 row3)"

definition sse_compress_xof ::
  "rot_fn \<Rightarrow> (vec \<Rightarrow> vec \<Rightarrow> 16 word \<Rightarrow> vec) \<Rightarrow> cv_words \<Rightarrow> bytes \<Rightarrow> u8 \<Rightarrow> u64 \<Rightarrow> u8 \<Rightarrow> bytes"
where
  "sse_compress_xof rot blend cv block block_len counter flags =
     (case sse_compress_pre rot blend cv block block_len counter flags of
        (row0, row1, row2, row3) \<Rightarrow>
          let row0 = vxor row0 row2;
              row1 = vxor row1 row3;
              row2 = vxor row2 (loadu_words 0 cv);
              row3 = vxor row3 (loadu_words 4 cv)
          in vstore row0 @ vstore row1 @ vstore row2 @ vstore row3)"

text \<open>The two files.\<close>

definition sse2_compress_in_place :: "cv_words \<Rightarrow> bytes \<Rightarrow> u8 \<Rightarrow> u64 \<Rightarrow> u8 \<Rightarrow> cv_words" where
  "sse2_compress_in_place = sse_compress_in_place vrotr blend_epi16"

definition sse2_compress_xof :: "cv_words \<Rightarrow> bytes \<Rightarrow> u8 \<Rightarrow> u64 \<Rightarrow> u8 \<Rightarrow> bytes" where
  "sse2_compress_xof = sse_compress_xof vrotr blend_epi16"

definition sse41_compress_pre :: "cv_words \<Rightarrow> bytes \<Rightarrow> u8 \<Rightarrow> u64 \<Rightarrow> u8 \<Rightarrow> rows" where
  "sse41_compress_pre = sse_compress_pre vrotr mm_blend_epi16"

definition sse41_compress_in_place :: "cv_words \<Rightarrow> bytes \<Rightarrow> u8 \<Rightarrow> u64 \<Rightarrow> u8 \<Rightarrow> cv_words" where
  "sse41_compress_in_place = sse_compress_in_place vrotr mm_blend_epi16"

definition sse41_compress_xof :: "cv_words \<Rightarrow> bytes \<Rightarrow> u8 \<Rightarrow> u64 \<Rightarrow> u8 \<Rightarrow> bytes" where
  "sse41_compress_xof = sse_compress_xof vrotr mm_blend_epi16"

subsection \<open>Both blends select 32-bit lanes\<close>

lemma join_halves: "(ucast (ucast (w :: u32) :: 16 word) OR push_bit 16 (ucast (ucast (drop_bit 16 w) :: 16 word)) :: u32) = w"
  by (rule bit_word_eqI) (auto simp: bit_simps)

definition blend_ok :: "(vec \<Rightarrow> vec \<Rightarrow> 16 word \<Rightarrow> vec) \<Rightarrow> bool" where
  "blend_ok blend \<longleftrightarrow> (\<forall>a b c d a' b' c' d'.
     blend [a, b, c, d] [a', b', c', d'] 0xCC = [a, b', c, d']
     \<and> blend [a, b, c, d] [a', b', c', d'] 0xC0 = [a, b, c, d'])"

lemma mm_blend_ok: "blend_ok mm_blend_epi16"
proof -
  have u: "[0..<8] = [0, 1, 2, 3, 4, 5, 6, 7]" by (simp add: upt_rec)
  show ?thesis
    by (simp add: blend_ok_def mm_blend_epi16_def lanes16_def u join_halves)
qed

lemma sse2_blend_ok: "blend_ok blend_epi16"
proof -
  have CC: "cmpeq_epi16 (vand (set1_epi16 0xCC) (set_epi16 [0x80, 0x40, 0x20, 0x10, 0x08, 0x04, 0x02, 0x01]))
      (set_epi16 [0x80, 0x40, 0x20, 0x10, 0x08, 0x04, 0x02, 0x01]) = [0, - 1, 0, - 1]"
    by code_simp
  have C0: "cmpeq_epi16 (vand (set1_epi16 0xC0) (set_epi16 [0x80, 0x40, 0x20, 0x10, 0x08, 0x04, 0x02, 0x01]))
      (set_epi16 [0x80, 0x40, 0x20, 0x10, 0x08, 0x04, 0x02, 0x01]) = [0, 0, 0, - 1]"
    by code_simp
  show ?thesis
    by (simp add: blend_ok_def blend_epi16_def CC C0 Let_def) (simp add: vand_def vandnot_def vor_def)
qed

subsection \<open>The mixing function, word by word\<close>

definition mixA :: "u32 \<Rightarrow> u32 \<Rightarrow> u32 \<Rightarrow> u32 \<Rightarrow> u32 \<Rightarrow> nat \<Rightarrow> nat \<Rightarrow> u32" where
  "mixA a b c d m r r' = a + b + m"
definition mixD :: "u32 \<Rightarrow> u32 \<Rightarrow> u32 \<Rightarrow> u32 \<Rightarrow> u32 \<Rightarrow> nat \<Rightarrow> nat \<Rightarrow> u32" where
  "mixD a b c d m r r' = rotate_right (d XOR mixA a b c d m r r') r"
definition mixC :: "u32 \<Rightarrow> u32 \<Rightarrow> u32 \<Rightarrow> u32 \<Rightarrow> u32 \<Rightarrow> nat \<Rightarrow> nat \<Rightarrow> u32" where
  "mixC a b c d m r r' = c + mixD a b c d m r r'"
definition mixB :: "u32 \<Rightarrow> u32 \<Rightarrow> u32 \<Rightarrow> u32 \<Rightarrow> u32 \<Rightarrow> nat \<Rightarrow> nat \<Rightarrow> u32" where
  "mixB a b c d m r r' = rotate_right (b XOR mixC a b c d m r r') r'"

text \<open>\<open>G\<close> is two of these halves; \<open>f\<close> is the component of the second.\<close>

definition mix2 :: "(u32 \<Rightarrow> u32 \<Rightarrow> u32 \<Rightarrow> u32 \<Rightarrow> u32 \<Rightarrow> nat \<Rightarrow> nat \<Rightarrow> u32) \<Rightarrow> u32 \<Rightarrow> u32 \<Rightarrow> u32 \<Rightarrow> u32 \<Rightarrow> u32 \<Rightarrow> u32 \<Rightarrow> u32"
where
  "mix2 f a b c d x y =
     f (mixA a b c d x 16 12) (mixB a b c d x 16 12) (mixC a b c d x 16 12) (mixD a b c d x 16 12) y 8 7"

lemma g_b3_mix2:
  assumes "a < length s" "b < length s" "c < length s" "d < length s" "distinct [a, b, c, d]"
  shows "g_b3 s a b c d x y = s[a := mix2 mixA (s ! a) (s ! b) (s ! c) (s ! d) x y,
    b := mix2 mixB (s ! a) (s ! b) (s ! c) (s ! d) x y, c := mix2 mixC (s ! a) (s ! b) (s ! c) (s ! d) x y,
    d := mix2 mixD (s ! a) (s ! b) (s ! c) (s ! d) x y]"
proof -
  have ne: "a \<noteq> b" "b \<noteq> a" "a \<noteq> c" "c \<noteq> a" "a \<noteq> d" "d \<noteq> a" "b \<noteq> c" "c \<noteq> b" "b \<noteq> d" "d \<noteq> b" "c \<noteq> d" "d \<noteq> c"
    using assms(5) by auto
  have "g_b3 s a b c d x y ! i = s[a := mix2 mixA (s ! a) (s ! b) (s ! c) (s ! d) x y,
    b := mix2 mixB (s ! a) (s ! b) (s ! c) (s ! d) x y, c := mix2 mixC (s ! a) (s ! b) (s ! c) (s ! d) x y,
    d := mix2 mixD (s ! a) (s ! b) (s ! c) (s ! d) x y] ! i" if "i < length s" for i
  proof -
    consider "i = a" | "i = b" | "i = c" | "i = d" | "a \<noteq> i" "b \<noteq> i" "c \<noteq> i" "d \<noteq> i" by auto
    then show ?thesis
      by cases (simp_all only: g_b3_def Let_def mix2_def mixA_def mixB_def mixC_def mixD_def
          nth_list_update_eq nth_list_update_neq length_list_update assms(1-4) ne not_False_eq_True)
  qed
  then show ?thesis by (intro nth_equalityI) simp_all
qed

text \<open>The state after one round, from its sixteen words.\<close>

definition round_words :: "u32 list \<Rightarrow> u32 list \<Rightarrow> u32 list" where
  "round_words s m =
     (let a = \<lambda>i. mix2 mixA (s ! i) (s ! (i + 4)) (s ! (i + 8)) (s ! (i + 12)) (m ! (2 * i)) (m ! (2 * i + 1));
          b = \<lambda>i. mix2 mixB (s ! i) (s ! (i + 4)) (s ! (i + 8)) (s ! (i + 12)) (m ! (2 * i)) (m ! (2 * i + 1));
          c = \<lambda>i. mix2 mixC (s ! i) (s ! (i + 4)) (s ! (i + 8)) (s ! (i + 12)) (m ! (2 * i)) (m ! (2 * i + 1));
          d = \<lambda>i. mix2 mixD (s ! i) (s ! (i + 4)) (s ! (i + 8)) (s ! (i + 12)) (m ! (2 * i)) (m ! (2 * i + 1));
          g = \<lambda>f i. mix2 f (a i) (b ((i + 1) mod 4)) (c ((i + 2) mod 4)) (d ((i + 3) mod 4)) (m ! (2 * i + 8)) (m ! (2 * i + 9))
      in [g mixA 0, g mixA 1, g mixA 2, g mixA 3, g mixB 3, g mixB 0, g mixB 1, g mixB 2,
          g mixC 2, g mixC 3, g mixC 0, g mixC 1, g mixD 1, g mixD 2, g mixD 3, g mixD 0])"

lemma round_b3_words:
  assumes "length s = 16"
  shows "round_b3 s mw r = round_words s (map ((!) mw) (map ((!) (MSG_SCHEDULE ! r)) [0..<16]))"
proof -
  have "round_b3 [s0, s1, s2, s3, s4, s5, s6, s7, s8, s9, s10, s11, s12, s13, s14, s15] mw r
      = round_words [s0, s1, s2, s3, s4, s5, s6, s7, s8, s9, s10, s11, s12, s13, s14, s15]
          (map ((!) mw) (map ((!) (MSG_SCHEDULE ! r)) [0..<16]))" for s0 s1 s2 s3 s4 s5 s6 s7 s8 s9 s10 s11 s12 s13 s14 s15
    by (simp add: round_b3_def round_words_def g_b3_mix2 upt_16 Let_def)
  then show ?thesis using list_16 [OF assms] by metis
qed

subsection \<open>The rows compute the rounds\<close>

lemma vrotr_lane [simp, len_simps]:
  "length (vrotr n v) = length v"
  "j < length v \<Longrightarrow> n < 32 \<Longrightarrow> 0 < n \<Longrightarrow> vrotr n v ! j = rotate_right (v ! j) n"
  using rotate_right_shifts [of n "32 - n"] by (simp_all add: vrotr_def)

text \<open>The rotations of a file rotate the lanes.\<close>

definition rot_ok :: "nat \<Rightarrow> rot_fn \<Rightarrow> bool" where
  "rot_ok lanes rot \<longleftrightarrow> (\<forall>n \<in> {16, 12, 8, 7}. \<forall>v. length v = lanes \<longrightarrow>
     length (rot n v) = lanes \<and> (\<forall>j < lanes. rot n v ! j = rotate_right (v ! j) n))"

lemma vrotr_ok [simp]: "rot_ok lanes vrotr"
  by (simp add: rot_ok_def)

lemma rot_4:
  assumes "rot_ok 4 rot" "n \<in> {16, 12, 8, 7}"
  shows "rot n [a, b, c, d] = [rotate_right a n, rotate_right b n, rotate_right c n, rotate_right d n]"
proof -
  have "length (rot n [a, b, c, d]) = 4 \<and> (\<forall>j < 4. rot n [a, b, c, d] ! j = rotate_right ([a, b, c, d] ! j) n)"
    using bspec [OF assms(1) [unfolded rot_ok_def] assms(2)] by simp
  then show ?thesis
    using subslice_4 [of 4 0 "rot n [a, b, c, d]"] by (simp add: subslice_def numeral_2_eq_2)
qed

lemma vadd_4: "vadd [a, b, c, d] [a', b', c', d'] = [a + a', b + b', c + c', d + d']"
  by (simp add: vadd_def)

lemma vxor_4: "vxor [a, b, c, d] [a', b', c', d'] = [a XOR a', b XOR b', c XOR c', d XOR d']"
  by (simp add: vxor_def)

lemma g1_words:
  "rot_ok 4 rot \<Longrightarrow> g1 rot ([a0, a1, a2, a3], [b0, b1, b2, b3], [c0, c1, c2, c3], [d0, d1, d2, d3]) [x0, x1, x2, x3] =
     ([mixA a0 b0 c0 d0 x0 16 12, mixA a1 b1 c1 d1 x1 16 12, mixA a2 b2 c2 d2 x2 16 12, mixA a3 b3 c3 d3 x3 16 12],
      [mixB a0 b0 c0 d0 x0 16 12, mixB a1 b1 c1 d1 x1 16 12, mixB a2 b2 c2 d2 x2 16 12, mixB a3 b3 c3 d3 x3 16 12],
      [mixC a0 b0 c0 d0 x0 16 12, mixC a1 b1 c1 d1 x1 16 12, mixC a2 b2 c2 d2 x2 16 12, mixC a3 b3 c3 d3 x3 16 12],
      [mixD a0 b0 c0 d0 x0 16 12, mixD a1 b1 c1 d1 x1 16 12, mixD a2 b2 c2 d2 x2 16 12, mixD a3 b3 c3 d3 x3 16 12])"
  by (simp add: g1_def vadd_4 vxor_4 rot_4 mixA_def mixB_def mixC_def mixD_def Let_def ac_simps)

lemma g2_words:
  "rot_ok 4 rot \<Longrightarrow> g2 rot ([a0, a1, a2, a3], [b0, b1, b2, b3], [c0, c1, c2, c3], [d0, d1, d2, d3]) [x0, x1, x2, x3] =
     ([mixA a0 b0 c0 d0 x0 8 7, mixA a1 b1 c1 d1 x1 8 7, mixA a2 b2 c2 d2 x2 8 7, mixA a3 b3 c3 d3 x3 8 7],
      [mixB a0 b0 c0 d0 x0 8 7, mixB a1 b1 c1 d1 x1 8 7, mixB a2 b2 c2 d2 x2 8 7, mixB a3 b3 c3 d3 x3 8 7],
      [mixC a0 b0 c0 d0 x0 8 7, mixC a1 b1 c1 d1 x1 8 7, mixC a2 b2 c2 d2 x2 8 7, mixC a3 b3 c3 d3 x3 8 7],
      [mixD a0 b0 c0 d0 x0 8 7, mixD a1 b1 c1 d1 x1 8 7, mixD a2 b2 c2 d2 x2 8 7, mixD a3 b3 c3 d3 x3 8 7])"
  by (simp add: g2_def vadd_4 vxor_4 rot_4 mixA_def mixB_def mixC_def mixD_def Let_def ac_simps)

text \<open>The state in rows, and the message words in the order in which the rows consume them.\<close>

definition state_rows :: "u32 list \<Rightarrow> rows" where
  "state_rows s = ([s ! 0, s ! 1, s ! 2, s ! 3], [s ! 4, s ! 5, s ! 6, s ! 7],
     [s ! 8, s ! 9, s ! 10, s ! 11], [s ! 12, s ! 13, s ! 14, s ! 15])"

definition msg_rows :: "u32 list \<Rightarrow> rows" where
  "msg_rows m = ([m ! 0, m ! 2, m ! 4, m ! 6], [m ! 1, m ! 3, m ! 5, m ! 7],
     [m ! 14, m ! 8, m ! 10, m ! 12], [m ! 15, m ! 9, m ! 11, m ! 13])"

definition apply_rows :: "rot_fn \<Rightarrow> rows \<Rightarrow> rows \<Rightarrow> rows" where
  "apply_rows rot rows ms =
     (case ms of (t0, t1, t2, t3) \<Rightarrow> undiagonalize (g2 rot (g1 rot (diagonalize (g2 rot (g1 rot rows t0) t1)) t2) t3))"

lemma g12_words:
  "rot_ok 4 rot \<Longrightarrow> g2 rot (g1 rot ([a0, a1, a2, a3], [b0, b1, b2, b3], [c0, c1, c2, c3], [d0, d1, d2, d3]) [x0, x1, x2, x3]) [y0, y1, y2, y3] =
     ([mix2 mixA a0 b0 c0 d0 x0 y0, mix2 mixA a1 b1 c1 d1 x1 y1, mix2 mixA a2 b2 c2 d2 x2 y2, mix2 mixA a3 b3 c3 d3 x3 y3],
      [mix2 mixB a0 b0 c0 d0 x0 y0, mix2 mixB a1 b1 c1 d1 x1 y1, mix2 mixB a2 b2 c2 d2 x2 y2, mix2 mixB a3 b3 c3 d3 x3 y3],
      [mix2 mixC a0 b0 c0 d0 x0 y0, mix2 mixC a1 b1 c1 d1 x1 y1, mix2 mixC a2 b2 c2 d2 x2 y2, mix2 mixC a3 b3 c3 d3 x3 y3],
      [mix2 mixD a0 b0 c0 d0 x0 y0, mix2 mixD a1 b1 c1 d1 x1 y1, mix2 mixD a2 b2 c2 d2 x2 y2, mix2 mixD a3 b3 c3 d3 x3 y3])"
  by (simp only: g1_words g2_words mix2_def)

lemma apply_rows_words:
  assumes "rot_ok 4 rot" "length s = 16" "length m = 16"
  shows "apply_rows rot (state_rows s) (msg_rows m) = state_rows (round_words s m)"
proof -
  have "apply_rows rot (state_rows [s0, s1, s2, s3, s4, s5, s6, s7, s8, s9, s10, s11, s12, s13, s14, s15]) (msg_rows [m0, m1, m2, m3, m4, m5, m6, m7, m8, m9, m10, m11, m12, m13, m14, m15])
      = state_rows (round_words [s0, s1, s2, s3, s4, s5, s6, s7, s8, s9, s10, s11, s12, s13, s14, s15] [m0, m1, m2, m3, m4, m5, m6, m7, m8, m9, m10, m11, m12, m13, m14, m15])"
    for s0 s1 s2 s3 s4 s5 s6 s7 s8 s9 s10 s11 s12 s13 s14 s15
      m0 m1 m2 m3 m4 m5 m6 m7 m8 m9 m10 m11 m12 m13 m14 m15
    by (simp add: apply_rows_def state_rows_def msg_rows_def g12_words [OF assms(1)] diagonalize_def undiagonalize_def
        shuffle_epi32_def round_words_def Let_def)
  then show ?thesis using list_16 [OF assms(2)] list_16 [OF assms(3)] by metis
qed

text \<open>The words of round \<open>r\<close>.\<close>

definition scheduled :: "u32 list \<Rightarrow> nat \<Rightarrow> u32 list" where
  "scheduled mw r = map ((!) mw) (map ((!) (MSG_SCHEDULE ! r)) [0..<16])"

lemma round_rows:
  "rot_ok 4 rot \<Longrightarrow> length s = 16 \<Longrightarrow> apply_rows rot (state_rows s) (msg_rows (scheduled mw r)) = state_rows (round_b3 s mw r)"
  by (simp add: apply_rows_words round_b3_words scheduled_def)

lemma first_round_eq:
  "first_round rot (rows, [mw ! 0, mw ! 1, mw ! 2, mw ! 3], [mw ! 4, mw ! 5, mw ! 6, mw ! 7],
      [mw ! 8, mw ! 9, mw ! 10, mw ! 11], [mw ! 12, mw ! 13, mw ! 14, mw ! 15])
    = (apply_rows rot rows (msg_rows (scheduled mw 0)), msg_rows (scheduled mw 0))"
  by (simp add: first_round_def apply_rows_def msg_rows_def scheduled_def MSG_SCHEDULE_def shuffle2_def
      shuffle_epi32_def upt_16 Let_def)

lemma later_round_eq:
  assumes "blend_ok blend" "r \<in> {0, 1, 2, 3, 4, 5}"
  shows "later_round rot blend (rows, msg_rows (scheduled mw r))
    = (apply_rows rot rows (msg_rows (scheduled mw (Suc r))), msg_rows (scheduled mw (Suc r)))"
proof -
  have b: "blend [a, b, c, d] [a', b', c', d'] 0xCC = [a, b', c, d']"
    "blend [a, b, c, d] [a', b', c', d'] 0xC0 = [a, b, c, d']" for a b c d a' b' c' d'
    using assms(1) by (simp_all add: blend_ok_def)
  show ?thesis
    using assms(2)
    by (auto simp: later_round_def apply_rows_def msg_rows_def scheduled_def MSG_SCHEDULE_def shuffle2_def
        shuffle_epi32_def unpacklo_epi64_def unpackhi_epi32_def unpacklo_epi32_def upt_16 b Let_def)
qed

subsection \<open>The compression functions equal the portable ones\<close>

lemma loadu_words_4: "i + 4 \<le> length ws \<Longrightarrow> loadu_words i ws = [ws ! i, ws ! (i + 1), ws ! (i + 2), ws ! (i + 3)]"
  unfolding loadu_words_def by (rule subslice_4) simp_all

lemma nth_le_words: "i < n \<Longrightarrow> le_words n bs ! i = le_word (take 4 (drop (4 * i) bs))"
  by (simp add: le_words_def)

lemma loadu_block: "k < 4 \<Longrightarrow> loadu (16 * k) block = [le_words 16 block ! (4 * k), le_words 16 block ! (4 * k + 1),
    le_words 16 block ! (4 * k + 2), le_words 16 block ! (4 * k + 3)]"
  by (simp add: loadu_def nth_le_words list_eq_iff_nth_eq)
    (simp add: nth_le_words less_Suc_eq numeral_eq_Suc algebra_simps)

lemma sse_compress_pre_eq:
  assumes "blend_ok blend" "length cv = 8" "rot_ok 4 rot"
  shows "sse_compress_pre rot blend cv block bl c f = state_rows (compress_pre cv block bl c f)"
proof -
  define mw where "mw = le_words 16 block"
  define s0 where "s0 = [cv ! 0, cv ! 1, cv ! 2, cv ! 3, cv ! 4, cv ! 5, cv ! 6, cv ! 7,
    IV ! 0, IV ! 1, IV ! 2, IV ! 3, counter_low c, counter_high c, ucast bl, ucast f]"
  have len: "length s0 = 16" by (simp add: s0_def)
  have rows: "(loadu_words 0 cv, loadu_words 4 cv, [IV ! 0, IV ! 1, IV ! 2, IV ! 3],
      [counter_low c, counter_high c, ucast bl, ucast f]) = state_rows s0"
    using assms(2) by (simp add: state_rows_def s0_def loadu_words_4 numeral_2_eq_2)
  have msg: "loadu 0 block = [mw ! 0, mw ! 1, mw ! 2, mw ! 3]" "loadu 16 block = [mw ! 4, mw ! 5, mw ! 6, mw ! 7]"
    "loadu 32 block = [mw ! 8, mw ! 9, mw ! 10, mw ! 11]" "loadu 48 block = [mw ! 12, mw ! 13, mw ! 14, mw ! 15]"
    using loadu_block [of 0 block] loadu_block [of 1 block] loadu_block [of 2 block] loadu_block [of 3 block]
    by (simp_all add: mw_def numeral_2_eq_2)
  have first: "first_round rot (state_rows s0, loadu 0 block, loadu 16 block, loadu 32 block, loadu 48 block)
      = (state_rows (round_b3 s0 mw 0), msg_rows (scheduled mw 0))"
    by (simp only: msg first_round_eq round_rows [OF assms(3) len])
  have later: "later_round rot blend (state_rows s, msg_rows (scheduled mw r))
      = (state_rows (round_b3 s mw (Suc r)), msg_rows (scheduled mw (Suc r)))"
    if "length s = 16" "r \<in> {0, 1, 2, 3, 4, 5}" for s r
    by (simp only: later_round_eq [OF assms(1) that(2)] round_rows [OF assms(3) that(1)])
  have steps: "later_round rot blend (state_rows s, msg_rows (scheduled mw r))
      = (state_rows (round_b3 s mw r'), msg_rows (scheduled mw r'))"
    if "length s = 16" "(r, r') \<in> {(0, 1), (1, 2), (2, 3), (3, 4), (4, 5), (5, 6)}" for s r r'
  proof -
    have "r' = Suc r" "r \<in> {0, 1, 2, 3, 4, 5}" using that(2) by auto
    then show ?thesis using later [OF that(1), of r] by simp
  qed
  have "sse_compress_pre rot blend cv block bl c f
      = state_rows (round_b3 (round_b3 (round_b3 (round_b3 (round_b3 (round_b3 (round_b3 s0 mw 0) mw 1) mw 2) mw 3) mw 4) mw 5) mw 6)"
    unfolding sse_compress_pre_def Let_def rows first
    by (simp only: steps [of _ 0 1] steps [of _ 1 2] steps [of _ 2 3] steps [of _ 3 4] steps [of _ 4 5] steps [of _ 5 6]
        insert_iff simp_thms length_round len fst_conv)
  also have "\<dots> = state_rows (compress_pre cv block bl c f)"
    by (simp add: compress_pre_def s0_def mw_def words_from_le_bytes_64_def Let_def)
  finally show ?thesis .
qed

lemma sse_compress_in_place_eq:
  assumes "blend_ok blend" "length cv = 8" "rot_ok 4 rot"
  shows "sse_compress_in_place rot blend cv block bl c f = compress_in_place cv block bl c f"
  by (simp add: sse_compress_in_place_def sse_compress_pre_eq [OF assms] state_rows_def compress_in_place_def
      vxor_4 Let_def)

lemma sse_compress_xof_eq:
  assumes "blend_ok blend" "length cv = 8" "rot_ok 4 rot"
  shows "sse_compress_xof rot blend cv block bl c f = compress_xof cv block bl c f"
  using assms(2)
  by (simp add: sse_compress_xof_def sse_compress_pre_eq [OF assms] state_rows_def compress_xof_def
      vxor_4 loadu_words_4 vstore_def le_bytes_from_words_64_def Let_def numeral_2_eq_2)

end
