(* ===== verification/Blake3_Many.thy ===== *)
theory Blake3_Many
  imports Blake3_Sse
begin

section \<open>The transposed hashing of several inputs\<close>

text \<open>
  \<open>hash4\<close>, \<open>hash1\<close> and \<open>hash_many\<close> of \<open>blake3/src/rust_sse2.rs\<close> and \<open>rust_sse41.rs\<close>, and \<open>hash8\<close>
  and \<open>hash_many\<close> of \<open>rust_avx2.rs\<close>: word \<open>i\<close> of the states of four (eight) inputs is one register,
  so a lane is the state of one input.  The round and the loop over the blocks have the same
  text in the three files up to the number of lanes.
\<close>

subsection \<open>The vectorised round\<close>

type_synonym quad = "nat \<times> nat \<times> nat \<times> nat"

definition columns :: "quad list" where
  "columns = [(0, 4, 8, 12), (1, 5, 9, 13), (2, 6, 10, 14), (3, 7, 11, 15)]"

definition diagonals :: "quad list" where
  "diagonals = [(0, 5, 10, 15), (1, 6, 11, 12), (2, 7, 8, 13), (3, 4, 9, 14)]"

text \<open>
  Half of \<open>G\<close> on four columns or diagonals, statement by statement: every line is four
  statements of the code, one per quad.  \<open>ks\<close> are the indices into the schedule.
\<close>

definition vhalf :: "rot_fn \<Rightarrow> nat \<Rightarrow> nat \<Rightarrow> quad list \<Rightarrow> nat list \<Rightarrow> vec list \<Rightarrow> nat \<Rightarrow> vec list \<Rightarrow> vec list" where
  "vhalf rot rot_d rot_b quads ks m r v =
     (let v = fold (\<lambda>((a, b, c, d), k) v. v[a := vadd (v ! a) (m ! (MSG_SCHEDULE ! r ! k))]) (zip quads ks) v;
          v = fold (\<lambda>(a, b, c, d) v. v[a := vadd (v ! a) (v ! b)]) quads v;
          v = fold (\<lambda>(a, b, c, d) v. v[d := vxor (v ! d) (v ! a)]) quads v;
          v = fold (\<lambda>(a, b, c, d) v. v[d := rot rot_d (v ! d)]) quads v;
          v = fold (\<lambda>(a, b, c, d) v. v[c := vadd (v ! c) (v ! d)]) quads v;
          v = fold (\<lambda>(a, b, c, d) v. v[b := vxor (v ! b) (v ! c)]) quads v;
          v = fold (\<lambda>(a, b, c, d) v. v[b := rot rot_b (v ! b)]) quads v
      in v)"

definition vround :: "rot_fn \<Rightarrow> vec list \<Rightarrow> vec list \<Rightarrow> nat \<Rightarrow> vec list" where
  "vround rot v m r =
     (let v = vhalf rot 16 12 columns [0, 2, 4, 6] m r v;
          v = vhalf rot 8 7 columns [1, 3, 5, 7] m r v;
          v = vhalf rot 16 12 diagonals [8, 10, 12, 14] m r v;
          v = vhalf rot 8 7 diagonals [9, 11, 13, 15] m r v
      in v)"

subsection \<open>Transposition and counters\<close>

definition transpose_vecs4 :: "vec list \<Rightarrow> vec list" where
  "transpose_vecs4 vecs =
     (let ab_01 = unpacklo_epi32 (vecs ! 0) (vecs ! 1);
          ab_23 = unpackhi_epi32 (vecs ! 0) (vecs ! 1);
          cd_01 = unpacklo_epi32 (vecs ! 2) (vecs ! 3);
          cd_23 = unpackhi_epi32 (vecs ! 2) (vecs ! 3);
          abcd_0 = unpacklo_epi64 ab_01 cd_01;
          abcd_1 = unpackhi_epi64 ab_01 cd_01;
          abcd_2 = unpacklo_epi64 ab_23 cd_23;
          abcd_3 = unpackhi_epi64 ab_23 cd_23
      in [abcd_0, abcd_1, abcd_2, abcd_3])"

definition transpose_msg_vecs4 :: "bytes list \<Rightarrow> nat \<Rightarrow> vec list" where
  "transpose_msg_vecs4 inputs block_offset =
     (let square = \<lambda>q. map (\<lambda>i. loadu (block_offset + q * 16) (inputs ! i)) [0, 1, 2, 3]
      in transpose_vecs4 (square 0) @ transpose_vecs4 (square 1)
         @ transpose_vecs4 (square 2) @ transpose_vecs4 (square 3))"

definition load_counters :: "nat \<Rightarrow> u64 \<Rightarrow> bool \<Rightarrow> vec \<times> vec" where
  "load_counters degree counter inc =
     (let mask = (if inc then - 1 else 0 :: u64)
      in (map (\<lambda>i. counter_low (counter + (mask AND of_nat i))) [0..<degree],
          map (\<lambda>i. counter_high (counter + (mask AND of_nat i))) [0..<degree]))"

subsection \<open>The loop over the blocks\<close>

text \<open>The body of the loop: "the transposed compression function", which the code inlines.\<close>

definition transposed_compress :: "rot_fn \<Rightarrow> nat \<Rightarrow> vec list \<Rightarrow> vec list \<Rightarrow> vec \<Rightarrow> vec \<Rightarrow> u8 \<Rightarrow> vec list" where
  "transposed_compress rot degree h_vecs msg_vecs lo hi block_flags =
     (let block_len_vec = vset1 degree (of_nat BLOCK_LEN);
          block_flags_vec = vset1 degree (ucast block_flags);
          v = [h_vecs ! 0, h_vecs ! 1, h_vecs ! 2, h_vecs ! 3, h_vecs ! 4, h_vecs ! 5, h_vecs ! 6, h_vecs ! 7,
               vset1 degree (IV ! 0), vset1 degree (IV ! 1), vset1 degree (IV ! 2), vset1 degree (IV ! 3),
               lo, hi, block_len_vec, block_flags_vec];
          v = vround rot v msg_vecs 0;
          v = vround rot v msg_vecs 1;
          v = vround rot v msg_vecs 2;
          v = vround rot v msg_vecs 3;
          v = vround rot v msg_vecs 4;
          v = vround rot v msg_vecs 5;
          v = vround rot v msg_vecs 6
      in [vxor (v ! 0) (v ! 8), vxor (v ! 1) (v ! 9), vxor (v ! 2) (v ! 10), vxor (v ! 3) (v ! 11),
          vxor (v ! 4) (v ! 12), vxor (v ! 5) (v ! 13), vxor (v ! 6) (v ! 14), vxor (v ! 7) (v ! 15)])"

function hash_blocks ::
  "rot_fn \<Rightarrow> nat \<Rightarrow> (nat \<Rightarrow> vec list) \<Rightarrow> nat \<Rightarrow> vec \<Rightarrow> vec \<Rightarrow> u8 \<Rightarrow> u8 \<Rightarrow> nat \<Rightarrow> u8 \<Rightarrow> vec list \<Rightarrow> vec list"
where
  "hash_blocks rot degree msg blocks lo hi flags flags_end block block_flags h_vecs =
     (if block < blocks then
        let block_flags = (if block + 1 = blocks then block_flags OR flags_end else block_flags);
            h_vecs = transposed_compress rot degree h_vecs (msg (block * BLOCK_LEN)) lo hi block_flags
        in hash_blocks rot degree msg blocks lo hi flags flags_end (block + 1) flags h_vecs
      else h_vecs)"
  by pat_completeness auto
termination
  by (relation "measure (\<lambda>(rot, degree, msg, blocks, lo, hi, flags, flags_end, block, block_flags, h_vecs).
        blocks - block)") auto

declare hash_blocks.simps [simp del]

definition hash4 :: "rot_fn \<Rightarrow> bytes list \<Rightarrow> nat \<Rightarrow> cv_words \<Rightarrow> u64 \<Rightarrow> bool \<Rightarrow> u8 \<Rightarrow> u8 \<Rightarrow> u8 \<Rightarrow> bytes" where
  "hash4 rot inputs blocks key counter inc flags flags_start flags_end =
     (let h_vecs = map (\<lambda>i. vset1 4 (key ! i)) [0, 1, 2, 3, 4, 5, 6, 7];
          (lo, hi) = load_counters 4 counter inc;
          h_vecs = hash_blocks rot 4 (transpose_msg_vecs4 inputs) blocks lo hi flags flags_end 0 (flags OR flags_start) h_vecs;
          h_vecs = transpose_vecs4 (take 4 h_vecs) @ transpose_vecs4 (drop 4 h_vecs)
      in vstore (h_vecs ! 0) @ vstore (h_vecs ! 4) @ vstore (h_vecs ! 1) @ vstore (h_vecs ! 5)
         @ vstore (h_vecs ! 2) @ vstore (h_vecs ! 6) @ vstore (h_vecs ! 3) @ vstore (h_vecs ! 7))"

subsection \<open>\<open>hash1\<close> and \<open>hash_many\<close>\<close>

text \<open>\<open>hash1\<close> is that of \<open>portable.rs\<close> over the compression of the file.\<close>

function sse_hash1_loop ::
  "(cv_words \<Rightarrow> bytes \<Rightarrow> u8 \<Rightarrow> u64 \<Rightarrow> u8 \<Rightarrow> cv_words) \<Rightarrow> cv_words \<Rightarrow> u8 \<Rightarrow> bytes \<Rightarrow> u64 \<Rightarrow> u8 \<Rightarrow> u8 \<Rightarrow> cv_words"
where
  "sse_hash1_loop compress cv block_flags xs counter flags flags_end =
     (if BLOCK_LEN \<le> length xs then
        let block_flags = (if length xs = BLOCK_LEN then block_flags OR flags_end else block_flags);
            cv = compress cv (take BLOCK_LEN xs) (of_nat BLOCK_LEN) counter block_flags
        in sse_hash1_loop compress cv flags (drop BLOCK_LEN xs) counter flags flags_end
      else cv)"
  by pat_completeness auto
termination
  by (relation "measure (\<lambda>(compress, cv, block_flags, xs, counter, flags, flags_end). length xs)")
    (auto simp: BLOCK_LEN_def)

declare sse_hash1_loop.simps [simp del]

definition sse_hash1 ::
  "(cv_words \<Rightarrow> bytes \<Rightarrow> u8 \<Rightarrow> u64 \<Rightarrow> u8 \<Rightarrow> cv_words) \<Rightarrow> bytes \<Rightarrow> cv_words \<Rightarrow> u64 \<Rightarrow> u8 \<Rightarrow> u8 \<Rightarrow> u8 \<Rightarrow> bytes"
where
  "sse_hash1 compress inp key counter flags flags_start flags_end =
     words_bytes (sse_hash1_loop compress key (flags OR flags_start) inp counter flags flags_end)"

text \<open>The loop over the remaining inputs, zipped with the whole outputs left.\<close>

fun sse_rest ::
  "(cv_words \<Rightarrow> bytes \<Rightarrow> u8 \<Rightarrow> u64 \<Rightarrow> u8 \<Rightarrow> cv_words) \<Rightarrow> bytes list \<Rightarrow> cv_words \<Rightarrow> u64 \<Rightarrow> bool \<Rightarrow> u8 \<Rightarrow> u8 \<Rightarrow> u8
     \<Rightarrow> bytes \<Rightarrow> bytes"
where
  "sse_rest compress [] key counter inc flags flags_start flags_end out = out"
| "sse_rest compress (inp # inputs) key counter inc flags flags_start flags_end out =
     (if length out < OUT_LEN then out
      else sse_hash1 compress inp key counter flags flags_start flags_end
           @ sse_rest compress inputs key (if inc then counter + 1 else counter) inc
               flags flags_start flags_end (drop OUT_LEN out))"

text \<open>\<open>N\<close> is the constant length of the inputs; \<open>hash4\<close> and the compression are those of the file.\<close>

function sse_hash_many ::
  "(bytes list \<Rightarrow> nat \<Rightarrow> cv_words \<Rightarrow> u64 \<Rightarrow> bool \<Rightarrow> u8 \<Rightarrow> u8 \<Rightarrow> u8 \<Rightarrow> bytes)
     \<Rightarrow> (cv_words \<Rightarrow> bytes \<Rightarrow> u8 \<Rightarrow> u64 \<Rightarrow> u8 \<Rightarrow> cv_words) \<Rightarrow> nat \<Rightarrow> bytes list \<Rightarrow> cv_words \<Rightarrow> u64 \<Rightarrow> bool
     \<Rightarrow> u8 \<Rightarrow> u8 \<Rightarrow> u8 \<Rightarrow> bytes \<Rightarrow> bytes"
where
  "sse_hash_many h4 compress N inputs key counter inc flags flags_start flags_end out =
     (if 4 \<le> length inputs \<and> 4 * OUT_LEN \<le> length out then
        let blocks = N div BLOCK_LEN;
            hashed = h4 (take 4 inputs) blocks key counter inc flags flags_start flags_end;
            counter = (if inc then counter + 4 else counter)
        in hashed @ sse_hash_many h4 compress N (drop 4 inputs) key counter inc flags flags_start flags_end
             (drop (4 * OUT_LEN) out)
      else sse_rest compress inputs key counter inc flags flags_start flags_end out)"
  by pat_completeness auto
termination
  by (relation "measure (\<lambda>(h4, compress, N, inputs, rest). length inputs)") auto

declare sse_hash_many.simps [simp del]

definition sse2_hash_many where
  "sse2_hash_many = sse_hash_many (hash4 vrotr) sse2_compress_in_place"

text \<open>\<open>hash4\<close> and \<open>hash1\<close> of \<open>rust_sse41.rs\<close> have the text of those of \<open>rust_sse2.rs\<close>.\<close>

definition sse41_hash4 where
  "sse41_hash4 = hash4 vrotr"

definition sse41_hash_many where
  "sse41_hash_many = sse_hash_many sse41_hash4 sse41_compress_in_place"

subsection \<open>AVX2: eight inputs\<close>

definition interleave128 :: "vec \<Rightarrow> vec \<Rightarrow> vec \<times> vec" where
  "interleave128 a b = (permute2x128 0x20 a b, permute2x128 0x31 a b)"

definition transpose_vecs8 :: "vec list \<Rightarrow> vec list" where
  "transpose_vecs8 vecs =
     (let ab_0145 = on_halves unpacklo_epi32 (vecs ! 0) (vecs ! 1);
          ab_2367 = on_halves unpackhi_epi32 (vecs ! 0) (vecs ! 1);
          cd_0145 = on_halves unpacklo_epi32 (vecs ! 2) (vecs ! 3);
          cd_2367 = on_halves unpackhi_epi32 (vecs ! 2) (vecs ! 3);
          ef_0145 = on_halves unpacklo_epi32 (vecs ! 4) (vecs ! 5);
          ef_2367 = on_halves unpackhi_epi32 (vecs ! 4) (vecs ! 5);
          gh_0145 = on_halves unpacklo_epi32 (vecs ! 6) (vecs ! 7);
          gh_2367 = on_halves unpackhi_epi32 (vecs ! 6) (vecs ! 7);
          abcd_04 = on_halves unpacklo_epi64 ab_0145 cd_0145;
          abcd_15 = on_halves unpackhi_epi64 ab_0145 cd_0145;
          abcd_26 = on_halves unpacklo_epi64 ab_2367 cd_2367;
          abcd_37 = on_halves unpackhi_epi64 ab_2367 cd_2367;
          efgh_04 = on_halves unpacklo_epi64 ef_0145 gh_0145;
          efgh_15 = on_halves unpackhi_epi64 ef_0145 gh_0145;
          efgh_26 = on_halves unpacklo_epi64 ef_2367 gh_2367;
          efgh_37 = on_halves unpackhi_epi64 ef_2367 gh_2367;
          (abcdefgh_0, abcdefgh_4) = interleave128 abcd_04 efgh_04;
          (abcdefgh_1, abcdefgh_5) = interleave128 abcd_15 efgh_15;
          (abcdefgh_2, abcdefgh_6) = interleave128 abcd_26 efgh_26;
          (abcdefgh_3, abcdefgh_7) = interleave128 abcd_37 efgh_37
      in [abcdefgh_0, abcdefgh_1, abcdefgh_2, abcdefgh_3, abcdefgh_4, abcdefgh_5, abcdefgh_6, abcdefgh_7])"

definition loadu8 :: "nat \<Rightarrow> bytes \<Rightarrow> vec" where
  "loadu8 off bs = le_words 8 (drop off bs)"

definition transpose_msg_vecs8 :: "bytes list \<Rightarrow> nat \<Rightarrow> vec list" where
  "transpose_msg_vecs8 inputs block_offset =
     (let square = \<lambda>q. map (\<lambda>i. loadu8 (block_offset + q * 32) (inputs ! i)) [0, 1, 2, 3, 4, 5, 6, 7]
      in transpose_vecs8 (square 0) @ transpose_vecs8 (square 1))"

definition hash8 :: "bytes list \<Rightarrow> nat \<Rightarrow> cv_words \<Rightarrow> u64 \<Rightarrow> bool \<Rightarrow> u8 \<Rightarrow> u8 \<Rightarrow> u8 \<Rightarrow> bytes" where
  "hash8 inputs blocks key counter inc flags flags_start flags_end =
     (let h_vecs = map (\<lambda>i. vset1 8 (key ! i)) [0, 1, 2, 3, 4, 5, 6, 7];
          (lo, hi) = load_counters 8 counter inc;
          h_vecs = hash_blocks vrotr 8 (transpose_msg_vecs8 inputs) blocks lo hi flags flags_end 0 (flags OR flags_start) h_vecs;
          h_vecs = transpose_vecs8 h_vecs
      in vstore (h_vecs ! 0) @ vstore (h_vecs ! 1) @ vstore (h_vecs ! 2) @ vstore (h_vecs ! 3)
         @ vstore (h_vecs ! 4) @ vstore (h_vecs ! 5) @ vstore (h_vecs ! 6) @ vstore (h_vecs ! 7))"

text \<open>What is left after the groups of eight goes to \<open>sse41::hash_many\<close>.\<close>

function avx2_hash_many ::
  "nat \<Rightarrow> bytes list \<Rightarrow> cv_words \<Rightarrow> u64 \<Rightarrow> bool \<Rightarrow> u8 \<Rightarrow> u8 \<Rightarrow> u8 \<Rightarrow> bytes \<Rightarrow> bytes"
where
  "avx2_hash_many N inputs key counter inc flags flags_start flags_end out =
     (if 8 \<le> length inputs \<and> 8 * OUT_LEN \<le> length out then
        let blocks = N div BLOCK_LEN;
            hashed = hash8 (take 8 inputs) blocks key counter inc flags flags_start flags_end;
            counter = (if inc then counter + 8 else counter)
        in hashed @ avx2_hash_many N (drop 8 inputs) key counter inc flags flags_start flags_end
             (drop (8 * OUT_LEN) out)
      else sse41_hash_many N inputs key counter inc flags flags_start flags_end out)"
  by pat_completeness auto
termination
  by (relation "measure (\<lambda>(N, inputs, rest). length inputs)") auto

declare avx2_hash_many.simps [simp del]

subsection \<open>A lane of the round is the scalar round\<close>

definition shalf :: "nat \<Rightarrow> nat \<Rightarrow> quad list \<Rightarrow> nat list \<Rightarrow> u32 list \<Rightarrow> nat \<Rightarrow> u32 list \<Rightarrow> u32 list" where
  "shalf rot_d rot_b quads ks m r v =
     (let v = fold (\<lambda>((a, b, c, d), k) v. v[a := v ! a + m ! (MSG_SCHEDULE ! r ! k)]) (zip quads ks) v;
          v = fold (\<lambda>(a, b, c, d) v. v[a := v ! a + v ! b]) quads v;
          v = fold (\<lambda>(a, b, c, d) v. v[d := v ! d XOR v ! a]) quads v;
          v = fold (\<lambda>(a, b, c, d) v. v[d := rotate_right (v ! d) rot_d]) quads v;
          v = fold (\<lambda>(a, b, c, d) v. v[c := v ! c + v ! d]) quads v;
          v = fold (\<lambda>(a, b, c, d) v. v[b := v ! b XOR v ! c]) quads v;
          v = fold (\<lambda>(a, b, c, d) v. v[b := rotate_right (v ! b) rot_b]) quads v
      in v)"

definition quads_ok :: "quad list \<Rightarrow> bool" where
  "quads_ok quads \<longleftrightarrow> (\<forall>(a, b, c, d) \<in> set quads. a < 16 \<and> b < 16 \<and> c < 16 \<and> d < 16)"

lemma quads_ok_simps [simp]: "quads_ok columns" "quads_ok diagonals"
  by (simp_all add: quads_ok_def columns_def diagonals_def)

lemma schedule_bound: "r < 7 \<Longrightarrow> k < 16 \<Longrightarrow> MSG_SCHEDULE ! r ! k < 16"
proof -
  have "\<forall>row \<in> set MSG_SCHEDULE. length row = 16 \<and> (\<forall>x \<in> set row. x < 16)" "length MSG_SCHEDULE = 7"
    by (simp_all add: MSG_SCHEDULE_def)
  then show "r < 7 \<Longrightarrow> k < 16 \<Longrightarrow> MSG_SCHEDULE ! r ! k < 16" by (metis nth_mem)
qed

text \<open>Lane \<open>j\<close> of the registers \<open>v\<close> is the state \<open>s\<close>; the updates of a half preserve this.\<close>

definition sim :: "nat \<Rightarrow> nat \<Rightarrow> vec list \<Rightarrow> u32 list \<Rightarrow> bool" where
  "sim lanes j v s \<longleftrightarrow> vwf lanes v \<and> lane j v = s"

lemma sim_fold:
  assumes "sim lanes j v s"
    and "\<And>q v s. q \<in> set qs \<Longrightarrow> sim lanes j v s \<Longrightarrow> sim lanes j (f q v) (g q s)"
  shows "sim lanes j (fold f qs v) (fold g qs s)"
  using assms by (induction qs arbitrary: v s) simp_all

lemma sim_update: "sim lanes j v s \<Longrightarrow> length x = lanes \<Longrightarrow> x ! j = y \<Longrightarrow> sim lanes j (v[i := x]) (s[i := y])"
  by (auto simp: sim_def vwf_update lane_update)

lemma sim_nth: "sim lanes j v s \<Longrightarrow> i < 16 \<Longrightarrow> length (v ! i) = lanes \<and> v ! i ! j = s ! i"
  by (auto simp: sim_def vwf_nth vwf_length)

lemma sim_fold_quads:
  assumes "sim lanes j v s" "quads_ok quads"
    and "\<And>a b c d v s. sim lanes j v s \<Longrightarrow>
      length (v ! a) = lanes \<Longrightarrow> length (v ! b) = lanes \<Longrightarrow> length (v ! c) = lanes \<Longrightarrow> length (v ! d) = lanes \<Longrightarrow>
      v ! a ! j = s ! a \<Longrightarrow> v ! b ! j = s ! b \<Longrightarrow> v ! c ! j = s ! c \<Longrightarrow> v ! d ! j = s ! d \<Longrightarrow>
      sim lanes j (f (a, b, c, d) v) (g (a, b, c, d) s)"
  shows "sim lanes j (fold f quads v) (fold g quads s)"
proof (rule sim_fold [OF assms(1)])
  fix q v s assume q: "q \<in> set quads" and v: "sim lanes j v s"
  obtain a b c d where "q = (a, b, c, d)" by (cases q)
  then show "sim lanes j (f q v) (g q s)"
    using assms(2) q sim_nth [OF v] by (auto simp: quads_ok_def intro!: assms(3) v)
qed

lemma rot_lanes:
  "rot_ok lanes rot \<Longrightarrow> n \<in> {16, 12, 8, 7} \<Longrightarrow> length v = lanes \<Longrightarrow>
   length (rot n v) = lanes \<and> (\<forall>j < lanes. rot n v ! j = rotate_right (v ! j) n)"
  unfolding rot_ok_def by (drule (1) bspec) simp

lemma sim_quads:
  assumes "sim lanes j v s" "quads_ok quads" "j < lanes" and rot: "rot_ok lanes rot"
  shows "sim lanes j (fold (\<lambda>(a, b, c, d) v. v[a := vadd (v ! a) (v ! b)]) quads v)
      (fold (\<lambda>(a, b, c, d) v. v[a := v ! a + v ! b]) quads s)"
    and "sim lanes j (fold (\<lambda>(a, b, c, d) v. v[d := vxor (v ! d) (v ! a)]) quads v)
      (fold (\<lambda>(a, b, c, d) v. v[d := v ! d XOR v ! a]) quads s)"
    and "sim lanes j (fold (\<lambda>(a, b, c, d) v. v[c := vadd (v ! c) (v ! d)]) quads v)
      (fold (\<lambda>(a, b, c, d) v. v[c := v ! c + v ! d]) quads s)"
    and "sim lanes j (fold (\<lambda>(a, b, c, d) v. v[b := vxor (v ! b) (v ! c)]) quads v)
      (fold (\<lambda>(a, b, c, d) v. v[b := v ! b XOR v ! c]) quads s)"
    and "n \<in> {16, 12, 8, 7} \<Longrightarrow> sim lanes j (fold (\<lambda>(a, b, c, d) v. v[d := rot n (v ! d)]) quads v)
      (fold (\<lambda>(a, b, c, d) v. v[d := rotate_right (v ! d) n]) quads s)"
    and "n \<in> {16, 12, 8, 7} \<Longrightarrow> sim lanes j (fold (\<lambda>(a, b, c, d) v. v[b := rot n (v ! b)]) quads v)
      (fold (\<lambda>(a, b, c, d) v. v[b := rotate_right (v ! b) n]) quads s)"
  by (rule sim_fold_quads [OF assms(1,2)], simp add: sim_update assms(3) rot_lanes [OF rot])+

lemma sim_message:
  assumes "sim lanes j v s" "quads_ok quads" "\<forall>k \<in> set ks. k < 16" "r < 7" "j < lanes" "sim lanes j m mw"
  shows "sim lanes j (fold (\<lambda>((a, b, c, d), k) v. v[a := vadd (v ! a) (m ! (MSG_SCHEDULE ! r ! k))]) (zip quads ks) v)
    (fold (\<lambda>((a, b, c, d), k) v. v[a := v ! a + mw ! (MSG_SCHEDULE ! r ! k)]) (zip quads ks) s)"
proof (rule sim_fold [OF assms(1)])
  fix q v s assume "q \<in> set (zip quads ks)" and v: "sim lanes j v s"
  moreover obtain a b c d k where q1: "q = ((a, b, c, d), k)" by (cases q) auto
  ultimately have q: "(a, b, c, d) \<in> set quads" "k \<in> set ks"
    by (auto dest: set_zip_leftD set_zip_rightD)
  have "a < 16" using q(1) assms(2) by (auto simp: quads_ok_def)
  moreover have "MSG_SCHEDULE ! r ! k < 16" using q(2) assms(3,4) by (simp add: schedule_bound)
  ultimately show "sim lanes j ((\<lambda>((a, b, c, d), k) v. v[a := vadd (v ! a) (m ! (MSG_SCHEDULE ! r ! k))]) q v)
    ((\<lambda>((a, b, c, d), k) v. v[a := v ! a + mw ! (MSG_SCHEDULE ! r ! k)]) q s)"
    using sim_nth [OF v, of a] sim_nth [OF assms(6), of "MSG_SCHEDULE ! r ! k"] assms(5)
    by (simp add: q1 sim_update [OF v])
qed

lemma sim_vhalf:
  assumes "sim lanes j v s" "sim lanes j m mw" "quads_ok quads" "\<forall>k \<in> set ks. k < 16" "r < 7" "j < lanes"
    and "rot_ok lanes rot" "rd \<in> {16, 12, 8, 7}" "rb \<in> {16, 12, 8, 7}"
  shows "sim lanes j (vhalf rot rd rb quads ks m r v) (shalf rd rb quads ks mw r s)"
  unfolding vhalf_def shalf_def Let_def using assms by (intro sim_quads sim_message)

subsection \<open>The scalar halves are the mixing functions\<close>

definition sround :: "u32 list \<Rightarrow> u32 list \<Rightarrow> nat \<Rightarrow> u32 list" where
  "sround v m r =
     (let v = shalf 16 12 columns [0, 2, 4, 6] m r v;
          v = shalf 8 7 columns [1, 3, 5, 7] m r v;
          v = shalf 16 12 diagonals [8, 10, 12, 14] m r v;
          v = shalf 8 7 diagonals [9, 11, 13, 15] m r v
      in v)"

lemma sim_vround:
  assumes "sim lanes j v s" "sim lanes j m mw" "r < 7" "j < lanes" "rot_ok lanes rot"
  shows "sim lanes j (vround rot v m r) (sround s mw r)"
  unfolding vround_def sround_def Let_def using assms by (intro sim_vhalf) simp_all

lemma shalf_columns:
  "shalf rd rb columns [k0, k1, k2, k3] m r
     [a0, a1, a2, a3, b0, b1, b2, b3, c0, c1, c2, c3, d0, d1, d2, d3]
   = (let x = \<lambda>k. m ! (MSG_SCHEDULE ! r ! k)
      in [mixA a0 b0 c0 d0 (x k0) rd rb, mixA a1 b1 c1 d1 (x k1) rd rb, mixA a2 b2 c2 d2 (x k2) rd rb, mixA a3 b3 c3 d3 (x k3) rd rb,
          mixB a0 b0 c0 d0 (x k0) rd rb, mixB a1 b1 c1 d1 (x k1) rd rb, mixB a2 b2 c2 d2 (x k2) rd rb, mixB a3 b3 c3 d3 (x k3) rd rb,
          mixC a0 b0 c0 d0 (x k0) rd rb, mixC a1 b1 c1 d1 (x k1) rd rb, mixC a2 b2 c2 d2 (x k2) rd rb, mixC a3 b3 c3 d3 (x k3) rd rb,
          mixD a0 b0 c0 d0 (x k0) rd rb, mixD a1 b1 c1 d1 (x k1) rd rb, mixD a2 b2 c2 d2 (x k2) rd rb, mixD a3 b3 c3 d3 (x k3) rd rb])"
  by (simp add: shalf_def columns_def mixA_def mixB_def mixC_def mixD_def Let_def ac_simps)

lemma shalf_diagonals:
  "shalf rd rb diagonals [k0, k1, k2, k3] m r
     [a0, a1, a2, a3, b3, b0, b1, b2, c2, c3, c0, c1, d1, d2, d3, d0]
   = (let x = \<lambda>k. m ! (MSG_SCHEDULE ! r ! k)
      in [mixA a0 b0 c0 d0 (x k0) rd rb, mixA a1 b1 c1 d1 (x k1) rd rb, mixA a2 b2 c2 d2 (x k2) rd rb, mixA a3 b3 c3 d3 (x k3) rd rb,
          mixB a3 b3 c3 d3 (x k3) rd rb, mixB a0 b0 c0 d0 (x k0) rd rb, mixB a1 b1 c1 d1 (x k1) rd rb, mixB a2 b2 c2 d2 (x k2) rd rb,
          mixC a2 b2 c2 d2 (x k2) rd rb, mixC a3 b3 c3 d3 (x k3) rd rb, mixC a0 b0 c0 d0 (x k0) rd rb, mixC a1 b1 c1 d1 (x k1) rd rb,
          mixD a1 b1 c1 d1 (x k1) rd rb, mixD a2 b2 c2 d2 (x k2) rd rb, mixD a3 b3 c3 d3 (x k3) rd rb, mixD a0 b0 c0 d0 (x k0) rd rb])"
  by (simp add: shalf_def diagonals_def mixA_def mixB_def mixC_def mixD_def Let_def ac_simps)

lemma sround_eq:
  assumes "length s = 16"
  shows "sround s m r = round_b3 s m r"
proof -
  have "sround [s0, s1, s2, s3, s4, s5, s6, s7, s8, s9, s10, s11, s12, s13, s14, s15] m r
      = round_words [s0, s1, s2, s3, s4, s5, s6, s7, s8, s9, s10, s11, s12, s13, s14, s15]
          (map ((!) m) (map ((!) (MSG_SCHEDULE ! r)) [0..<16]))" for s0 s1 s2 s3 s4 s5 s6 s7 s8 s9 s10 s11 s12 s13 s14 s15
    unfolding sround_def
    by (simp add: shalf_columns shalf_diagonals round_words_def mix2_def upt_16 Let_def)
  then show ?thesis using list_16 [OF assms] round_b3_words [OF assms] by metis
qed

lemma lane_vround:
  assumes "sim lanes j v s" "sim lanes j m mw" "r < 7" "j < lanes" "rot_ok lanes rot"
  shows "sim lanes j (vround rot v m r) (round_b3 s mw r)"
  using sim_vround [OF assms] assms(1) by (auto simp: sim_def sround_eq vwf_length)

subsection \<open>The transposed message\<close>

lemma transpose_vecs4_eq:
  "transpose_vecs4 vecs = map (\<lambda>i. [vecs ! 0 ! i, vecs ! 1 ! i, vecs ! 2 ! i, vecs ! 3 ! i]) [0, 1, 2, 3]"
  by (simp add: transpose_vecs4_def unpacklo_epi32_def unpackhi_epi32_def unpacklo_epi64_def unpackhi_epi64_def Let_def)

lemma le_words_take_64: "le_words 16 (take 64 bs) = le_words 16 bs"
  by (rule nth_equalityI) (simp_all add: nth_le_words drop_take min_def)

lemma loadu_drop: "loadu (off + k) bs = loadu k (drop off bs)"
  by (simp add: loadu_def add.commute)

lemma sim_columns:
  "j < lanes \<Longrightarrow> length (w j) = 16 \<Longrightarrow>
   sim lanes j (map (\<lambda>i. map (\<lambda>q. w q ! i) [0..<lanes]) [0..<16]) (w j)"
  by (auto simp: sim_def vwf_def lane_def intro: nth_equalityI)

lemma transpose_msg_vecs4_lane:
  assumes "j < 4"
  shows "sim 4 j (transpose_msg_vecs4 inputs off) (le_words 16 (drop off (inputs ! j)))"
proof -
  define w where "w = (\<lambda>j. le_words 16 (drop off (inputs ! j)))"
  have load: "loadu (off + 0) (inputs ! i) = [w i ! 0, w i ! 1, w i ! 2, w i ! 3]"
    "loadu (off + 16) (inputs ! i) = [w i ! 4, w i ! 5, w i ! 6, w i ! 7]"
    "loadu (off + 32) (inputs ! i) = [w i ! 8, w i ! 9, w i ! 10, w i ! 11]"
    "loadu (off + 48) (inputs ! i) = [w i ! 12, w i ! 13, w i ! 14, w i ! 15]" for i
    using loadu_block [of 0 "drop off (inputs ! i)"] loadu_block [of 1 "drop off (inputs ! i)"]
      loadu_block [of 2 "drop off (inputs ! i)"] loadu_block [of 3 "drop off (inputs ! i)"]
    unfolding loadu_drop w_def by (simp_all add: numeral_2_eq_2)
  have "transpose_msg_vecs4 inputs off = map (\<lambda>i. map (\<lambda>q. w q ! i) [0..<4]) [0..<16]"
    unfolding transpose_msg_vecs4_def Let_def
    by (simp add: load [simplified] transpose_vecs4_eq upt_16 upt_4)
  moreover have "sim 4 j (map (\<lambda>i. map (\<lambda>q. w q ! i) [0..<4]) [0..<16]) (w j)"
    by (rule sim_columns [OF assms]) (simp add: w_def)
  ultimately show ?thesis by (simp only: w_def)
qed

lemma load_counters_nth:
  assumes "load_counters degree counter inc = (lo, hi)" "j < degree"
  shows "length lo = degree" "length hi = degree"
    "lo ! j = counter_low (if inc then counter + of_nat j else counter)"
    "hi ! j = counter_high (if inc then counter + of_nat j else counter)"
  using assms by (auto simp: load_counters_def Let_def)

subsection \<open>The lanes hash their inputs\<close>

definition vwf8 :: "nat \<Rightarrow> vec list \<Rightarrow> bool" where
  "vwf8 lanes h \<longleftrightarrow> length h = 8 \<and> (\<forall>v \<in> set h. length v = lanes)"

lemma vwf8_nth: "vwf8 lanes h \<Longrightarrow> i < 8 \<Longrightarrow> length (h ! i) = lanes"
  by (auto simp: vwf8_def)

lemma hash1_loop_blocks:
  assumes "length inp = 64 * blocks" "block < blocks"
  shows "hash1_loop cv bf (drop (64 * block) inp) c flags fe =
    hash1_loop (compress_in_place cv (take 64 (drop (64 * block) inp)) 64 c
        (if block + 1 = blocks then bf OR fe else bf)) flags (drop (64 * (block + 1)) inp) c flags fe"
proof -
  have "BLOCK_LEN \<le> length (drop (64 * block) inp)" using assms by (simp add: BLOCK_LEN_def)
  moreover have "length (drop (64 * block) inp) = BLOCK_LEN \<longleftrightarrow> block + 1 = blocks"
    using assms by (auto simp: BLOCK_LEN_def)
  moreover have "drop BLOCK_LEN (drop (64 * block) inp) = drop (64 * (block + 1)) inp"
    by (simp add: BLOCK_LEN_def)
  ultimately show ?thesis
    by (subst hash1_loop.simps) (simp add: Let_def BLOCK_LEN_def)
qed

lemma transposed_compress_lane:
  assumes rot: "rot_ok lanes rot" and "vwf8 lanes h" "j < lanes" "sim lanes j m (le_words 16 bs)"
    and ctr: "length lo = lanes" "length hi = lanes" "lo ! j = counter_low c" "hi ! j = counter_high c"
  shows "vwf8 lanes (transposed_compress rot lanes h m lo hi bf)"
    and "lane j (transposed_compress rot lanes h m lo hi bf) = compress_in_place (lane j h) (take 64 bs) 64 c bf"
proof -
  define v0 where "v0 = [h ! 0, h ! 1, h ! 2, h ! 3, h ! 4, h ! 5, h ! 6, h ! 7,
         vset1 lanes (IV ! 0), vset1 lanes (IV ! 1), vset1 lanes (IV ! 2), vset1 lanes (IV ! 3),
         lo, hi, vset1 lanes (of_nat BLOCK_LEN), vset1 lanes (ucast bf)]"
  define s0 where "s0 = [h ! 0 ! j, h ! 1 ! j, h ! 2 ! j, h ! 3 ! j, h ! 4 ! j, h ! 5 ! j, h ! 6 ! j, h ! 7 ! j,
         IV ! 0, IV ! 1, IV ! 2, IV ! 3, counter_low c, counter_high c, ucast (64 :: u8), ucast bf]"
  define v where "v = vround rot (vround rot (vround rot (vround rot (vround rot (vround rot (vround rot v0 m 0) m 1) m 2) m 3) m 4) m 5) m 6"
  have "sim lanes j v0 s0"
    using assms(3) ctr vwf8_nth [OF assms(2)]
    by (simp add: sim_def vwf_def v0_def s0_def lane_def BLOCK_LEN_def)
  note step = lane_vround [OF _ assms(4) _ assms(3) rot]
  have pre: "compress_pre (lane j h) (take 64 bs) 64 c bf
      = round_b3 (round_b3 (round_b3 (round_b3 (round_b3 (round_b3 (round_b3 s0 (le_words 16 bs) 0) (le_words 16 bs) 1)
          (le_words 16 bs) 2) (le_words 16 bs) 3) (le_words 16 bs) 4) (le_words 16 bs) 5) (le_words 16 bs) 6"
    using assms(2)
    by (simp add: compress_pre_def words_from_le_bytes_64_def le_words_take_64 s0_def vwf8_def Let_def)
  have "sim lanes j v (compress_pre (lane j h) (take 64 bs) 64 c bf)"
    unfolding pre v_def by (intro step) (use \<open>sim lanes j v0 s0\<close> in simp_all)
  note final = sim_nth [OF this]
  have "transposed_compress rot lanes h m lo hi bf
      = [vxor (v ! 0) (v ! 8), vxor (v ! 1) (v ! 9), vxor (v ! 2) (v ! 10), vxor (v ! 3) (v ! 11),
         vxor (v ! 4) (v ! 12), vxor (v ! 5) (v ! 13), vxor (v ! 6) (v ! 14), vxor (v ! 7) (v ! 15)]"
    by (simp only: transposed_compress_def Let_def v_def v0_def)
  then show "vwf8 lanes (transposed_compress rot lanes h m lo hi bf)"
    and "lane j (transposed_compress rot lanes h m lo hi bf) = compress_in_place (lane j h) (take 64 bs) 64 c bf"
    using assms(3) final by (simp_all add: vwf8_def lane_def compress_in_place_def Let_def)
qed

lemma hash_blocks_lane:
  assumes "j < lanes" "length inp = 64 * blocks" and rot: "rot_ok lanes rot"
    and msg: "\<And>off. sim lanes j (msg off) (le_words 16 (drop off inp))"
    and ctr: "length lo = lanes" "length hi = lanes" "lo ! j = counter_low c" "hi ! j = counter_high c"
  shows "vwf8 lanes h \<Longrightarrow> block \<le> blocks \<Longrightarrow>
    vwf8 lanes (hash_blocks rot lanes msg blocks lo hi flags fe block bf h)
    \<and> lane j (hash_blocks rot lanes msg blocks lo hi flags fe block bf h)
      = hash1_loop (lane j h) bf (drop (64 * block) inp) c flags fe"
proof (induction "blocks - block" arbitrary: block bf h)
  case 0
  then have "block = blocks" by simp
  moreover have "hash_blocks rot lanes msg blocks lo hi flags fe blocks bf h = h"
    by (subst hash_blocks.simps) simp
  moreover have "hash1_loop (lane j h) bf [] c flags fe = lane j h"
    by (subst hash1_loop.simps) (simp add: BLOCK_LEN_def)
  ultimately show ?case using "0.prems" assms(2) by simp
next
  case (Suc n)
  then have lt: "block < blocks" by simp
  let ?bf = "if block + 1 = blocks then bf OR fe else bf"
  define h' where "h' = transposed_compress rot lanes h (msg (64 * block)) lo hi ?bf"
  note h' = transposed_compress_lane [OF rot Suc.prems(1) assms(1) msg [of "64 * block"] ctr, of ?bf, folded h'_def]
  have step: "hash_blocks rot lanes msg blocks lo hi flags fe block bf h
      = hash_blocks rot lanes msg blocks lo hi flags fe (block + 1) flags h'"
    using lt by (subst hash_blocks.simps) (simp add: Let_def BLOCK_LEN_def mult.commute h'_def)
  have "vwf8 lanes (hash_blocks rot lanes msg blocks lo hi flags fe (block + 1) flags h')
    \<and> lane j (hash_blocks rot lanes msg blocks lo hi flags fe (block + 1) flags h')
      = hash1_loop (lane j h') flags (drop (64 * (block + 1)) inp) c flags fe"
    using Suc.hyps(2) lt h'(1) by (intro Suc.hyps(1)) auto
  then show ?case
    unfolding step hash1_loop_blocks [OF assms(2) lt] by (simp only: h'(2))
qed

subsection \<open>\<open>hash4\<close> and \<open>hash8\<close>\<close>

lemma key_lanes: "length key = 8 \<Longrightarrow> j < lanes \<Longrightarrow>
   vwf8 lanes (map (\<lambda>i. vset1 lanes (key ! i)) [0, 1, 2, 3, 4, 5, 6, 7])
   \<and> lane j (map (\<lambda>i. vset1 lanes (key ! i)) [0, 1, 2, 3, 4, 5, 6, 7]) = key"
  by (simp add: vwf8_def lane_def list_eq_iff_nth_eq) (simp add: less_Suc_eq numeral_eq_Suc)

lemma hash_many_cvs_map:
  "hash_many_cvs xs key c inc f fs fe
     = map (\<lambda>j. hash1 (xs ! j) key (if inc then c + of_nat j else c) f fs fe) [0..<length xs]"
proof (induction xs arbitrary: c)
  case (Cons x xs)
  show ?case
    by (simp add: Cons upt_conv_Cons map_Suc_upt [symmetric] add.assoc o_def del: upt_Suc map_Suc_upt)
qed simp

text \<open>The vectors before the last transposition hold the chaining values in their lanes.\<close>

lemma hash_vecs_lane:
  assumes "length key = 8" "\<forall>x \<in> set inputs. length x = 64 * blocks" "length inputs = lanes" "j < lanes"
    and rot: "rot_ok lanes rot"
    and msg: "\<And>off j. j < lanes \<Longrightarrow> sim lanes j (msg off) (le_words 16 (drop off (inputs ! j)))"
    and ctr: "load_counters lanes c inc = (lo, hi)"
    and h: "h = hash_blocks rot lanes msg blocks lo hi f fe 0 (f OR fs)
      (map (\<lambda>i. vset1 lanes (key ! i)) [0, 1, 2, 3, 4, 5, 6, 7])"
  shows "vwf8 lanes h" and "words_bytes (lane j h) = hash1 (inputs ! j) key (if inc then c + of_nat j else c) f fs fe"
proof -
  have "length (inputs ! j) = 64 * blocks" using assms(2,3,4) by simp
  note hash_blocks_lane [OF assms(4) this rot msg [OF assms(4)] load_counters_nth [OF ctr assms(4)], of
      "map (\<lambda>i. vset1 lanes (key ! i)) [0, 1, 2, 3, 4, 5, 6, 7]" 0 f fe "f OR fs"]
  then show "vwf8 lanes h"
    and "words_bytes (lane j h) = hash1 (inputs ! j) key (if inc then c + of_nat j else c) f fs fe"
    using key_lanes [OF assms(1,4)] by (simp_all only: h hash1_def le_bytes_from_words_32_def) simp_all
qed

lemma lane_8: "vwf8 lanes h \<Longrightarrow> lane j h = [h ! 0 ! j, h ! 1 ! j, h ! 2 ! j, h ! 3 ! j, h ! 4 ! j, h ! 5 ! j, h ! 6 ! j, h ! 7 ! j]"
  by (simp add: vwf8_def lane_def list_eq_iff_nth_eq) (simp add: less_Suc_eq numeral_eq_Suc)

lemma hash4_eq:
  assumes "length key = 8" "\<forall>x \<in> set inputs. length x = 64 * blocks" "length inputs = 4" and rot: "rot_ok 4 rot"
  shows "hash4 rot inputs blocks key c inc f fs fe = concat (hash_many_cvs inputs key c inc f fs fe)"
proof -
  obtain lo hi where ctr: "load_counters 4 c inc = (lo, hi)" by fastforce
  define h where "h = hash_blocks rot 4 (transpose_msg_vecs4 inputs) blocks lo hi f fe 0 (f OR fs)
    (map (\<lambda>i. vset1 4 (key ! i)) [0, 1, 2, 3, 4, 5, 6, 7])"
  note lanes = hash_vecs_lane [OF assms(1-3) _ rot transpose_msg_vecs4_lane ctr h_def]
  have wf: "vwf8 4 h" by (rule lanes(1) [of 0]) simp_all
  then have "take 4 h = [h ! 0, h ! 1, h ! 2, h ! 3]" "drop 4 h = [h ! 4, h ! 5, h ! 6, h ! 7]"
    using subslice_4 [of 4 0 h] subslice_4 [of 8 4 h] by (simp_all add: subslice_def vwf8_def numeral_2_eq_2)
  then have "hash4 rot inputs blocks key c inc f fs fe = concat (map (\<lambda>j. words_bytes (lane j h)) [0..<4])"
    unfolding hash4_def Let_def ctr prod.case h_def [symmetric]
    by (simp add: transpose_vecs4_eq lane_8 [OF wf] vstore_def upt_4 numeral_2_eq_2)
  also have "map (\<lambda>j. words_bytes (lane j h)) [0..<4] = hash_many_cvs inputs key c inc f fs fe"
    unfolding hash_many_cvs_map assms(3) by (rule map_cong [OF refl]) (simp add: lanes(2))
  finally show ?thesis .
qed

lemma transpose_vecs8_eq:
  assumes "vwf8 8 vecs"
  shows "transpose_vecs8 vecs = map (\<lambda>i. [vecs ! 0 ! i, vecs ! 1 ! i, vecs ! 2 ! i, vecs ! 3 ! i,
     vecs ! 4 ! i, vecs ! 5 ! i, vecs ! 6 ! i, vecs ! 7 ! i]) [0, 1, 2, 3, 4, 5, 6, 7]"
proof -
  have "length (vecs ! 0) = 8" "length (vecs ! 1) = 8" "length (vecs ! 2) = 8" "length (vecs ! 3) = 8"
    "length (vecs ! 4) = 8" "length (vecs ! 5) = 8" "length (vecs ! 6) = 8" "length (vecs ! 7) = 8"
    using assms by (simp_all add: vwf8_nth)
  then show ?thesis
    by (simp add: transpose_vecs8_def on_halves_8 interleave128_def permute2x128_def unpacklo_epi32_def
        unpackhi_epi32_def unpacklo_epi64_def unpackhi_epi64_def Let_def)
qed

lemma transpose_msg_vecs8_lane:
  assumes "j < 8"
  shows "sim 8 j (transpose_msg_vecs8 inputs off) (le_words 16 (drop off (inputs ! j)))"
proof -
  define w where "w = (\<lambda>j. le_words 16 (drop off (inputs ! j)))"
  have upt: "[8..<16] = [8, 9, 10, 11, 12, 13, 14, 15 :: nat]" by (simp add: upt_rec)
  have load: "loadu8 (off + 0) (inputs ! i) = map ((!) (w i)) [0..<8]"
    "loadu8 (off + 32) (inputs ! i) = map ((!) (w i)) [8..<16]" for i
    by (simp_all add: loadu8_def w_def nth_le_words le_words_def upt_8 upt add.commute)
  have "transpose_msg_vecs8 inputs off = map (\<lambda>i. map (\<lambda>q. w q ! i) [0..<8]) [0..<16]"
    unfolding transpose_msg_vecs8_def Let_def
    by (simp add: load [simplified] transpose_vecs8_eq vwf8_def) (simp add: upt_16 upt_8 upt numeral_2_eq_2)
  moreover have "sim 8 j (map (\<lambda>i. map (\<lambda>q. w q ! i) [0..<8]) [0..<16]) (w j)"
    by (rule sim_columns [OF assms]) (simp add: w_def)
  ultimately show ?thesis by (simp only: w_def)
qed

lemma hash8_eq:
  assumes "length key = 8" "\<forall>x \<in> set inputs. length x = 64 * blocks" "length inputs = 8"
  shows "hash8 inputs blocks key c inc f fs fe = concat (hash_many_cvs inputs key c inc f fs fe)"
proof -
  obtain lo hi where ctr: "load_counters 8 c inc = (lo, hi)" by fastforce
  define h where "h = hash_blocks vrotr 8 (transpose_msg_vecs8 inputs) blocks lo hi f fe 0 (f OR fs)
    (map (\<lambda>i. vset1 8 (key ! i)) [0, 1, 2, 3, 4, 5, 6, 7])"
  note lanes = hash_vecs_lane [OF assms _ vrotr_ok transpose_msg_vecs8_lane ctr h_def]
  have wf: "vwf8 8 h" by (rule lanes(1) [of 0]) simp_all
  have "hash8 inputs blocks key c inc f fs fe = concat (map (\<lambda>j. words_bytes (lane j h)) [0..<8])"
    unfolding hash8_def Let_def ctr prod.case h_def [symmetric]
    by (simp add: transpose_vecs8_eq [OF wf] lane_8 [OF wf] vstore_def upt_8)
  also have "map (\<lambda>j. words_bytes (lane j h)) [0..<8] = hash_many_cvs inputs key c inc f fs fe"
    unfolding hash_many_cvs_map assms(3) by (rule map_cong [OF refl]) (simp add: lanes(2))
  finally show ?thesis .
qed

subsection \<open>\<open>hash_many\<close> of the three files is the portable one\<close>

definition compress_ok :: "(cv_words \<Rightarrow> bytes \<Rightarrow> u8 \<Rightarrow> u64 \<Rightarrow> u8 \<Rightarrow> cv_words) \<Rightarrow> bool" where
  "compress_ok compress \<longleftrightarrow>
     (\<forall>cv block bl c f. length cv = 8 \<longrightarrow> compress cv block bl c f = compress_in_place cv block bl c f)"

lemma sse_compress_ok [simp]: "compress_ok sse2_compress_in_place" "compress_ok sse41_compress_in_place"
  by (simp_all add: compress_ok_def sse2_compress_in_place_def sse41_compress_in_place_def sse_compress_in_place_eq
      mm_blend_ok sse2_blend_ok)

lemma sse_hash1_loop_eq:
  assumes "compress_ok compress"
  shows "length cv = 8 \<Longrightarrow> sse_hash1_loop compress cv bf xs c f fe = hash1_loop cv bf xs c f fe"
proof (induction cv bf xs c f fe rule: hash1_loop.induct)
  case (1 cv bf xs c f fe)
  show ?case
    using 1 assms by (subst sse_hash1_loop.simps, subst hash1_loop.simps) (simp add: compress_ok_def Let_def)
qed

lemma sse_rest_eq:
  "compress_ok compress \<Longrightarrow> length key = 8 \<Longrightarrow>
   sse_rest compress inputs key c inc f fs fe out = hash_many inputs key c inc f fs fe out"
  by (induction inputs arbitrary: c out)
    (simp_all add: sse_hash1_def hash1_def sse_hash1_loop_eq le_bytes_from_words_32_def)

text \<open>Hashing a group and then the rest is hashing them all.\<close>

lemma hash_many_group:
  assumes "length key = 8" "n \<le> length inputs" "32 * length inputs \<le> length out"
  shows "concat (hash_many_cvs (take n inputs) key c inc f fs fe)
      @ hash_many (drop n inputs) key (if inc then c + of_nat n else c) inc f fs fe (drop (32 * n) out)
    = hash_many inputs key c inc f fs fe out"
proof -
  have "hash_many_cvs inputs key c inc f fs fe = hash_many_cvs (take n inputs) key c inc f fs fe
      @ hash_many_cvs (drop n inputs) key (if inc then c + of_nat n else c) inc f fs fe"
    using hash_many_cvs_append [of "take n inputs" "drop n inputs" key c inc f fs fe] assms(2) by (simp add: min_def)
  then show ?thesis
    using assms by (simp add: hash_many_writes put_slice_def) (simp add: algebra_simps)
qed

lemma sse_hash_many_eq:
  assumes "compress_ok compress" "length key = 8" "N mod 64 = 0" and rot: "rot_ok 4 rot"
  shows "\<forall>x \<in> set inputs. length x = N \<Longrightarrow> 32 * length inputs \<le> length out \<Longrightarrow>
    sse_hash_many (hash4 rot) compress N inputs key c inc f fs fe out = hash_many inputs key c inc f fs fe out"
proof (induction "length inputs" arbitrary: inputs c out rule: less_induct)
  case less
  show ?case
  proof (cases "4 \<le> length inputs")
    case True
    have "hash4 rot (take 4 inputs) (N div 64) key c inc f fs fe = concat (hash_many_cvs (take 4 inputs) key c inc f fs fe)"
      using True less.prems(1) assms(2,3) rot by (intro hash4_eq) (auto dest: in_set_takeD)
    moreover have "sse_hash_many (hash4 rot) compress N (drop 4 inputs) key (if inc then c + 4 else c) inc f fs fe (drop 128 out)
        = hash_many (drop 4 inputs) key (if inc then c + 4 else c) inc f fs fe (drop 128 out)"
      using True less.prems by (intro less.hyps) (auto dest: in_set_dropD)
    ultimately show ?thesis
      using True less.prems(2) hash_many_group [OF assms(2) True less.prems(2), of c inc f fs fe]
      by (subst sse_hash_many.simps, cases inc) (simp_all add: Let_def BLOCK_LEN_def OUT_LEN_def)
  next
    case False
    then show ?thesis
      using assms by (subst sse_hash_many.simps) (simp add: sse_rest_eq)
  qed
qed

lemma avx2_hash_many_eq:
  assumes "length key = 8" "N mod 64 = 0"
  shows "\<forall>x \<in> set inputs. length x = N \<Longrightarrow> 32 * length inputs \<le> length out \<Longrightarrow>
    avx2_hash_many N inputs key c inc f fs fe out = hash_many inputs key c inc f fs fe out"
proof (induction "length inputs" arbitrary: inputs c out rule: less_induct)
  case less
  show ?case
  proof (cases "8 \<le> length inputs")
    case True
    have "hash8 (take 8 inputs) (N div 64) key c inc f fs fe = concat (hash_many_cvs (take 8 inputs) key c inc f fs fe)"
      using True less.prems(1) assms by (intro hash8_eq) (auto dest: in_set_takeD)
    moreover have "avx2_hash_many N (drop 8 inputs) key (if inc then c + 8 else c) inc f fs fe (drop 256 out)
        = hash_many (drop 8 inputs) key (if inc then c + 8 else c) inc f fs fe (drop 256 out)"
      using True less.prems by (intro less.hyps) (auto dest: in_set_dropD)
    ultimately show ?thesis
      using True less.prems(2) hash_many_group [OF assms(1) True less.prems(2), of c inc f fs fe]
      by (subst avx2_hash_many.simps, cases inc) (simp_all add: Let_def BLOCK_LEN_def OUT_LEN_def)
  next
    case False
    then show ?thesis
      using less.prems assms by (subst avx2_hash_many.simps) (simp add: sse41_hash_many_def sse41_hash4_def sse_hash_many_eq)
  qed
qed

end
