(* ===== verification/Blake3_Wasm.thy ===== *)
theory Blake3_Wasm
  imports Blake3_Many
begin

section \<open>The WebAssembly kernels of BLAKE3\<close>

text \<open>
  \<open>blake3/src/wasm32_simd.rs\<close>: the SSE2 file over the 128-bit vectors of WebAssembly.  It has its
  own byte-shuffling rotations, shuffles and blend; the functions above these have the text of
  \<open>rust_sse2.rs\<close>, so they are its definitions at these operations.
\<close>

subsection \<open>Intrinsics\<close>

definition i8x16_shuffle :: "nat list \<Rightarrow> vec \<Rightarrow> vec \<Rightarrow> vec" where
  "i8x16_shuffle idx a b = le_words 4 (map (\<lambda>i. (vstore a @ vstore b) ! i) idx)"

definition i32x4_shuffle :: "nat \<Rightarrow> nat \<Rightarrow> nat \<Rightarrow> nat \<Rightarrow> vec \<Rightarrow> vec \<Rightarrow> vec" where
  "i32x4_shuffle i0 i1 i2 i3 a b = map (\<lambda>i. if i < 4 then a ! i else b ! (i - 4)) [i0, i1, i2, i3]"

definition i64x2_shuffle :: "nat \<Rightarrow> nat \<Rightarrow> vec \<Rightarrow> vec \<Rightarrow> vec" where
  "i64x2_shuffle i0 i1 a b =
     i32x4_shuffle (2 * i0) (2 * i0 + 1) (2 * i1) (2 * i1 + 1) a b"

text \<open>The bits of \<open>v1\<close> where the mask is set, of \<open>v2\<close> elsewhere.\<close>

definition v128_bitselect :: "vec \<Rightarrow> vec \<Rightarrow> vec \<Rightarrow> vec" where
  "v128_bitselect v1 v2 c = vor (vand v1 c) (vandnot c v2)"

subsection \<open>The functions of the file\<close>

definition wasm_rot16 :: "vec \<Rightarrow> vec" where
  "wasm_rot16 a = i8x16_shuffle [2, 3, 0, 1, 6, 7, 4, 5, 10, 11, 8, 9, 14, 15, 12, 13] a a"

definition wasm_rot12 :: "vec \<Rightarrow> vec" where
  "wasm_rot12 a = vor (vsrli 12 a) (vslli (32 - 12) a)"

definition wasm_rot8 :: "vec \<Rightarrow> vec" where
  "wasm_rot8 a = i8x16_shuffle [1, 2, 3, 0, 5, 6, 7, 4, 9, 10, 11, 8, 13, 14, 15, 12] a a"

definition wasm_rot7 :: "vec \<Rightarrow> vec" where
  "wasm_rot7 a = vor (vsrli 7 a) (vslli (32 - 7) a)"

definition wasm_rot :: rot_fn where
  "wasm_rot n =
     (if n = 16 then wasm_rot16 else if n = 12 then wasm_rot12 else if n = 8 then wasm_rot8 else wasm_rot7)"

definition wasm_shuffle :: "vec \<Rightarrow> vec \<Rightarrow> nat \<Rightarrow> nat \<Rightarrow> nat \<Rightarrow> nat \<Rightarrow> vec" where
  "wasm_shuffle a b z y x w = i32x4_shuffle w x (y + 4) (z + 4) a b"

definition wasm_unpacklo_epi64 :: "vec \<Rightarrow> vec \<Rightarrow> vec" where
  "wasm_unpacklo_epi64 a b = i64x2_shuffle 0 2 a b"

definition wasm_unpackhi_epi64 :: "vec \<Rightarrow> vec \<Rightarrow> vec" where
  "wasm_unpackhi_epi64 a b = i64x2_shuffle 1 3 a b"

definition wasm_unpacklo_epi32 :: "vec \<Rightarrow> vec \<Rightarrow> vec" where
  "wasm_unpacklo_epi32 a b = i32x4_shuffle 0 4 1 5 a b"

definition wasm_unpackhi_epi32 :: "vec \<Rightarrow> vec \<Rightarrow> vec" where
  "wasm_unpackhi_epi32 a b = i32x4_shuffle 2 6 3 7 a b"

definition wasm_shuffle_epi32 :: "vec \<Rightarrow> nat \<Rightarrow> nat \<Rightarrow> nat \<Rightarrow> nat \<Rightarrow> vec" where
  "wasm_shuffle_epi32 a i3 i2 i1 i0 = i32x4_shuffle i0 i1 i2 i3 a a"

definition wasm_blend_epi16 :: "vec \<Rightarrow> vec \<Rightarrow> 16 word \<Rightarrow> vec" where
  "wasm_blend_epi16 a b imm8 =
     (let bits = of_lanes16 [0x01, 0x02, 0x04, 0x08, 0x10, 0x20, 0x40, 0x80];
          mask = set1_epi16 imm8;
          mask = vand mask bits;
          mask = cmpeq_epi16 mask bits
      in v128_bitselect b a mask)"

text \<open>The functions with the text of \<open>rust_sse2.rs\<close>.\<close>

definition wasm_compress_pre :: "cv_words \<Rightarrow> bytes \<Rightarrow> u8 \<Rightarrow> u64 \<Rightarrow> u8 \<Rightarrow> rows" where
  "wasm_compress_pre = sse_compress_pre wasm_rot wasm_blend_epi16"

definition wasm_compress_in_place :: "cv_words \<Rightarrow> bytes \<Rightarrow> u8 \<Rightarrow> u64 \<Rightarrow> u8 \<Rightarrow> cv_words" where
  "wasm_compress_in_place = sse_compress_in_place wasm_rot wasm_blend_epi16"

definition wasm_compress_xof :: "cv_words \<Rightarrow> bytes \<Rightarrow> u8 \<Rightarrow> u64 \<Rightarrow> u8 \<Rightarrow> bytes" where
  "wasm_compress_xof = sse_compress_xof wasm_rot wasm_blend_epi16"

definition wasm_hash4 :: "bytes list \<Rightarrow> nat \<Rightarrow> cv_words \<Rightarrow> u64 \<Rightarrow> bool \<Rightarrow> u8 \<Rightarrow> u8 \<Rightarrow> u8 \<Rightarrow> bytes" where
  "wasm_hash4 = hash4 wasm_rot"

definition wasm_hash_many ::
  "nat \<Rightarrow> bytes list \<Rightarrow> cv_words \<Rightarrow> u64 \<Rightarrow> bool \<Rightarrow> u8 \<Rightarrow> u8 \<Rightarrow> u8 \<Rightarrow> bytes \<Rightarrow> bytes"
where
  "wasm_hash_many = sse_hash_many wasm_hash4 wasm_compress_in_place"

text \<open>The shuffles are the intrinsics of the same name.\<close>

lemma wasm_shuffles:
  "wasm_unpacklo_epi64 = unpacklo_epi64" "wasm_unpackhi_epi64 = unpackhi_epi64"
  "wasm_unpacklo_epi32 = unpacklo_epi32" "wasm_unpackhi_epi32 = unpackhi_epi32"
  "x < 4 \<Longrightarrow> w < 4 \<Longrightarrow> wasm_shuffle a b z y x w = shuffle2 a b z y x w"
  "z < 4 \<Longrightarrow> y < 4 \<Longrightarrow> x < 4 \<Longrightarrow> w < 4 \<Longrightarrow> wasm_shuffle_epi32 a z y x w = shuffle_epi32 a z y x w"
  by (simp_all add: fun_eq_iff wasm_unpacklo_epi64_def wasm_unpackhi_epi64_def wasm_unpacklo_epi32_def
      wasm_unpackhi_epi32_def unpacklo_epi64_def unpackhi_epi64_def unpacklo_epi32_def unpackhi_epi32_def
      i64x2_shuffle_def i32x4_shuffle_def wasm_shuffle_def shuffle2_def wasm_shuffle_epi32_def shuffle_epi32_def
      numeral_2_eq_2 numeral_3_eq_3)

subsection \<open>The byte shuffles rotate\<close>

lemma le_word_rotated:
  fixes w :: u32
  shows "le_word [u32_bytes w ! 2, u32_bytes w ! 3, u32_bytes w ! 0, u32_bytes w ! 1] = rotate_right w 16"
    and "le_word [u32_bytes w ! 1, u32_bytes w ! 2, u32_bytes w ! 3, u32_bytes w ! 0] = rotate_right w 8"
proof -
  have b: "u32_bytes w = [ucast w, ucast (drop_bit 8 w), ucast (drop_bit 16 w), ucast (drop_bit 24 w)]"
    by (simp add: numeral_eq_Suc)
  have split: "n < 8 \<or> 8 \<le> n \<and> n < 16 \<or> 16 \<le> n \<and> n < 24 \<or> 24 \<le> n \<and> n < 32"
    if "n < LENGTH(32)" for n using that by auto
  have hi: "bit w n \<Longrightarrow> n < 32" for n using bit_imp_le_length [of w n] by simp
  show "le_word [u32_bytes w ! 2, u32_bytes w ! 3, u32_bytes w ! 0, u32_bytes w ! 1] = rotate_right w 16"
    unfolding b rotate_right_shifts [of 16 16, simplified]
    by (rule bit_word_eqI, drule split) (elim disjE conjE; simp add: bit_simps; use hi in force)
  show "le_word [u32_bytes w ! 1, u32_bytes w ! 2, u32_bytes w ! 3, u32_bytes w ! 0] = rotate_right w 8"
    unfolding b rotate_right_shifts [of 8 24, simplified]
    by (rule bit_word_eqI, drule split) (elim disjE conjE; simp add: bit_simps; use hi in force)
qed

lemma i8x16_shuffle_words:
  assumes "length idx = 16"
  shows "i8x16_shuffle idx [a, b, c, d] [a, b, c, d] = map (\<lambda>k. le_word
    [(vstore [a, b, c, d] @ vstore [a, b, c, d]) ! (idx ! (4 * k)), (vstore [a, b, c, d] @ vstore [a, b, c, d]) ! (idx ! (4 * k + 1)),
     (vstore [a, b, c, d] @ vstore [a, b, c, d]) ! (idx ! (4 * k + 2)), (vstore [a, b, c, d] @ vstore [a, b, c, d]) ! (idx ! (4 * k + 3))]) [0..<4]"
proof -
  have "take 4 (drop (4 * k) idx) = [idx ! (4 * k), idx ! (4 * k + 1), idx ! (4 * k + 2), idx ! (4 * k + 3)]"
    if "k < 4" for k
    using subslice_quad [OF assms that] by (simp add: subslice_def)
  then show ?thesis
    by (simp add: i8x16_shuffle_def le_words_def drop_map take_map)
qed

lemma list_4: "length v = 4 \<Longrightarrow> v = [v ! 0, v ! 1, v ! 2, v ! 3 :: u32]"
  using subslice_4 [of 4 0 v] by (simp add: subslice_def numeral_2_eq_2)

lemma nth_vstore:
  "k < length v \<Longrightarrow> i < 4 \<Longrightarrow> vstore v ! (4 * k + i) = u32_bytes (v ! k) ! i"
proof (induction v arbitrary: k)
  case (Cons w v)
  then show ?case by (cases k) (simp_all add: vstore_def nth_append)
qed simp

lemma wasm_rot_ok: "rot_ok 4 wasm_rot"
proof -
  have shuffles: "wasm_rot16 v = map (\<lambda>w. rotate_right w 16) v" "wasm_rot8 v = map (\<lambda>w. rotate_right w 8) v"
    if v: "length v = 4" for v
  proof -
    obtain a b c d where abcd: "v = [a, b, c, d]" using list_4 [OF v] by blast
    have b: "(vstore v @ vstore v) ! (4 * k + i) = u32_bytes (v ! k) ! i" if "k < 4" "i < 4" for k i
      using nth_vstore [of k v i] that v by (simp add: nth_append vstore_def)
    note bs = b [of 0 0] b [of 0 1] b [of 0 2] b [of 0 3] b [of 1 0] b [of 1 1] b [of 1 2] b [of 1 3]
      b [of 2 0] b [of 2 1] b [of 2 2] b [of 2 3] b [of 3 0] b [of 3 1] b [of 3 2] b [of 3 3]
    show "wasm_rot16 v = map (\<lambda>w. rotate_right w 16) v" "wasm_rot8 v = map (\<lambda>w. rotate_right w 8) v"
      using bs unfolding wasm_rot16_def wasm_rot8_def abcd
      by (simp_all add: i8x16_shuffle_words upt_4 numeral_2_eq_2 numeral_3_eq_3 flip: le_word_rotated)
  qed
  moreover have "wasm_rot12 v = vrotr 12 v" "wasm_rot7 v = vrotr 7 v" for v
    by (simp_all add: wasm_rot12_def wasm_rot7_def vrotr_def)
  ultimately show ?thesis by (simp add: rot_ok_def wasm_rot_def)
qed

lemma wasm_blend_ok: "blend_ok wasm_blend_epi16"
proof -
  have CC: "cmpeq_epi16 (vand (set1_epi16 0xCC) (of_lanes16 [0x01, 0x02, 0x04, 0x08, 0x10, 0x20, 0x40, 0x80]))
      (of_lanes16 [0x01, 0x02, 0x04, 0x08, 0x10, 0x20, 0x40, 0x80]) = [0, - 1, 0, - 1]"
    by code_simp
  have C0: "cmpeq_epi16 (vand (set1_epi16 0xC0) (of_lanes16 [0x01, 0x02, 0x04, 0x08, 0x10, 0x20, 0x40, 0x80]))
      (of_lanes16 [0x01, 0x02, 0x04, 0x08, 0x10, 0x20, 0x40, 0x80]) = [0, 0, 0, - 1]"
    by code_simp
  show ?thesis
    unfolding blend_ok_def wasm_blend_epi16_def Let_def CC C0
    by (simp add: v128_bitselect_def vand_def vandnot_def vor_def)
qed

subsection \<open>The kernels equal the portable ones\<close>

lemma wasm_compress_ok: "compress_ok wasm_compress_in_place"
  by (simp add: compress_ok_def wasm_compress_in_place_def sse_compress_in_place_eq wasm_blend_ok wasm_rot_ok)

lemma wasm_compress_xof_eq: "length cv = 8 \<Longrightarrow> wasm_compress_xof cv block bl c f = compress_xof cv block bl c f"
  by (simp add: wasm_compress_xof_def sse_compress_xof_eq wasm_blend_ok wasm_rot_ok)

lemma wasm_hash_many_eq:
  "length key = 8 \<Longrightarrow> N mod 64 = 0 \<Longrightarrow> \<forall>x \<in> set inputs. length x = N \<Longrightarrow> 32 * length inputs \<le> length out \<Longrightarrow>
   wasm_hash_many N inputs key c inc f fs fe out = hash_many inputs key c inc f fs fe out"
  by (simp add: wasm_hash_many_def wasm_hash4_def sse_hash_many_eq wasm_compress_ok wasm_rot_ok)

end
