(* ===== verification/Blake3_Pure.thy ===== *)
theory Blake3_Pure
  imports Blake3_Wasm Blake3_Platform
begin

section \<open>Builds whose kernels are the Rust files\<close>

text \<open>
  With the \<open>pure\<close> feature on x86 (\<open>blake3_sse2_rust\<close>, \<open>blake3_sse41_rust\<close>, \<open>blake3_avx2_rust\<close>)
  and with \<open>wasm32_simd\<close>, the kernels behind \<open>platform.rs\<close> are the Rust files of the crate.  Such a
  build meets the contract \<open>kernels_ok\<close> of the dispatch, so nothing is assumed of its kernels.
\<close>

text \<open>The constant length of the inputs of a call; every slice a caller passes has it.\<close>

definition input_len :: "bytes list \<Rightarrow> nat" where
  "input_len inputs = (case inputs of [] \<Rightarrow> BLOCK_LEN | inp # _ \<Rightarrow> length inp)"

fun rust_compress_in_place :: "platform_kind \<Rightarrow> compress_fn" where
  "rust_compress_in_place SSE2 = sse2_compress_in_place"
| "rust_compress_in_place SSE41 = sse41_compress_in_place"
| "rust_compress_in_place WASM32_SIMD = wasm_compress_in_place"
| "rust_compress_in_place _ = compress_in_place"

fun rust_compress_xof :: "platform_kind \<Rightarrow> compress_xof_fn" where
  "rust_compress_xof SSE2 = sse2_compress_xof"
| "rust_compress_xof SSE41 = sse41_compress_xof"
| "rust_compress_xof WASM32_SIMD = wasm_compress_xof"
| "rust_compress_xof _ = compress_xof"

definition rust_hash_many :: "platform_kind \<Rightarrow> hash_many_fn" where
  "rust_hash_many k inputs key counter inc flags fs fe out =
     Some (case k of
         SSE2 \<Rightarrow> sse2_hash_many (input_len inputs) inputs key counter inc flags fs fe out
       | SSE41 \<Rightarrow> sse41_hash_many (input_len inputs) inputs key counter inc flags fs fe out
       | AVX2 \<Rightarrow> avx2_hash_many (input_len inputs) inputs key counter inc flags fs fe out
       | WASM32_SIMD \<Rightarrow> wasm_hash_many (input_len inputs) inputs key counter inc flags fs fe out
       | _ \<Rightarrow> hash_many inputs key counter inc flags fs fe out)"

text \<open>
  What the processor detects stays a parameter.  Such a build has neither the AVX-512 nor the NEON
  kernels, which exist in C and assembly only.
\<close>

definition rust_build :: "b3_build \<Rightarrow> b3_build" where
  "rust_build b = b\<lparr>cfg_avx512_ffi := False, cfg_neon := False,
     kern_compress_in_place := rust_compress_in_place, kern_compress_xof := rust_compress_xof,
     kern_hash_many := rust_hash_many,
     kern_xof_many := \<lambda>cv block block_len counter flags out. Some (compress_xof cv block block_len counter flags)\<rparr>"

lemma rust_compress_eq:
  assumes "length cv = 8"
  shows "rust_compress_in_place k cv block bl c f = compress_in_place cv block bl c f"
    and "rust_compress_xof k cv block bl c f = compress_xof cv block bl c f"
proof -
  note in_place = sse_compress_ok [unfolded compress_ok_def] wasm_compress_ok [unfolded compress_ok_def]
  show "rust_compress_in_place k cv block bl c f = compress_in_place cv block bl c f"
    using assms in_place by (cases k) simp_all
  show "rust_compress_xof k cv block bl c f = compress_xof cv block bl c f"
    using assms
    by (cases k) (simp_all add: sse2_compress_xof_def sse41_compress_xof_def sse_compress_xof_eq mm_blend_ok
        sse2_blend_ok wasm_compress_xof_eq)
qed

lemma rust_hash_many_eq:
  assumes "length key = 8" "N mod 64 = 0" "\<forall>x \<in> set inputs. length x = N" "32 * length inputs \<le> length out"
  shows "rust_hash_many k inputs key c inc f fs fe out = Some (hash_many inputs key c inc f fs fe out)"
proof -
  have "input_len inputs mod 64 = 0" "\<forall>x \<in> set inputs. length x = input_len inputs"
    using assms(2,3) by (cases inputs; simp add: input_len_def BLOCK_LEN_def)+
  then show ?thesis
    using assms
    by (cases k) (simp_all add: rust_hash_many_def sse2_hash_many_def sse41_hash_many_def sse41_hash4_def
        sse_hash_many_eq avx2_hash_many_eq wasm_hash_many_eq)
qed

lemma rust_build_ok: "kernels_ok (rust_build b)"
  by (simp add: kernels_ok_def rust_build_def rust_compress_eq) (metis rust_hash_many_eq)

lemma rust_platform_ok: "\<not> (cfg_x86 b \<and> cfg_wasm32_simd b) \<Longrightarrow> platform_ok (detect (rust_build b))"
  by (rule detect_ok [OF rust_build_ok]) (simp add: rust_build_def)

subsection \<open>Properties\<close>

text \<open>C26. The compression functions of the SSE2, SSE4.1 and WebAssembly files, which permute the message
  words in registers and keep the state in rows, return what \<open>portable.rs\<close> returns, for every block,
  counter, length and flags.\<close>

theorem vector_compress_is_portable:
  assumes "length cv = 8"
  shows "sse2_compress_in_place cv block bl c f = compress_in_place cv block bl c f
    \<and> sse41_compress_in_place cv block bl c f = compress_in_place cv block bl c f
    \<and> wasm_compress_in_place cv block bl c f = compress_in_place cv block bl c f
    \<and> sse2_compress_xof cv block bl c f = compress_xof cv block bl c f
    \<and> sse41_compress_xof cv block bl c f = compress_xof cv block bl c f
    \<and> wasm_compress_xof cv block bl c f = compress_xof cv block bl c f"
  using rust_compress_eq [OF assms, of SSE2] rust_compress_eq [OF assms, of SSE41]
    rust_compress_eq [OF assms, of WASM32_SIMD] by simp

lemma vector_compress_is_portable_witness:
  "sse2_compress_in_place IV (replicate 64 1) 64 7 11 = compress_in_place IV (replicate 64 1) 64 7 11"
  using vector_compress_is_portable [of IV "replicate 64 1" 64 7 11] by (simp add: IV_def)

text \<open>C25. Hashing four or eight inputs in the lanes of one set of registers, with the inputs left over
  hashed one by one, writes the bytes of the portable \<open>hash_many\<close>, for any number of inputs and any
  whole number of blocks per input, with and without counting: SSE2, SSE4.1, AVX2 and WebAssembly.\<close>

theorem vector_hash_many_is_portable:
  assumes "length key = 8" and "N mod 64 = 0" and "\<forall>x \<in> set inputs. length x = N"
    and "32 * length inputs \<le> length out"
  shows "sse2_hash_many N inputs key c inc f fs fe out = hash_many inputs key c inc f fs fe out
    \<and> sse41_hash_many N inputs key c inc f fs fe out = hash_many inputs key c inc f fs fe out
    \<and> avx2_hash_many N inputs key c inc f fs fe out = hash_many inputs key c inc f fs fe out
    \<and> wasm_hash_many N inputs key c inc f fs fe out = hash_many inputs key c inc f fs fe out"
  using assms by (simp add: sse2_hash_many_def sse41_hash_many_def sse41_hash4_def sse_hash_many_eq
      avx2_hash_many_eq wasm_hash_many_eq)

lemma vector_hash_many_is_portable_witness:
  "avx2_hash_many 128 (replicate 13 (replicate 128 5)) IV 7 True 0 1 2 (replicate 416 0)
    = hash_many (replicate 13 (replicate 128 5)) IV 7 True 0 1 2 (replicate 416 0)"
  using vector_hash_many_is_portable [of IV 128 "replicate 13 (replicate 128 5)" "replicate 416 0" 7 True 0 1 2]
  by (simp add: IV_def)

text \<open>A build whose kernels are the Rust files meets the contract that the rest of BLAKE3 asks of the
  kernels, whatever the processor detects: the dispatch, the tree, the hasher and the
  encryption scheme rest on no assumption about vector code there.\<close>

theorem rust_kernels_meet_contract: "kernels_ok (rust_build b)"
  by (rule rust_build_ok)

end
