(* ===== verification/Blake3_Reference.thy ===== *)
theory Blake3_Reference
  imports Witness_Refines Blake3_Api
begin

section \<open>The reference implementation of BLAKE3\<close>

text \<open>
  \<open>blake3/reference_impl/reference_impl.rs\<close>, the readable implementation of the specification that
  the crate is tested against: no platform, one chunk at a time, 8-bit counters, and a stack of 54
  cells whose popped entries stay behind.  It is shown to compute what the fork computes in the three
  modes, for every cut of the input, without overflowing its stack or its counters.
\<close>

definition r_OUT_LEN :: nat where "r_OUT_LEN = 32"
definition r_KEY_LEN :: nat where "r_KEY_LEN = 32"
definition r_BLOCK_LEN :: nat where "r_BLOCK_LEN = 64"
definition r_CHUNK_LEN :: nat where "r_CHUNK_LEN = 1024"

definition r_CHUNK_START :: u32 where "r_CHUNK_START = push_bit 0 1"
definition r_CHUNK_END :: u32 where "r_CHUNK_END = push_bit 1 1"
definition r_PARENT :: u32 where "r_PARENT = push_bit 2 1"
definition r_ROOT :: u32 where "r_ROOT = push_bit 3 1"
definition r_KEYED_HASH :: u32 where "r_KEYED_HASH = push_bit 4 1"
definition r_DERIVE_KEY_CONTEXT :: u32 where "r_DERIVE_KEY_CONTEXT = push_bit 5 1"
definition r_DERIVE_KEY_MATERIAL :: u32 where "r_DERIVE_KEY_MATERIAL = push_bit 6 1"

definition r_IV :: "u32 list" where
  "r_IV = [0x6A09E667, 0xBB67AE85, 0x3C6EF372, 0xA54FF53A, 0x510E527F, 0x9B05688C, 0x1F83D9AB, 0x5BE0CD19]"

definition r_MSG_PERMUTATION :: "nat list" where
  "r_MSG_PERMUTATION = [2, 6, 3, 10, 7, 0, 4, 13, 1, 11, 12, 5, 9, 14, 15, 8]"

subsection \<open>Compression\<close>

definition r_g :: "u32 list \<Rightarrow> nat \<Rightarrow> nat \<Rightarrow> nat \<Rightarrow> nat \<Rightarrow> u32 \<Rightarrow> u32 \<Rightarrow> u32 list" where
  "r_g state a b c d mx my =
     (let s = state[a := state ! a + state ! b + mx];
          s = s[d := rotate_right (s ! d XOR s ! a) 16];
          s = s[c := s ! c + s ! d];
          s = s[b := rotate_right (s ! b XOR s ! c) 12];
          s = s[a := s ! a + s ! b + my];
          s = s[d := rotate_right (s ! d XOR s ! a) 8];
          s = s[c := s ! c + s ! d];
          s = s[b := rotate_right (s ! b XOR s ! c) 7]
      in s)"

definition r_round :: "u32 list \<Rightarrow> u32 list \<Rightarrow> u32 list" where
  "r_round state m =
     (let s = r_g state 0 4 8 12 (m ! 0) (m ! 1);
          s = r_g s 1 5 9 13 (m ! 2) (m ! 3);
          s = r_g s 2 6 10 14 (m ! 4) (m ! 5);
          s = r_g s 3 7 11 15 (m ! 6) (m ! 7);
          s = r_g s 0 5 10 15 (m ! 8) (m ! 9);
          s = r_g s 1 6 11 12 (m ! 10) (m ! 11);
          s = r_g s 2 7 8 13 (m ! 12) (m ! 13);
          s = r_g s 3 4 9 14 (m ! 14) (m ! 15)
      in s)"

definition r_permute :: "u32 list \<Rightarrow> u32 list" where
  "r_permute m = fold (\<lambda>i permuted. permuted[i := m ! (r_MSG_PERMUTATION ! i)]) [0..<16] (replicate 16 0)"

definition r_compress :: "u32 list \<Rightarrow> u32 list \<Rightarrow> u64 \<Rightarrow> u32 \<Rightarrow> u32 \<Rightarrow> u32 list" where
  "r_compress cv block_words counter block_len flags =
     (let counter_low = ucast counter;
          counter_high = ucast (drop_bit 32 counter);
          state = [cv ! 0, cv ! 1, cv ! 2, cv ! 3, cv ! 4, cv ! 5, cv ! 6, cv ! 7,
                   r_IV ! 0, r_IV ! 1, r_IV ! 2, r_IV ! 3, counter_low, counter_high, block_len, flags];
          block = block_words;
          state = r_round state block; block = r_permute block;
          state = r_round state block; block = r_permute block;
          state = r_round state block; block = r_permute block;
          state = r_round state block; block = r_permute block;
          state = r_round state block; block = r_permute block;
          state = r_round state block; block = r_permute block;
          state = r_round state block
      in fold (\<lambda>i state.
           let state = state[i := state ! i XOR state ! (i + 8)]
           in state[i + 8 := state ! (i + 8) XOR cv ! i]) [0..<8] state)"

definition r_first_8_words :: "u32 list \<Rightarrow> u32 list" where
  "r_first_8_words compression_output = subslice 0 8 compression_output"

text \<open>\<open>words\<close> starts as zeros; the zip stops at the shorter of the two.\<close>

definition r_words_from_little_endian_bytes :: "nat \<Rightarrow> bytes \<Rightarrow> u32 list" where
  "r_words_from_little_endian_bytes n bs =
     (let ws = take n (map le_word (chunks_exact 4 bs)) in ws @ replicate (n - length ws) 0)"

subsection \<open>\<open>Output\<close>\<close>

record r_output =
  ro_input_cv :: "u32 list"
  ro_block_words :: "u32 list"
  ro_counter :: u64
  ro_block_len :: u32
  ro_flags :: u32

definition r_chaining_value :: "r_output \<Rightarrow> u32 list" where
  "r_chaining_value ou =
     r_first_8_words (r_compress (ro_input_cv ou) (ro_block_words ou) (ro_counter ou) (ro_block_len ou) (ro_flags ou))"

text \<open>The loop over \<open>out_slice.chunks_mut(2 * OUT_LEN)\<close>, for the lengths of the pieces.\<close>

definition r_write_words :: "u32 list \<Rightarrow> nat \<Rightarrow> bytes" where
  "r_write_words ws n = concat (map (\<lambda>(w, m). take m (u32_bytes w)) (zip ws (chunk_lens 4 n)))"

fun r_output_blocks :: "r_output \<Rightarrow> u64 \<Rightarrow> nat list \<Rightarrow> bytes" where
  "r_output_blocks ou output_block_counter [] = []"
| "r_output_blocks ou output_block_counter (n # ns) =
     r_write_words (r_compress (ro_input_cv ou) (ro_block_words ou) output_block_counter (ro_block_len ou)
                     (ro_flags ou OR r_ROOT)) n
     @ r_output_blocks ou (output_block_counter + 1) ns"

definition r_root_output_bytes :: "r_output \<Rightarrow> nat \<Rightarrow> bytes" where
  "r_root_output_bytes ou n = r_output_blocks ou 0 (chunk_lens (2 * r_OUT_LEN) n)"

subsection \<open>\<open>ChunkState\<close>\<close>

record r_chunk =
  rc_cv :: "u32 list"
  rc_counter :: u64
  rc_block :: bytes
  rc_block_len :: u8
  rc_blocks_compressed :: u8
  rc_flags :: u32

definition r_chunk_new :: "u32 list \<Rightarrow> u64 \<Rightarrow> u32 \<Rightarrow> r_chunk" where
  "r_chunk_new key counter flags =
     \<lparr>rc_cv = key, rc_counter = counter, rc_block = replicate r_BLOCK_LEN 0, rc_block_len = 0,
      rc_blocks_compressed = 0, rc_flags = flags\<rparr>"

definition r_chunk_len :: "r_chunk \<Rightarrow> nat" where
  "r_chunk_len c = r_BLOCK_LEN * unat (rc_blocks_compressed c) + unat (rc_block_len c)"

definition r_start_flag :: "r_chunk \<Rightarrow> u32" where
  "r_start_flag c = (if rc_blocks_compressed c = 0 then r_CHUNK_START else 0)"

text \<open>The first half of the loop of \<open>update\<close>: a full block is compressed and cleared.\<close>

definition r_flush :: "r_chunk \<Rightarrow> r_chunk" where
  "r_flush c =
     (if unat (rc_block_len c) = r_BLOCK_LEN then
        let block_words = r_words_from_little_endian_bytes 16 (rc_block c)
        in c\<lparr>rc_cv := r_first_8_words (r_compress (rc_cv c) block_words (rc_counter c) (of_nat r_BLOCK_LEN)
                (rc_flags c OR r_start_flag c)),
             rc_blocks_compressed := rc_blocks_compressed c + 1,
             rc_block := replicate r_BLOCK_LEN 0, rc_block_len := 0\<rparr>
      else c)"

text \<open>\<open>None\<close>: the block length would exceed the block, which the invariant excludes.\<close>

function r_chunk_update :: "r_chunk \<Rightarrow> bytes \<Rightarrow> r_chunk option" where
  "r_chunk_update c inp =
     (if inp \<noteq> [] then
        let c = r_flush c;
            want = r_BLOCK_LEN - unat (rc_block_len c);
            n = min want (length inp)
        in if r_BLOCK_LEN \<le> unat (rc_block_len c) then None
           else r_chunk_update
             (c\<lparr>rc_block := put_slice (unat (rc_block_len c)) (take n inp) (rc_block c),
                rc_block_len := rc_block_len c + of_nat n\<rparr>) (drop n inp)
      else Some c)"
  by pat_completeness auto
termination
  by (relation "measure (\<lambda>(c, inp). length inp)") auto

declare r_chunk_update.simps [simp del]

definition r_chunk_output :: "r_chunk \<Rightarrow> r_output" where
  "r_chunk_output c =
     \<lparr>ro_input_cv = rc_cv c, ro_block_words = r_words_from_little_endian_bytes 16 (rc_block c),
      ro_counter = rc_counter c, ro_block_len = ucast (rc_block_len c),
      ro_flags = rc_flags c OR r_start_flag c OR r_CHUNK_END\<rparr>"

definition r_parent_output :: "u32 list \<Rightarrow> u32 list \<Rightarrow> u32 list \<Rightarrow> u32 \<Rightarrow> r_output" where
  "r_parent_output left_child_cv right_child_cv key flags =
     \<lparr>ro_input_cv = key,
      ro_block_words = put_slice 8 right_child_cv (put_slice 0 left_child_cv (replicate 16 0)),
      ro_counter = 0, ro_block_len = of_nat r_BLOCK_LEN, ro_flags = r_PARENT OR flags\<rparr>"

definition r_parent_cv :: "u32 list \<Rightarrow> u32 list \<Rightarrow> u32 list \<Rightarrow> u32 \<Rightarrow> u32 list" where
  "r_parent_cv left_child_cv right_child_cv key flags =
     r_chaining_value (r_parent_output left_child_cv right_child_cv key flags)"

subsection \<open>\<open>Hasher\<close>\<close>

record r_hasher =
  rh_chunk :: r_chunk
  rh_key_words :: "u32 list"
  rh_cv_stack :: "u32 list list"
  rh_cv_stack_len :: u8
  rh_flags :: u32

definition r_new_internal :: "u32 list \<Rightarrow> u32 \<Rightarrow> r_hasher" where
  "r_new_internal key flags =
     \<lparr>rh_chunk = r_chunk_new key 0 flags, rh_key_words = key,
      rh_cv_stack = replicate 54 (replicate 8 0), rh_cv_stack_len = 0, rh_flags = flags\<rparr>"

definition r_new :: r_hasher where
  "r_new = r_new_internal r_IV 0"

definition r_new_keyed :: "bytes \<Rightarrow> r_hasher" where
  "r_new_keyed key =
     (let key = r_words_from_little_endian_bytes 8 key in r_new_internal key r_KEYED_HASH)"

definition r_push_stack :: "r_hasher \<Rightarrow> u32 list \<Rightarrow> r_hasher option" where
  "r_push_stack h cv =
     do {
       assert_that (unat (rh_cv_stack_len h) < length (rh_cv_stack h));
       Some (h\<lparr>rh_cv_stack := (rh_cv_stack h)[unat (rh_cv_stack_len h) := cv],
               rh_cv_stack_len := rh_cv_stack_len h + 1\<rparr>)
     }"

text \<open>On an empty stack the length wraps to 255, or the subtraction panics; then the index panics.\<close>

definition r_pop_stack :: "r_hasher \<Rightarrow> (r_hasher \<times> u32 list) option" where
  "r_pop_stack h =
     do {
       assert_that (rh_cv_stack_len h \<noteq> 0);
       let n = rh_cv_stack_len h - 1;
       assert_that (unat n < length (rh_cv_stack h));
       Some (h\<lparr>rh_cv_stack_len := n\<rparr>, rh_cv_stack h ! unat n)
     }"

lemma r_pop_smaller: "r_pop_stack h = Some (h', cv) \<Longrightarrow> unat (rh_cv_stack_len h') < unat (rh_cv_stack_len h)"
proof -
  assume "r_pop_stack h = Some (h', cv)"
  then have "rh_cv_stack_len h \<noteq> 0" "rh_cv_stack_len h' = rh_cv_stack_len h - 1"
    by (auto simp: r_pop_stack_def bind_eq_Some_conv Let_def)
  then show ?thesis using unat_gt_0 [of "rh_cv_stack_len h"] by (simp add: unat_minus_one)
qed

function r_merge_loop :: "r_hasher \<Rightarrow> u32 list \<Rightarrow> u64 \<Rightarrow> (r_hasher \<times> u32 list) option" where
  "r_merge_loop h new_cv total_chunks =
     (if total_chunks AND 1 = 0 then
        (case r_pop_stack h of
           None \<Rightarrow> None
         | Some (h', left) \<Rightarrow>
             r_merge_loop h' (r_parent_cv left new_cv (rh_key_words h') (rh_flags h')) (drop_bit 1 total_chunks))
      else Some (h, new_cv))"
  by pat_completeness auto
termination
  by (relation "measure (\<lambda>(h, new_cv, total_chunks). unat (rh_cv_stack_len h))") (auto dest: r_pop_smaller)

declare r_merge_loop.simps [simp del]

definition r_add_chunk_chaining_value :: "r_hasher \<Rightarrow> u32 list \<Rightarrow> u64 \<Rightarrow> r_hasher option" where
  "r_add_chunk_chaining_value h new_cv total_chunks =
     do {
       (h, new_cv) \<leftarrow> r_merge_loop h new_cv total_chunks;
       r_push_stack h new_cv
     }"

definition r_roll_chunk :: "r_hasher \<Rightarrow> r_hasher option" where
  "r_roll_chunk h =
     (if r_chunk_len (rh_chunk h) = r_CHUNK_LEN then do {
        let chunk_cv = r_chaining_value (r_chunk_output (rh_chunk h));
        let total_chunks = rc_counter (rh_chunk h) + 1;
        h \<leftarrow> r_add_chunk_chaining_value h chunk_cv total_chunks;
        Some (h\<lparr>rh_chunk := r_chunk_new (rh_key_words h) total_chunks (rh_flags h)\<rparr>)
      } else Some h)"

function r_update :: "r_hasher \<Rightarrow> bytes \<Rightarrow> r_hasher option" where
  "r_update h inp =
     (if inp \<noteq> [] then
        do {
          h \<leftarrow> r_roll_chunk h;
          let want = r_CHUNK_LEN - r_chunk_len (rh_chunk h);
          let n = min want (length inp);
          assert_that (0 < n);
          c \<leftarrow> r_chunk_update (rh_chunk h) (take n inp);
          r_update (h\<lparr>rh_chunk := c\<rparr>) (drop n inp)
        }
      else Some h)"
  by pat_completeness auto
termination
  by (relation "measure (\<lambda>(h, inp). length inp)") (auto split: if_splits)

declare r_update.simps [simp del]

text \<open>\<open>finalize\<close> counts \<open>parent_nodes_remaining\<close> down over the live cells.\<close>

fun r_parents :: "u32 list list \<Rightarrow> u32 list \<Rightarrow> u32 \<Rightarrow> nat \<Rightarrow> r_output \<Rightarrow> r_output" where
  "r_parents stack key flags 0 ou = ou"
| "r_parents stack key flags (Suc n) ou =
     r_parents stack key flags n (r_parent_output (stack ! n) (r_chaining_value ou) key flags)"

definition r_finalize :: "r_hasher \<Rightarrow> nat \<Rightarrow> bytes option" where
  "r_finalize h n =
     do {
       assert_that (unat (rh_cv_stack_len h) \<le> length (rh_cv_stack h));
       let ou = r_chunk_output (rh_chunk h);
       let ou = r_parents (rh_cv_stack h) (rh_key_words h) (rh_flags h) (unat (rh_cv_stack_len h)) ou;
       Some (r_root_output_bytes ou n)
     }"

definition r_new_derive_key :: "bytes \<Rightarrow> r_hasher option" where
  "r_new_derive_key cx =
     do {
       let context_hasher = r_new_internal r_IV r_DERIVE_KEY_CONTEXT;
       context_hasher \<leftarrow> r_update context_hasher cx;
       context_key \<leftarrow> r_finalize context_hasher r_KEY_LEN;
       let context_key_words = r_words_from_little_endian_bytes 8 context_key;
       Some (r_new_internal context_key_words r_DERIVE_KEY_MATERIAL)
     }"

fun r_updates :: "r_hasher \<Rightarrow> bytes list \<Rightarrow> r_hasher option" where
  "r_updates h [] = Some h"
| "r_updates h (p # ps) = r_update h p \<bind> (\<lambda>h. r_updates h ps)"

subsection \<open>The compression functions agree\<close>

lemma r_g_eq: "r_g = w_mix"
  by (intro ext) (simp add: r_g_def w_mix_def)

lemma r_round_eq: "r_round = w_round"
  by (intro ext) (simp add: r_round_def w_round_def r_g_eq)

lemma r_permute_eq: "r_permute m = w_permute m"
  by (simp add: r_permute_def w_permute_def upt_16 r_MSG_PERMUTATION_def w_MSG_PERMUTATION_def numeral_eq_Suc)

lemma length_w_round [simp]: "length (w_round s m) = length s"
  by (simp add: w_round_def w_mix_eq Let_def)

text \<open>The last loop reads only words it has not written yet.\<close>

lemma r_final_loop_prefix:
  assumes "length s = 16"
  shows "n \<le> 8 \<Longrightarrow>
    fold (\<lambda>i s. s[i := s ! i XOR s ! (i + 8), i + 8 := s[i := s ! i XOR s ! (i + 8)] ! (i + 8) XOR cv ! i]) [0..<n] s
    = map (\<lambda>i. if i < n then s ! i XOR s ! (i + 8) else if 8 \<le> i \<and> i < n + 8 then s ! i XOR cv ! (i - 8) else s ! i) [0..<16]"
proof (induction n)
  case 0
  show ?case using assms by (intro nth_equalityI) auto
next
  case (Suc n)
  then show ?case by (intro nth_equalityI) (auto simp: nth_list_update less_Suc_eq)
qed

lemma r_final_loop:
  assumes "length s = 16"
  shows "fold (\<lambda>i s. s[i := s ! i XOR s ! (i + 8), i + 8 := s[i := s ! i XOR s ! (i + 8)] ! (i + 8) XOR cv ! i]) [0..<8] s
    = map (\<lambda>i. s ! i XOR s ! (i + 8)) [0..<8] @ map (\<lambda>i. s ! (i + 8) XOR cv ! i) [0..<8]"
  unfolding r_final_loop_prefix [OF assms order_refl]
  by (rule nth_equalityI) (auto simp: nth_append)

lemma w_seven_rounds:
  "fst (((\<lambda>(state, m). (w_round state m, w_permute m)) ^^ 7) (s, m))
    = w_round (w_round (w_round (w_round (w_round (w_round (w_round s m) (w_permute m)) (w_permute (w_permute m)))
        (w_permute (w_permute (w_permute m)))) (w_permute (w_permute (w_permute (w_permute m)))))
        (w_permute (w_permute (w_permute (w_permute (w_permute m))))))
        (w_permute (w_permute (w_permute (w_permute (w_permute (w_permute m))))))"
  by (simp add: numeral_eq_Suc)

lemma r_compress_eq: "r_compress = w_compress"
proof (intro ext)
  fix cv bw c l f
  have iv: "r_IV = w_BLAKE3_IV" by (simp add: r_IV_def w_BLAKE3_IV_def)
  show "r_compress cv bw c l f = w_compress cv bw c l f"
    unfolding r_compress_def w_compress_def Let_def r_round_eq r_permute_eq iv case_prod_beta [of _ "(_ ^^ 7) _"]
      w_seven_rounds
    by (rule r_final_loop) simp
qed

lemma r_flag_constants:
  "r_CHUNK_START = w_CHUNK_START" "r_CHUNK_END = w_CHUNK_END" "r_PARENT = w_PARENT" "r_ROOT = w_ROOT"
  by (simp_all add: r_CHUNK_START_def w_CHUNK_START_def r_CHUNK_END_def w_CHUNK_END_def r_PARENT_def w_PARENT_def
      r_ROOT_def w_ROOT_def)

lemma r_words_eq: "length bs = 4 * n \<Longrightarrow> r_words_from_little_endian_bytes n bs = le_words n bs"
proof -
  have "map le_word (chunks_exact 4 bs) = le_words n bs" if "length bs = 4 * n" for bs
    using that
  proof (induction n arbitrary: bs)
    case (Suc n)
    then have "chunks_exact 4 bs = take 4 bs # chunks_exact 4 (drop 4 bs)" by (subst chunks_exact.simps) simp
    then show ?case using Suc by (simp add: le_words_Suc)
  qed simp
  then show "length bs = 4 * n \<Longrightarrow> ?thesis" by (simp add: r_words_from_little_endian_bytes_def Let_def)
qed

lemma r_first_8_eq: "r_first_8_words = w_first8"
  by (simp add: fun_eq_iff r_first_8_words_def w_first8_def)

subsection \<open>Outputs agree\<close>

definition ro_of :: "w_output \<Rightarrow> r_output" where
  "ro_of ou = \<lparr>ro_input_cv = wo_input_cv ou, ro_block_words = wo_block_words ou, ro_counter = wo_counter ou,
     ro_block_len = wo_block_len ou, ro_flags = wo_flags ou\<rparr>"

lemma r_chaining_value_of: "r_chaining_value (ro_of ou) = w_chaining_value ou"
  by (simp add: r_chaining_value_def w_chaining_value_def ro_of_def r_compress_eq r_first_8_eq)

lemma r_parent_output_of: "r_parent_output l r key f = ro_of (w_parent_output l r key f)"
  by (simp add: r_parent_output_def w_parent_output_def ro_of_def r_BLOCK_LEN_def w_BLAKE3_BLOCK_def r_flag_constants
      or.commute)

lemma r_parent_cv_of: "r_parent_cv l r key f = w_parent_cv l r key f"
  by (simp add: r_parent_cv_def w_parent_cv_def r_parent_output_of r_chaining_value_of)

lemma r_write_words_of: "r_write_words ws n = w_write_words ws n"
  unfolding r_write_words_def w_write_words_def
  by (intro arg_cong [where f = concat] map_cong)
    (auto dest!: set_zip_rightD chunk_lens_le [rotated] simp: word_pieces)

lemma r_output_blocks_of:
  "r_output_blocks (ro_of ou) (of_nat c) ns
    = concat (map (\<lambda>(counter, m).
         w_write_words (w_compress (wo_input_cv ou) (wo_block_words ou) (of_nat counter) (wo_block_len ou)
                          (wo_flags ou OR w_ROOT)) m) (zip [c..<c + length ns] ns))"
proof (induction ns arbitrary: c)
  case (Cons n ns)
  have "[c..<c + length (n # ns)] = c # [Suc c..<Suc c + length ns]" by (simp add: upt_conv_Cons del: upt_Suc)
  then show ?case
    using Cons [of "Suc c"]
    by (simp add: r_write_words_of r_compress_eq r_flag_constants ro_of_def add.commute del: upt_Suc)
qed simp

lemma r_root_output_of: "r_root_output_bytes (ro_of ou) n = w_root_output_bytes ou n"
  using r_output_blocks_of [of ou 0] by (simp add: r_root_output_bytes_def w_root_output_bytes_def r_OUT_LEN_def)

subsection \<open>Chunk states agree\<close>

definition rc_of :: "w_chunk \<Rightarrow> r_chunk" where
  "rc_of c = \<lparr>rc_cv = wc_cv c, rc_counter = wc_counter c, rc_block = wc_block c,
     rc_block_len = of_nat (wc_block_len c), rc_blocks_compressed = of_nat (wc_blocks_compressed c),
     rc_flags = wc_flags c\<rparr>"

definition small_chunk :: "w_chunk \<Rightarrow> nat \<Rightarrow> bool" where
  "small_chunk c n \<longleftrightarrow> wc_block_len c \<le> 64 \<and> length (wc_block c) = 64
     \<and> 64 * wc_blocks_compressed c + wc_block_len c + n \<le> 1024"

lemma unat_u8: "n < 256 \<Longrightarrow> unat (of_nat n :: u8) = n"
  by (simp add: unat_of_nat take_bit_nat_eq_self)

lemma small_chunk_fields:
  assumes "small_chunk c n"
  shows "unat (rc_block_len (rc_of c)) = wc_block_len c"
    "unat (rc_blocks_compressed (rc_of c)) = wc_blocks_compressed c"
    "rc_blocks_compressed (rc_of c) = 0 \<longleftrightarrow> wc_blocks_compressed c = 0"
proof -
  show "unat (rc_block_len (rc_of c)) = wc_block_len c"
    and b: "unat (rc_blocks_compressed (rc_of c)) = wc_blocks_compressed c"
    using assms by (simp_all add: small_chunk_def rc_of_def unat_u8)
  show "rc_blocks_compressed (rc_of c) = 0 \<longleftrightarrow> wc_blocks_compressed c = 0"
    using b by (metis unat_eq_zero)
qed

lemma r_start_flag_of: "small_chunk c n \<Longrightarrow> r_start_flag (rc_of c) = w_start_flag c"
  by (simp add: r_start_flag_def w_start_flag_def small_chunk_fields r_flag_constants)

lemma r_block_words_of: "small_chunk c n \<Longrightarrow> r_words_from_little_endian_bytes 16 (wc_block c) = w_words_from_le_bytes (wc_block c)"
  by (simp add: small_chunk_def r_words_eq w_words_eq words_from_le_bytes_64_def)

lemma r_flush_of:
  assumes "small_chunk c n"
  shows "r_flush (rc_of c) = rc_of (w_flush c)" and "small_chunk (w_flush c) n" and "0 < n \<Longrightarrow> wc_block_len (w_flush c) < 64"
proof -
  show "r_flush (rc_of c) = rc_of (w_flush c)"
    unfolding r_flush_def w_flush_def small_chunk_fields [OF assms] r_start_flag_of [OF assms]
    using r_block_words_of [OF assms]
    by (simp add: rc_of_def r_BLOCK_LEN_def w_BLAKE3_BLOCK_def r_compress_eq r_first_8_eq Let_def)
  show "small_chunk (w_flush c) n" and "0 < n \<Longrightarrow> wc_block_len (w_flush c) < 64"
    using assms by (auto simp: small_chunk_def w_flush_def w_BLAKE3_BLOCK_def Let_def)
qed

lemma r_chunk_update_of:
  "w_chunk_update c inp = Some c' \<Longrightarrow> small_chunk c (length inp) \<Longrightarrow> r_chunk_update (rc_of c) inp = Some (rc_of c')"
proof (induction c inp arbitrary: c' rule: w_chunk_update.induct)
  case (1 c inp)
  show ?case
  proof (cases "inp = []")
    case True
    then show ?thesis using 1 by (simp add: w_chunk_update.simps r_chunk_update.simps)
  next
    case False
    then have pos: "0 < length inp" by simp
    note fl = r_flush_of [OF "1.prems"(2)]
    let ?d = "w_flush c" and ?n = "min (64 - wc_block_len (w_flush c)) (length inp)"
    let ?e = "?d\<lparr>wc_block := put_slice (wc_block_len ?d) (take ?n inp) (wc_block ?d),
      wc_block_len := wc_block_len ?d + ?n\<rparr>"
    have lt: "wc_block_len ?d < 64" using fl(3) pos by simp
    have rest: "w_chunk_update ?e (drop ?n inp) = Some c'"
      using "1.prems"(1) False lt by (subst (asm) w_chunk_update.simps) (simp add: Let_def w_BLAKE3_BLOCK_def)
    have small: "small_chunk ?e (length (drop ?n inp))"
      using fl(2) lt by (auto simp: small_chunk_def)
    have "r_chunk_update (rc_of ?e) (drop ?n inp) = Some (rc_of c')"
      using "1.IH" [OF False refl refl refl] lt rest small by (simp add: w_BLAKE3_BLOCK_def)
    moreover have "(rc_of ?d)\<lparr>rc_block := put_slice (wc_block_len ?d) (take ?n inp) (rc_block (rc_of ?d)),
        rc_block_len := rc_block_len (rc_of ?d) + of_nat ?n\<rparr> = rc_of ?e"
      by (simp add: rc_of_def)
    ultimately show ?thesis
      using False lt by (subst r_chunk_update.simps) (simp add: fl(1) small_chunk_fields [OF fl(2)] r_BLOCK_LEN_def Let_def)
  qed
qed

lemma r_chunk_output_of:
  assumes "small_chunk c n"
  shows "r_chunk_output (rc_of c) = ro_of (w_chunk_output c)"
proof -
  have "(ucast (of_nat (wc_block_len c) :: u8) :: u32) = of_nat (wc_block_len c)"
    using assms by (intro ucast_small) (simp add: small_chunk_def)
  then show ?thesis
    using r_block_words_of [OF assms] r_start_flag_of [OF assms]
    by (simp add: r_chunk_output_def w_chunk_output_def ro_of_def r_flag_constants del: unsigned_of_nat)
      (simp add: rc_of_def del: unsigned_of_nat)
qed

subsection \<open>Hashers agree\<close>

text \<open>The live cells are equal; below and above them the arrays may differ.\<close>

definition rstack :: "r_hasher \<Rightarrow> w_cv_stack \<Rightarrow> bool" where
  "rstack r st \<longleftrightarrow> length (rh_cv_stack r) = 54 \<and> stack_len st \<le> 54 \<and> length (cvs st) = 64
     \<and> rh_cv_stack_len r = of_nat (stack_len st)
     \<and> take (stack_len st) (rh_cv_stack r) = take (stack_len st) (cvs st)"

definition rsim :: "r_hasher \<Rightarrow> w_hasher \<Rightarrow> bool" where
  "rsim r h \<longleftrightarrow> rh_chunk r = rc_of (wh_chunk h) \<and> rh_key_words r = wh_key_words h \<and> rh_flags r = wh_flags h
     \<and> rstack r (wh_cv_stack h)"

lemma rstack_unat: "rstack r st \<Longrightarrow> unat (rh_cv_stack_len r) = stack_len st"
  by (simp add: rstack_def unat_u8)

lemma rstack_zero: "rstack r st \<Longrightarrow> rh_cv_stack_len r = 0 \<longleftrightarrow> stack_len st = 0"
  using rstack_unat [of r st] by (metis unat_eq_zero)

lemma rstack_pop:
  assumes "rstack r st" "stack_len st \<noteq> 0"
  shows "r_pop_stack r = Some (r\<lparr>rh_cv_stack_len := rh_cv_stack_len r - 1\<rparr>, cvs st ! (stack_len st - 1))"
    and "rstack (r\<lparr>rh_cv_stack_len := rh_cv_stack_len r - 1\<rparr>)
      (st\<lparr>cvs := (cvs st)[stack_len st - 1 := x], stack_len := stack_len st - 1\<rparr>)"
proof -
  obtain n where n: "stack_len st = Suc n" using assms(2) by (cases "stack_len st") auto
  have len: "rh_cv_stack_len r - 1 = of_nat n" "n < 54" "n < length (cvs st)"
    using assms(1) by (simp_all add: rstack_def n)
  have "take (Suc n) (rh_cv_stack r) = take (Suc n) (cvs st)" using assms(1) by (simp add: rstack_def n)
  then have "rh_cv_stack r ! n = cvs st ! n" "take n (rh_cv_stack r) = take n (cvs st)"
    by (metis lessI nth_take, metis lessI less_imp_le min.absorb1 take_take)
  then show "r_pop_stack r = Some (r\<lparr>rh_cv_stack_len := rh_cv_stack_len r - 1\<rparr>, cvs st ! (stack_len st - 1))"
    and "rstack (r\<lparr>rh_cv_stack_len := rh_cv_stack_len r - 1\<rparr>)
      (st\<lparr>cvs := (cvs st)[stack_len st - 1 := x], stack_len := stack_len st - 1\<rparr>)"
    using assms(1) rstack_zero [OF assms(1)] len unat_u8 [of n]
    by (simp_all add: r_pop_stack_def rstack_def n Let_def)
qed

lemma r_merge_of:
  "w_merge_cvs key f st cv T = Some (st', cv') \<Longrightarrow> rstack r st \<Longrightarrow> rh_key_words r = key \<Longrightarrow> rh_flags r = f \<Longrightarrow>
   \<exists>n. r_merge_loop r cv T = Some (r\<lparr>rh_cv_stack_len := n\<rparr>, cv') \<and> rstack (r\<lparr>rh_cv_stack_len := n\<rparr>) st'"
proof (induction key f st cv T arbitrary: r rule: w_merge_cvs.induct)
  case (1 key f st cv T)
  show ?case
  proof (cases "T AND 1 = 0")
    case False
    then show ?thesis
      using "1.prems" by (intro exI [of _ "rh_cv_stack_len r"]) (simp add: w_merge_cvs.simps r_merge_loop.simps)
  next
    case True
    then have ne: "stack_len st \<noteq> 0"
      using "1.prems"(1) by (subst (asm) w_merge_cvs.simps) (simp split: if_splits)
    let ?r = "r\<lparr>rh_cv_stack_len := rh_cv_stack_len r - 1\<rparr>" and ?last = "stack_len st - 1"
    let ?st = "st\<lparr>cvs := (cvs st)[?last := replicate 8 0], stack_len := ?last\<rparr>"
    note pop = rstack_pop [OF "1.prems"(2) ne]
    have rest: "w_merge_cvs key f ?st (w_parent_cv (cvs st ! ?last) cv key f) (drop_bit 1 T) = Some (st', cv')"
      using "1.prems"(1) True ne by (subst (asm) w_merge_cvs.simps) (simp add: Let_def)
    have "\<exists>n. r_merge_loop ?r (w_parent_cv (cvs st ! ?last) cv key f) (drop_bit 1 T) = Some (?r\<lparr>rh_cv_stack_len := n\<rparr>, cv')
        \<and> rstack (?r\<lparr>rh_cv_stack_len := n\<rparr>) st'"
      by (rule "1.IH" [OF True ne refl refl refl rest pop(2)]) (use "1.prems" in simp_all)
    then show ?thesis
      using True "1.prems" by (subst r_merge_loop.simps) (simp add: pop(1) r_parent_cv_of)
  qed
qed

lemma r_push_of:
  assumes "rstack r st" "w_stack_push st cv = Some st'" "stack_len st' \<le> 54"
  shows "\<exists>a n. r_push_stack r cv = Some (r\<lparr>rh_cv_stack := a, rh_cv_stack_len := n\<rparr>)
    \<and> rstack (r\<lparr>rh_cv_stack := a, rh_cv_stack_len := n\<rparr>) st'"
proof -
  let ?n = "stack_len st"
  have st': "st' = st\<lparr>cvs := (cvs st)[?n := cv], stack_len := ?n + 1\<rparr>" and room: "?n < 64"
    using assms(2) by (auto simp: w_stack_push_def w_CV_STACK_RESERVE_def bind_eq_Some_conv)
  then have n: "?n < 54" using assms(3) by simp
  have "take (Suc ?n) ((rh_cv_stack r)[?n := cv]) = take (Suc ?n) ((cvs st)[?n := cv])"
    using assms(1) n by (simp add: rstack_def take_Suc_conv_app_nth)
  then have "rstack (r\<lparr>rh_cv_stack := (rh_cv_stack r)[?n := cv], rh_cv_stack_len := rh_cv_stack_len r + 1\<rparr>) st'"
    using assms(1) n by (simp add: rstack_def st' add.commute)
  moreover have "r_push_stack r cv
      = Some (r\<lparr>rh_cv_stack := (rh_cv_stack r)[?n := cv], rh_cv_stack_len := rh_cv_stack_len r + 1\<rparr>)"
    using assms(1) n by (simp add: r_push_stack_def rstack_unat [OF assms(1)]) (simp add: rstack_def)
  ultimately show ?thesis by blast
qed

lemma r_chunk_len_of: "small_chunk c n \<Longrightarrow> r_chunk_len (rc_of c) = w_chunk_len c"
  by (simp add: r_chunk_len_def w_chunk_len_def small_chunk_fields r_BLOCK_LEN_def w_BLAKE3_BLOCK_def)

lemma r_chunk_new_of: "r_chunk_new key c f = rc_of (w_chunk_new key c f)"
  by (simp add: r_chunk_new_def w_chunk_new_def rc_of_def r_BLOCK_LEN_def w_BLAKE3_BLOCK_def)

lemma r_roll_of:
  assumes "rsim r h" "small_chunk (wh_chunk h) n" "w_roll_chunk h = Some h'" "stack_len (wh_cv_stack h') \<le> 54"
  shows "\<exists>r'. r_roll_chunk r = Some r' \<and> rsim r' h'"
proof (cases "w_chunk_len (wh_chunk h) = w_BLAKE3_CHUNK")
  case False
  then have "h' = h" using assms(3) by (simp add: w_roll_chunk_def)
  with False assms show ?thesis
    by (simp add: r_roll_chunk_def rsim_def r_chunk_len_of [OF assms(2)] r_CHUNK_LEN_def w_BLAKE3_CHUNK_def)
next
  case True
  let ?cv = "w_chaining_value (w_chunk_output (wh_chunk h))" and ?T = "wc_counter (wh_chunk h) + 1"
  obtain st cv st2 where m: "w_merge_cvs (wh_key_words h) (wh_flags h) (wh_cv_stack h) ?cv ?T = Some (st, cv)"
    "w_stack_push st cv = Some st2"
    "h' = h\<lparr>wh_cv_stack := st2, wh_chunk := w_chunk_new (wh_key_words h) ?T (wh_flags h)\<rparr>"
    using assms(3) True by (auto simp: w_roll_chunk_def w_add_chunk_cv_def Let_def bind_eq_Some_conv)
  have r: "rstack r (wh_cv_stack h)" "rh_key_words r = wh_key_words h" "rh_flags r = wh_flags h"
    "rh_chunk r = rc_of (wh_chunk h)"
    using assms(1) by (simp_all add: rsim_def)
  obtain n where n: "r_merge_loop r ?cv ?T = Some (r\<lparr>rh_cv_stack_len := n\<rparr>, cv)" "rstack (r\<lparr>rh_cv_stack_len := n\<rparr>) st"
    using r_merge_of [OF m(1) r(1-3)] by blast
  obtain a k where push: "r_push_stack (r\<lparr>rh_cv_stack_len := n\<rparr>) cv = Some (r\<lparr>rh_cv_stack_len := n, rh_cv_stack := a, rh_cv_stack_len := k\<rparr>)"
    "rstack (r\<lparr>rh_cv_stack_len := n, rh_cv_stack := a, rh_cv_stack_len := k\<rparr>) st2"
    using r_push_of [OF n(2) m(2)] assms(4) m(3) by auto
  have "rc_counter (rc_of (wh_chunk h)) = wc_counter (wh_chunk h)" by (simp add: rc_of_def)
  then have "r_roll_chunk r = Some (r\<lparr>rh_cv_stack_len := n, rh_cv_stack := a, rh_cv_stack_len := k,
      rh_chunk := r_chunk_new (wh_key_words h) ?T (wh_flags h)\<rparr>)"
    using True n(1) push(1)
    by (simp add: r_roll_chunk_def r(2-4) r_chunk_len_of [OF assms(2)] r_CHUNK_LEN_def w_BLAKE3_CHUNK_def
        r_add_chunk_chaining_value_def r_chunk_output_of [OF assms(2)] r_chaining_value_of Let_def)
  moreover have "rsim (r\<lparr>rh_cv_stack_len := n, rh_cv_stack := a, rh_cv_stack_len := k,
      rh_chunk := r_chunk_new (wh_key_words h) ?T (wh_flags h)\<rparr>) h'"
    using push(2) r by (simp add: rsim_def m(3) r_chunk_new_of) (simp add: rstack_def)
  ultimately show ?thesis by blast
qed

lemma small_chunk_at: "length t + n \<le> 1024 \<Longrightarrow> small_chunk (w_state_of key c f t) n"
  using last_block_bounds [of t]
  by (simp add: small_chunk_def w_state_of_def length_last_block pad_block_def)

subsection \<open>Every update\<close>

definition r_absorbed :: "cv_words \<Rightarrow> u8 \<Rightarrow> platform \<Rightarrow> r_hasher \<Rightarrow> bytes \<Rightarrow> bool" where
  "r_absorbed key f p r inp \<longleftrightarrow> (\<exists>h. w_absorbed key f p h inp \<and> rsim r h)"

lemma r_update_at:
  assumes p: "platform_ok p" "length key = 8"
  shows "strict es \<Longrightarrow> length xs = 1024 * chunks_of es \<Longrightarrow> length t \<le> 1024 \<Longrightarrow> (t = [] \<longrightarrow> es = []) \<Longrightarrow>
    length xs + length t + length inp < 2 ^ 64 \<Longrightarrow> rsim r (w_hasher_at key f p es xs t) \<Longrightarrow>
    \<exists>r'. r_update r inp = Some r' \<and> r_absorbed key f p r' (xs @ t @ inp)"
proof (induction "length inp" arbitrary: es xs t inp r rule: less_induct)
  case less
  show ?case
  proof (cases "inp = []")
    case True
    then have "w_absorbed key f p (w_hasher_at key f p es xs t) (xs @ t @ inp)"
      using less.prems by (auto simp: w_absorbed_def)
    then show ?thesis using True less.prems(6) by (auto simp: r_update.simps r_absorbed_def)
  next
    case False
    obtain es1 xs1 t1 where roll: "w_roll_chunk (w_hasher_at key f p es xs t) = Some (w_hasher_at key f p es1 xs1 t1)"
      "strict es1" "length xs1 = 1024 * chunks_of es1" "length t1 < 1024" "xs1 @ t1 = xs @ t" "chunks_of es1 < 2 ^ 54"
      using w_roll_at [OF p less.prems(1-3,5) False] by metis
    have small: "small_chunk (wh_chunk (w_hasher_at key f p es xs t)) 0"
      using less.prems(3) by (simp add: small_chunk_at)
    have "stack_len (wh_cv_stack (w_hasher_at key f p es1 xs1 t1)) \<le> 54"
      using strict_length [OF roll(2,6)] by (simp add: w_stack_at_def)
    then obtain r1 where r1: "r_roll_chunk r = Some r1" "rsim r1 (w_hasher_at key f p es1 xs1 t1)"
      using r_roll_of [OF less.prems(6) small roll(1)] by blast
    let ?n = "min (1024 - length t1) (length inp)" and ?c = "\<lambda>t. w_state_of key (of_nat (chunks_of es1)) f t"
    have n: "0 < ?n" "take ?n inp \<noteq> []" using roll(4) False by (simp_all add: min_def)
    have chunk: "rh_chunk r1 = rc_of (?c t1)" using r1(2) by (simp add: rsim_def)
    have small1: "small_chunk (?c t1) (length (take ?n inp))" using roll(4) by (intro small_chunk_at) simp
    have "r_chunk_update (rc_of (?c t1)) (take ?n inp) = Some (rc_of (?c (t1 @ take ?n inp)))"
      by (rule r_chunk_update_of [OF w_chunk_update_of [OF p(2)] small1])
    moreover have "r_chunk_len (rh_chunk r1) = length t1"
      using r_chunk_len_of [OF small1] by (simp add: chunk)
    ultimately have step: "r_update r inp = r_update (r1\<lparr>rh_chunk := rc_of (?c (t1 @ take ?n inp))\<rparr>) (drop ?n inp)"
      using False n(1) unfolding r_update.simps [of r inp]
      by (simp add: r1(1) Let_def r_CHUNK_LEN_def chunk del: min_less_iff_conj)
    have sim: "rsim (r1\<lparr>rh_chunk := rc_of (?c (t1 @ take ?n inp))\<rparr>) (w_hasher_at key f p es1 xs1 (t1 @ take ?n inp))"
      using r1(2) by (simp add: rsim_def rstack_def)
    have len: "length xs1 + length t1 = length xs + length t" using roll(5) by (metis length_append)
    have "\<exists>r'. r_update (r1\<lparr>rh_chunk := rc_of (?c (t1 @ take ?n inp))\<rparr>) (drop ?n inp) = Some r'
        \<and> r_absorbed key f p r' (xs1 @ (t1 @ take ?n inp) @ drop ?n inp)"
      by (rule less.hyps [OF _ _ _ _ _ _ sim])
        (use roll n False less.prems len in \<open>auto simp del: take_eq_Nil take_eq_Nil2\<close>)
    moreover have "xs1 @ (t1 @ take ?n inp) @ drop ?n inp = xs @ t @ inp" using roll(5) by (metis append_assoc append_take_drop_id)
    ultimately show ?thesis unfolding step by (simp only:)
  qed
qed

lemma r_updates_ok:
  assumes p: "platform_ok p" "length key = 8"
  shows "r_absorbed key f p r pre \<Longrightarrow> length pre + length (concat parts) < 2 ^ 64 \<Longrightarrow>
    \<exists>r'. r_updates r parts = Some r' \<and> r_absorbed key f p r' (pre @ concat parts)"
proof (induction parts arbitrary: r pre)
  case (Cons x xs)
  obtain es ys t where "pre = ys @ t" "length ys = 1024 * chunks_of es" "length t \<le> 1024"
    "rsim r (w_hasher_at key f p es ys t)" "strict es" "t = [] \<longrightarrow> es = []"
    using Cons.prems(1) by (auto simp: r_absorbed_def w_absorbed_def)
  moreover have "length pre + length x < 2 ^ 64" using Cons.prems(2) by simp
  ultimately obtain r' where "r_update r x = Some r'" "r_absorbed key f p r' (pre @ x)"
    using r_update_at [OF p, of es ys t x r f] by auto
  then show ?case using Cons.IH [of r' "pre @ x"] Cons.prems by simp
qed simp

lemma r_new_absorbed: "r_absorbed key f p (r_new_internal key (ucast f)) []"
proof -
  have "rsim (r_new_internal key (ucast f)) (w_hasher_at key f p [] [] [])"
    using w_chunk_new_of [of key 0 f]
    by (simp add: rsim_def r_new_internal_def r_chunk_new_of rstack_def w_stack_at_def w_live_def)
  moreover have "w_absorbed key f p (w_hasher_at key f p [] [] []) []"
    unfolding w_absorbed_def by (intro exI [of _ "[]"]) simp
  ultimately show ?thesis by (auto simp: r_absorbed_def)
qed

subsection \<open>Finalisation\<close>

lemma r_parents_of:
  "n \<le> length stack \<Longrightarrow> r_parents stack key f n (ro_of ou)
    = ro_of (fold (\<lambda>left ou. w_parent_output left (w_chaining_value ou) key f) (rev (take n stack)) ou)"
  by (induction n arbitrary: ou) (simp_all add: r_parent_output_of r_chaining_value_of take_Suc_conv_app_nth)

lemma r_finalize_ok:
  assumes p: "platform_ok p" "length key = 8" and r: "r_absorbed key f p r inp"
  shows "r_finalize r n = Some (blake3_stream key f p inp n)"
proof -
  obtain h where h: "w_absorbed key f p h inp" "rsim r h" using r by (auto simp: r_absorbed_def)
  obtain es xs t where at: "h = w_hasher_at key f p es xs t" "length t \<le> 1024" using h(1) by (auto simp: w_absorbed_def)
  have small: "small_chunk (wh_chunk h) 0" using at by (simp add: small_chunk_at)
  let ?k = "stack_len (wh_cv_stack h)"
  have st: "rstack r (wh_cv_stack h)" using h(2) by (simp add: rsim_def)
  have fields: "rh_chunk r = rc_of (wh_chunk h)" "rh_key_words r = wh_key_words h" "rh_flags r = wh_flags h"
    "take ?k (rh_cv_stack r) = take ?k (cvs (wh_cv_stack h))" "?k \<le> length (rh_cv_stack r)"
    using h(2) st by (simp_all add: rsim_def rstack_def)
  have "r_finalize r n = Some (w_finalize_xof h n)"
    by (simp add: r_finalize_def w_finalize_xof_def rstack_unat [OF st] fields r_chunk_output_of [OF small]
        r_parents_of r_root_output_of Let_def)
  then show ?thesis using w_finalize_ok [OF p h(1)] by simp
qed

text \<open>A hasher of the reference over a sequence of updates.\<close>

lemma r_stream:
  assumes "platform_ok p" "length key = 8" "length (concat parts) < 2 ^ 64"
  shows "(r_updates (r_new_internal key (ucast f)) parts \<bind> (\<lambda>h. r_finalize h n))
    = Some (blake3_stream key f p (concat parts) n)"
proof -
  obtain r where "r_updates (r_new_internal key (ucast f)) parts = Some r" "r_absorbed key f p r (concat parts)"
    using r_updates_ok [OF assms(1,2) r_new_absorbed, of parts f] assms(3) by auto
  then show ?thesis using r_finalize_ok [OF assms(1,2)] by simp
qed

text \<open>A hasher of the fork over a sequence of updates, read through its output reader.\<close>

definition fork_output :: "hasher \<Rightarrow> bytes list \<Rightarrow> nat \<Rightarrow> bytes option" where
  "fork_output h parts n =
     do { h \<leftarrow> h_updates h parts; r \<leftarrow> finalize_xof h; (_, out) \<leftarrow> reader_fill r n; Some out }"

definition reference_output :: "r_hasher \<Rightarrow> bytes list \<Rightarrow> nat \<Rightarrow> bytes option" where
  "reference_output h parts n = r_updates h parts \<bind> (\<lambda>h. r_finalize h n)"

lemma fork_stream:
  assumes "platform_ok p" "length key = 8" "length (concat parts) < 2 ^ 64"
  shows "fork_output (new_internal p key f) parts n = Some (blake3_stream key f p (concat parts) n)"
proof -
  obtain h where h: "h_updates (new_internal p key f) parts = Some h" "absorbed key f p h (concat parts)"
    using h_updates_ok [OF assms(1,2) new_internal_absorbed, of parts f] assms(3) by auto
  show ?thesis
    using finalize_fill_ok [OF assms(1,2) h(2), of n] h(1)
    by (cases "finalize_xof h") (simp_all add: fork_output_def split: option.splits prod.splits)
qed

lemma r_modes:
  "r_new = r_new_internal IV (ucast (0 :: u8))"
  "length key = 32 \<Longrightarrow> r_new_keyed key = r_new_internal (words_from_le_bytes_32 key) (ucast KEYED_HASH)"
  by (simp_all add: r_new_def r_new_keyed_def r_IV_def IV_def r_KEYED_HASH_def KEYED_HASH_def r_words_eq
      words_from_le_bytes_32_def)

lemma r_new_derive_key_ok:
  assumes "platform_ok p" "length cx < 2 ^ 64"
  shows "r_new_derive_key cx = Some (r_new_internal
    (words_from_le_bytes_32 (root_hash (tree_output IV DERIVE_KEY_CONTEXT p 0 cx))) (ucast DERIVE_KEY_MATERIAL))"
proof -
  have iv: "length IV = 8" "r_IV = IV" by (simp_all add: IV_def r_IV_def)
  have flags: "r_DERIVE_KEY_CONTEXT = ucast DERIVE_KEY_CONTEXT" "r_DERIVE_KEY_MATERIAL = ucast DERIVE_KEY_MATERIAL"
    by (simp_all add: r_DERIVE_KEY_CONTEXT_def DERIVE_KEY_CONTEXT_def r_DERIVE_KEY_MATERIAL_def DERIVE_KEY_MATERIAL_def)
  have "(r_update (r_new_internal IV (ucast DERIVE_KEY_CONTEXT)) cx \<bind> (\<lambda>h. r_finalize h 32))
      = Some (root_hash (tree_output IV DERIVE_KEY_CONTEXT p 0 cx))"
    using r_stream [OF assms(1) iv(1), of "[cx]" DERIVE_KEY_CONTEXT 32] assms(2) root_hash_ok [OF assms(1) iv(1)]
      assms(1) iv(1) by (simp add: blake3_stream_def)
  moreover have "length (root_hash (tree_output IV DERIVE_KEY_CONTEXT p 0 cx)) = 32"
    using root_hash_ok [OF assms(1) iv(1)] assms(1) iv(1) by simp
  ultimately show ?thesis
    by (cases "r_update (r_new_internal IV (ucast DERIVE_KEY_CONTEXT)) cx")
      (simp_all add: r_new_derive_key_def iv(2) flags r_KEY_LEN_def r_words_eq words_from_le_bytes_32_def Let_def)
qed

subsection \<open>Properties\<close>

text \<open>C23. The reference implementation and the fork agree in the three modes: whatever the cuts of the
  input on either side, the number of output bytes and the vector back end, both return the same bytes
  and neither panics.  Neither the 54 cells of the reference's stack nor its 8-bit counters overflow.\<close>

theorem reference_agrees_with_fork:
  assumes "platform_ok p" and "length key = 32" and "length cx < 2 ^ 64"
    and "concat parts = concat parts'" and "length (concat parts) < 2 ^ 64"
  shows "reference_output r_new parts n = fork_output (h_new p) parts' n
    \<and> reference_output (r_new_keyed key) parts n = fork_output (new_keyed p key) parts' n
    \<and> (r_new_derive_key cx \<bind> (\<lambda>h. reference_output h parts n))
        = (new_derive_key p cx \<bind> (\<lambda>h. fork_output h parts' n))
    \<and> reference_output r_new parts n \<noteq> None \<and> reference_output (r_new_keyed key) parts n \<noteq> None
    \<and> (r_new_derive_key cx \<bind> (\<lambda>h. reference_output h parts n)) \<noteq> None"
proof -
  have len: "length IV = 8" "length (words_from_le_bytes_32 k) = 8" for k
    by (simp_all add: IV_def words_from_le_bytes_32_def)
  have parts': "length (concat parts') < 2 ^ 64" using assms(4,5) by simp
  note ref = r_stream [OF assms(1) _ assms(5), folded reference_output_def]
  note fork = fork_stream [OF assms(1) _ parts']
  have derive: "new_derive_key p cx = Some (new_internal p
      (words_from_le_bytes_32 (root_hash (tree_output IV DERIVE_KEY_CONTEXT p 0 cx))) DERIVE_KEY_MATERIAL)"
    by (simp add: new_derive_key_def hash_derive_key_context_def hash_all_at_once_ok assms(1) len)
  show ?thesis
    unfolding r_modes(1) r_modes(2) [OF assms(2)] r_new_derive_key_ok [OF assms(1,3)] derive
      h_new_def new_keyed_def bind.bind_lunit ref [OF len(1)] ref [OF len(2)] fork [OF len(1)] fork [OF len(2)]
    using assms(4) by simp
qed

lemma reference_agrees_with_fork_witness:
  "reference_output (r_new_keyed (replicate 32 3)) [[1, 2], replicate 5000 7] 100
    = fork_output (new_keyed (detect (strict_build True)) (replicate 32 3)) [[1], 2 # replicate 5000 7] 100"
  using reference_agrees_with_fork [of "detect (strict_build True)" "replicate 32 3" "[]" "[[1, 2], replicate 5000 7]"
      "[[1], 2 # replicate 5000 7]" 100] by simp

end
