(* ===== verification/Blake3_Subtree.thy ===== *)
theory Blake3_Subtree
  imports Blake3_Api
begin

section \<open>Hashing a subtree on its own\<close>

text \<open>
  \<open>HasherExt\<close> of \<open>blake3/src/hazmat.rs\<close>: a hasher that starts at a chunk boundary inside the
  input (\<open>set_input_offset\<close>) and ends in a chaining value (\<open>finalize_non_root\<close>), and the merging
  of two chaining values.  The contract of the module is that a parent node put together from
  the chaining values of its two subtrees is the parent node of the whole, and that the misuses
  its documentation lists panic.  The lemmas rest on \<open>absorbed_from\<close>, the invariant of a hasher
  that started at chunk \<open>B\<close>.
\<close>

subsection \<open>The hasher of a mode and the chaining value of a subtree\<close>

text \<open>The constructor that the documentation of each \<open>Mode\<close> prescribes for its subtrees.\<close>

fun mode_hasher :: "platform \<Rightarrow> mode \<Rightarrow> hasher" where
  "mode_hasher p Hash_Mode = h_new p"
| "mode_hasher p (KeyedHash key) = new_keyed p key"
| "mode_hasher p (DeriveKeyMaterial cx_key) = new_from_context_key p cx_key"

text \<open>\<open>hasher.set_input_offset(offset).update(..)...finalize_non_root()\<close>.\<close>

definition subtree_hasher :: "platform \<Rightarrow> mode \<Rightarrow> u64 \<Rightarrow> bytes list \<Rightarrow> hasher option" where
  "subtree_hasher p m offset parts = do { h \<leftarrow> set_input_offset (mode_hasher p m) offset; h_updates h parts }"

definition subtree_cv :: "platform \<Rightarrow> mode \<Rightarrow> u64 \<Rightarrow> bytes list \<Rightarrow> bytes option" where
  "subtree_cv p m offset parts = do { h \<leftarrow> subtree_hasher p m offset parts; finalize_non_root h }"

lemma mode_hasher_eq: "mode_hasher p m = new_internal p (key_words m) (flags_byte m)"
  by (cases m) (simp_all add: h_new_def new_keyed_def new_from_context_key_def)

lemma length_key_words [simp]: "length (key_words m) = 8"
  by (cases m) (simp_all add: words_from_le_bytes_32_def IV_def)

lemma absorbed_empty:
  assumes "absorbed_from key f p B h inp" "length inp < 2 ^ 64"
  shows "h_count h = 0 \<longleftrightarrow> inp = []"
proof
  assume "h_count h = 0"
  then have "unat (of_nat (length inp) :: u64) = 0" using absorbed_count [OF assms(1)] by simp
  then show "inp = []" using u64_of_nat_unat [OF assms(2)] by simp
qed (simp add: absorbed_count [OF assms(1)])

lemma subtree_hasher_ok:
  assumes p: "platform_ok p" and B: "base_ok B v" and len: "fits_from v (length (concat parts))"
  shows "\<exists>h. subtree_hasher p m (of_nat (1024 * B)) parts = Some h
    \<and> absorbed_from (key_words m) (flags_byte m) p B h (concat parts)"
  unfolding subtree_hasher_def mode_hasher_eq set_input_offset_ok [OF B] bind.bind_lunit
  using h_updates_from_ok [OF p length_key_words B hasher_at_absorbed, of parts m "flags_byte m"] len by simp

lemma subtree_cv_ok:
  assumes p: "platform_ok p" and B: "base_ok B v" and len: "fits_from v (length (concat parts))"
    and ne: "concat parts \<noteq> []"
  shows "subtree_cv p m (of_nat (1024 * B)) parts
    = Some (tree_cv (key_words m) (flags_byte m) p (of_nat B) (concat parts))"
proof -
  obtain h where h: "subtree_hasher p m (of_nat (1024 * B)) parts = Some h"
    "absorbed_from (key_words m) (flags_byte m) p B h (concat parts)"
    using subtree_hasher_ok [OF p B len] by blast
  have "h_count h \<noteq> 0" using absorbed_empty [OF h(2)] len ne unfolding fits_from_def by blast
  then show ?thesis
    using h final_output_from_ok [OF p length_key_words h(2)]
    by (simp add: subtree_cv_def finalize_non_root_def p)
qed

text \<open>Merging the chaining values of the two halves is the node above them.\<close>

lemma merge_subtrees_inner_ok:
  assumes "length ls = 1024 * 2 ^ e" "0 < length rs" "length rs \<le> length ls"
  shows "merge_subtrees_inner p (tree_cv (key_words m) (flags_byte m) p (of_nat B) ls)
      (tree_cv (key_words m) (flags_byte m) p (of_nat (B + 2 ^ e)) rs) m
    = tree_output (key_words m) (flags_byte m) p (of_nat B) (ls @ rs)"
  by (simp add: merge_subtrees_inner_def tree_output_split [OF assms])

lemma finalize_whole_ok:
  assumes p: "platform_ok p" and len: "length (concat parts) < 2 ^ 64"
  shows "(h_updates (mode_hasher p m) parts \<bind> finalize)
      = Some (root_hash (tree_output (key_words m) (flags_byte m) p 0 (concat parts)))"
    and "(h_updates (mode_hasher p m) parts \<bind> finalize_xof)
      = Some (reader_new (tree_output (key_words m) (flags_byte m) p 0 (concat parts)))"
proof -
  obtain h where h: "h_updates (mode_hasher p m) parts = Some h"
    "absorbed (key_words m) (flags_byte m) p h (concat parts)"
    using h_updates_ok [OF p length_key_words new_internal_absorbed, of parts m "flags_byte m"] len
    by (auto simp: mode_hasher_eq)
  note f = final_output_ok [OF p length_key_words h(2)] absorbed_offset [OF h(2)]
  show "(h_updates (mode_hasher p m) parts \<bind> finalize)
      = Some (root_hash (tree_output (key_words m) (flags_byte m) p 0 (concat parts)))"
    using f h(1) by (simp add: finalize_def)
  show "(h_updates (mode_hasher p m) parts \<bind> finalize_xof)
      = Some (reader_new (tree_output (key_words m) (flags_byte m) p 0 (concat parts)))"
    using f h(1) by (simp add: finalize_xof_def)
qed

subsection \<open>The limit of a subtree\<close>

lemma trailing_zeros_dvd:
  assumes B: "0 < B" "B < 2 ^ 54"
  shows "base_ok B (trailing_zeros (of_nat B))"
proof -
  let ?t = "trailing_zeros (of_nat B)"
  have t: "?t < 54" using trailing_zeros_bounds(2) [of 0 B] B by simp
  have "\<not> bit (of_nat B :: u64) j" if j: "j < ?t" for j
  proof -
    let ?zs = "takeWhile (\<lambda>i. \<not> bit (of_nat B :: u64) i) [0..<64]"
    have "?zs ! j = j" using j t takeWhile_nth [of j "\<lambda>i. \<not> bit (of_nat B :: u64) i" "[0..<64]"]
      by (simp add: trailing_zeros_def)
    moreover have "?zs ! j \<in> set ?zs" using j by (intro nth_mem) (simp add: trailing_zeros_def)
    ultimately show ?thesis by (metis set_takeWhileD)
  qed
  then have "\<not> bit B j" if "j < ?t" for j using that t by (simp add: bit_of_nat_iff)
  then have "take_bit ?t B = 0" by (intro bit_eqI) (simp add: bit_take_bit_iff)
  then obtain q where q: "B = 2 ^ ?t * q" by (metis dvdE take_bit_eq_0_iff)
  have split: "(2 :: nat) ^ 54 = 2 ^ ?t * 2 ^ (54 - ?t)" using t by (simp flip: power_add)
  then have "q < 2 ^ (54 - ?t)" using B(2) q by (metis mult_less_cancel1)
  then have "2 ^ ?t * (q + 1) \<le> 2 ^ ?t * 2 ^ (54 - ?t)" by (intro mult_left_mono) simp_all
  then have "B + 2 ^ ?t \<le> 2 ^ 54" using q split by (simp add: algebra_simps)
  moreover have "2 ^ ?t dvd B" using q by (metis dvd_triv_left)
  ultimately show ?thesis by (simp add: base_ok_def)
qed

lemma of_nat_less_u64: "m < n \<Longrightarrow> n < 2 ^ 64 \<Longrightarrow> (of_nat m :: u64) < of_nat n"
  by (simp add: word_less_nat_alt unat_of_nat take_bit_nat_eq_self)

text \<open>The assertion of \<open>update\<close> fires exactly when the subtree would grow past its limit.\<close>

lemma h_update_limit:
  assumes h: "absorbed_from key f p B h done" and B: "0 < B" "B < 2 ^ 54"
    and len: "length done \<le> 1024 * 2 ^ trailing_zeros (of_nat B)" "length inp < 2 ^ 64"
      "1024 * 2 ^ trailing_zeros (of_nat B) < length done + length inp"
  shows "h_update h inp = None"
proof -
  note mx = max_subtree_len_eq [OF B]
  have B0: "initial_chunk_counter h = of_nat B" using h by (auto simp: absorbed_from_def)
  have "(of_nat (1024 * 2 ^ trailing_zeros (of_nat B)) :: u64) - h_count h
      = of_nat (1024 * 2 ^ trailing_zeros (of_nat B) - length done)"
    using len(1) absorbed_count [OF h] by (simp add: of_nat_diff)
  moreover have "(of_nat (1024 * 2 ^ trailing_zeros (of_nat B) - length done) :: u64) < of_nat (length inp)"
    using len mx(2) by (intro of_nat_less_u64) auto
  ultimately have "\<not> of_nat (length inp) \<le> (of_nat (1024 * 2 ^ trailing_zeros (of_nat B)) :: u64) - h_count h"
    by (simp only: not_le)
  then show ?thesis unfolding h_update_def B0 Let_def mx(1) by simp
qed

lemma h_updates_limit:
  assumes p: "platform_ok p" "length key = 8" and B: "0 < B" "B < 2 ^ 54"
  shows "absorbed_from key f p B h done \<Longrightarrow> length done \<le> 1024 * 2 ^ trailing_zeros (of_nat B) \<Longrightarrow>
    length (concat parts) < 2 ^ 64 \<Longrightarrow> 1024 * 2 ^ trailing_zeros (of_nat B) < length done + length (concat parts) \<Longrightarrow>
    h_updates h parts = None"
proof (induction parts arbitrary: h "done")
  case Nil
  then show ?case by simp
next
  case (Cons x xs)
  show ?case
  proof (cases "length done + length x \<le> 1024 * 2 ^ trailing_zeros (of_nat B)")
    case True
    then have "fits_from (trailing_zeros (of_nat B)) (length done + length x)"
      using max_subtree_len_eq(2) [OF B] by (simp add: fits_from_def)
    then obtain h' where h': "h_update h x = Some h'" "absorbed_from key f p B h' (done @ x)"
      using h_update_from_ok [OF p trailing_zeros_dvd [OF B] Cons.prems(1)] by blast
    have "h_updates h' xs = None" using Cons.prems True by (intro Cons.IH [OF h'(2)]) auto
    then show ?thesis by (simp add: h'(1))
  next
    case False
    then have "h_update h x = None" using Cons.prems by (intro h_update_limit [OF Cons.prems(1) B]) auto
    then show ?thesis by simp
  qed
qed

lemma offset_results:
  assumes "initial_chunk_counter h \<noteq> 0" "h_count h = 0 \<longleftrightarrow> E" "final_output h = Some ou"
  shows "finalize h = None \<and> finalize_xof h = None \<and> (finalize_non_root h = None \<longleftrightarrow> E)
    \<and> (\<not> E \<longrightarrow> set_input_offset h x = None)"
  using assms by (cases E) (simp_all add: finalize_def finalize_xof_def finalize_non_root_def set_input_offset_def)

subsection \<open>Properties\<close>

text \<open>C30. A subtree can be hashed on its own: for a left part of \<open>2 ^ e\<close> whole chunks and a right
  part of at most that length, at any chunk \<open>B\<close> where a subtree of \<open>2 ^ Suc e\<close> chunks may start, the
  two hashers that start at their offsets do not panic, and merging their chaining values gives
  the chaining value of one hasher over both parts; at the start of the input, merging them as the
  root gives the hash and the extended output of the ordinary hasher, in all three modes.\<close>

theorem hazmat_subtrees_merge:
  assumes "platform_ok p"
    and "length (concat ls) = 1024 * 2 ^ e" and "concat rs \<noteq> []" and "length (concat rs) \<le> 1024 * 2 ^ e"
    and "2 ^ Suc e dvd B" and "B + 2 ^ Suc e \<le> 2 ^ 54"
    and "concat ws = concat ls @ concat rs" and "length (concat ws) < 2 ^ 64"
  shows "\<exists>l r. subtree_cv p m (of_nat (1024 * B)) ls = Some l
    \<and> subtree_cv p m (of_nat (1024 * (B + 2 ^ e))) rs = Some r
    \<and> subtree_cv p m (of_nat (1024 * B)) ws = Some (merge_subtrees_non_root p l r m)
    \<and> (B = 0 \<longrightarrow> (h_updates (mode_hasher p m) ws \<bind> finalize) = Some (merge_subtrees_root p l r m)
        \<and> (h_updates (mode_hasher p m) ws \<bind> finalize_xof) = Some (merge_subtrees_root_xof p l r m))"
proof -
  have base: "base_ok B e" "base_ok (B + 2 ^ e) e" "base_ok B (Suc e)"
    using assms(5,6) by (auto simp: base_ok_def intro: dvd_mult_right)
  have fits: "fits_from e (length (concat ls))" "fits_from e (length (concat rs))" "fits_from (Suc e) (length (concat ws))"
    using assms(2,4,8) unfolding assms(7) by (simp_all add: fits_from_def)
  have "length (concat ls) \<noteq> 0" using assms(2) by simp
  then have ne: "concat ls \<noteq> []" "concat ws \<noteq> []" unfolding assms(7) by (metis list.size(3), metis append_is_Nil_conv list.size(3))
  let ?tree = "\<lambda>c. tree_output (key_words m) (flags_byte m) p (of_nat c)"
  let ?l = "out_cv (?tree B (concat ls))" and ?r = "out_cv (?tree (B + 2 ^ e) (concat rs))"
  have inner: "merge_subtrees_inner p ?l ?r m = ?tree B (concat ws)"
    using merge_subtrees_inner_ok [of "concat ls" e "concat rs" p m B] assms(2-4) unfolding assms(7) by simp
  have whole: "subtree_cv p m (of_nat (1024 * B)) ws = Some (merge_subtrees_non_root p ?l ?r m)"
    unfolding subtree_cv_ok [OF assms(1) base(3) fits(3) ne(2)] merge_subtrees_non_root_def inner by (simp add: assms(1))
  have root: "B = 0 \<longrightarrow> (h_updates (mode_hasher p m) ws \<bind> finalize) = Some (merge_subtrees_root p ?l ?r m)
        \<and> (h_updates (mode_hasher p m) ws \<bind> finalize_xof) = Some (merge_subtrees_root_xof p ?l ?r m)"
    unfolding merge_subtrees_root_def merge_subtrees_root_xof_def inner finalize_whole_ok [OF assms(1,8)] by simp
  show ?thesis
    using subtree_cv_ok [OF assms(1) base(1) fits(1) ne(1)] subtree_cv_ok [OF assms(1) base(2) fits(2) assms(3)]
      whole root by blast
qed

lemma hazmat_subtrees_merge_witness:
  "\<exists>l r. subtree_cv (detect (strict_build True)) (KeyedHash (replicate 32 44)) (of_nat (1024 * 0)) [replicate 1024 42, replicate 1024 42] = Some l
    \<and> subtree_cv (detect (strict_build True)) (KeyedHash (replicate 32 44)) (of_nat (1024 * (0 + 2 ^ 1))) [replicate 1500 43] = Some r
    \<and> subtree_cv (detect (strict_build True)) (KeyedHash (replicate 32 44)) (of_nat (1024 * 0)) [replicate 2048 42 @ replicate 1500 43]
        = Some (merge_subtrees_non_root (detect (strict_build True)) l r (KeyedHash (replicate 32 44)))
    \<and> ((0 :: nat) = 0 \<longrightarrow> (h_updates (mode_hasher (detect (strict_build True)) (KeyedHash (replicate 32 44))) [replicate 2048 42 @ replicate 1500 43] \<bind> finalize)
          = Some (merge_subtrees_root (detect (strict_build True)) l r (KeyedHash (replicate 32 44)))
        \<and> (h_updates (mode_hasher (detect (strict_build True)) (KeyedHash (replicate 32 44))) [replicate 2048 42 @ replicate 1500 43] \<bind> finalize_xof)
          = Some (merge_subtrees_root_xof (detect (strict_build True)) l r (KeyedHash (replicate 32 44))))"
  by (rule hazmat_subtrees_merge) (simp_all flip: replicate_add)

text \<open>C31. The documented misuses panic.  Started at any chunk \<open>B\<close> but the first, a hasher takes its
  input if and only if it stays within \<open>max_subtree_len\<close>, however the input is cut; it then refuses
  \<open>finalize\<close> and \<open>finalize_xof\<close>, refuses \<open>finalize_non_root\<close> exactly when it is empty, and takes no
  second offset once it has input.  An offset inside a chunk is refused.\<close>

theorem hazmat_misuse_panics:
  assumes "platform_ok p" and "0 < B" and "B < 2 ^ 54" and "length (concat parts) < 2 ^ 64"
  shows "(case subtree_hasher p m (of_nat (1024 * B)) parts of
        None \<Rightarrow> 1024 * 2 ^ trailing_zeros (of_nat B) < length (concat parts)
      | Some h \<Rightarrow> length (concat parts) \<le> 1024 * 2 ^ trailing_zeros (of_nat B)
          \<and> finalize h = None \<and> finalize_xof h = None
          \<and> (finalize_non_root h = None \<longleftrightarrow> concat parts = [])
          \<and> (concat parts \<noteq> [] \<longrightarrow> set_input_offset h x = None))
    \<and> (unat y mod CHUNK_LEN \<noteq> 0 \<longrightarrow> subtree_hasher p m y parts = None)"
proof
  let ?mx = "1024 * 2 ^ trailing_zeros (of_nat B) :: nat"
  note B = trailing_zeros_dvd [OF assms(2,3)]
  have start: "subtree_hasher p m (of_nat (1024 * B)) parts
      = h_updates (hasher_at (key_words m) (flags_byte m) p B [] [] []) parts"
    unfolding subtree_hasher_def mode_hasher_eq set_input_offset_ok [OF B] by simp
  show "case subtree_hasher p m (of_nat (1024 * B)) parts of
        None \<Rightarrow> ?mx < length (concat parts)
      | Some h \<Rightarrow> length (concat parts) \<le> ?mx \<and> finalize h = None \<and> finalize_xof h = None
          \<and> (finalize_non_root h = None \<longleftrightarrow> concat parts = [])
          \<and> (concat parts \<noteq> [] \<longrightarrow> set_input_offset h x = None)"
  proof (cases "length (concat parts) \<le> ?mx")
    case True
    then obtain h where h: "subtree_hasher p m (of_nat (1024 * B)) parts = Some h"
      "absorbed_from (key_words m) (flags_byte m) p B h (concat parts)"
      using subtree_hasher_ok [OF assms(1) B, of parts m] assms(4) by (auto simp: fits_from_def)
    have "(of_nat B :: u64) \<noteq> 0" using of_nat_less_u64 [of 0 B] assms(2,3) by auto
    then have off: "initial_chunk_counter h \<noteq> 0" using h(2) by (auto simp: absorbed_from_def)
    have "h_count h = 0 \<longleftrightarrow> concat parts = []"
      by (rule absorbed_empty [OF h(2) assms(4)])
    note r = offset_results [OF off this final_output_from_ok [OF assms(1) length_key_words h(2)]]
    show ?thesis unfolding h(1) option.case by (rule conjI [OF True r])
  next
    case False
    then have "subtree_hasher p m (of_nat (1024 * B)) parts = None"
      unfolding start using assms(4)
      by (intro h_updates_limit [OF assms(1) length_key_words assms(2,3) hasher_at_absorbed]) auto
    then show ?thesis using False by simp
  qed
  show "unat y mod CHUNK_LEN \<noteq> 0 \<longrightarrow> subtree_hasher p m y parts = None"
    by (simp add: subtree_hasher_def set_input_offset_def)
qed

lemma hazmat_misuse_panics_witness:
  "subtree_hasher (detect (strict_build True)) Hash_Mode (of_nat (1024 * 3)) [replicate 1024 1, [2]] = None"
proof -
  have "trailing_zeros 3 = 0" by (simp add: trailing_zeros_def upt_conv_Cons)
  then show ?thesis
    using hazmat_misuse_panics [where p = "detect (strict_build True)" and B = 3 and parts = "[replicate 1024 1, [2]]"
        and m = Hash_Mode]
    by (cases "subtree_hasher (detect (strict_build True)) Hash_Mode 3072 [replicate 1024 1, [2]]") simp_all
qed

end
