(* ===== verification/Blake3_Io.thy ===== *)
theory Blake3_Io
  imports Blake3_Api
begin

section \<open>Reading, mapping and the traits of other crates\<close>

text \<open>
  The adapters around the hasher: \<open>copy_wide\<close> and \<open>maybe_mmap_file\<close> of \<open>blake3/src/io.rs\<close>,
  \<open>update_reader\<close>, \<open>update_mmap\<close>, \<open>Write\<close> and \<open>Read\<close> of \<open>blake3/src/lib.rs\<close> and the \<open>digest\<close>
  traits of \<open>blake3/src/traits.rs\<close>.  Readers, files and memory maps belong to the standard
  library, the operating system and \<open>memmap2\<close>: they are parameters, with the documented
  contracts \<open>byte_source\<close> and \<open>regular_file\<close>.  A loop that never returns is \<open>None\<close>, a panic is
  \<open>Some None\<close>.
\<close>

subsection \<open>\<open>copy_wide\<close>\<close>

datatype io_error = Interrupted | Io_Error nat

type_synonym 's read_op = "'s \<Rightarrow> nat \<Rightarrow> (io_error + bytes) \<times> 's"

definition COPY_BUF :: nat where
  "COPY_BUF = 16 * 1024"

text \<open>A reader that claims more bytes than the buffer holds makes \<open>&buffer[..n]\<close> panic.\<close>

partial_function (option) copy_wide ::
  "'s read_op \<Rightarrow> 's \<Rightarrow> hasher \<Rightarrow> u64 \<Rightarrow> ((io_error + u64) \<times> hasher \<times> 's) option option" where
  "copy_wide read s h count =
     (case read s COPY_BUF of
        (Inl e, s) \<Rightarrow> (if e = Interrupted then copy_wide read s h count else Some (Some (Inl e, h, s)))
      | (Inr bs, s) \<Rightarrow>
          (if bs = [] then Some (Some (Inr count, h, s))
           else if COPY_BUF < length bs then Some None
           else (case h_update h bs of
                   None \<Rightarrow> Some None
                 | Some h \<Rightarrow> copy_wide read s h (count + of_nat (length bs)))))"

definition update_reader :: "'s read_op \<Rightarrow> 's \<Rightarrow> hasher \<Rightarrow> ((io_error + unit) \<times> hasher \<times> 's) option option" where
  "update_reader read s h =
     map_option (map_option (\<lambda>(res, h, s). (case res of Inl e \<Rightarrow> Inl e | Inr _ \<Rightarrow> Inr (), h, s)))
       (copy_wide read s h 0)"

text \<open>
  The contract of \<open>io::Read\<close> for a source with an end: \<open>rest\<close> is what is still to come; a read returns a
  piece of it that fits the buffer, and an empty one only at the end; an error consumes nothing.  Nothing
  bounds the interruptions.
\<close>

definition byte_source :: "'s read_op \<Rightarrow> ('s \<Rightarrow> bytes) \<Rightarrow> bool" where
  "byte_source read rest \<longleftrightarrow>
     (\<forall>s n. case read s n of
        (Inr bs, s') \<Rightarrow> rest s = bs @ rest s' \<and> length bs \<le> n \<and> (0 < n \<and> bs = [] \<longrightarrow> rest s = [])
      | (Inl e, s') \<Rightarrow> rest s' = rest s)"

text \<open>The successive reads of a source, and the answers that end the loop: an empty read, or an error other
  than \<open>Interrupted\<close>.\<close>

primrec read_state :: "'s read_op \<Rightarrow> 's \<Rightarrow> nat \<Rightarrow> 's" where
  "read_state read s 0 = s"
| "read_state read s (Suc i) = read_state read (snd (read s COPY_BUF)) i"

definition read_answer :: "'s read_op \<Rightarrow> 's \<Rightarrow> nat \<Rightarrow> io_error + bytes" where
  "read_answer read s i = fst (read (read_state read s i) COPY_BUF)"

fun ends :: "io_error + bytes \<Rightarrow> bool" where
  "ends (Inl e) \<longleftrightarrow> e \<noteq> Interrupted"
| "ends (Inr bs) \<longleftrightarrow> bs = []"

definition first_end :: "'s read_op \<Rightarrow> 's \<Rightarrow> nat \<Rightarrow> bool" where
  "first_end read s i \<longleftrightarrow> ends (read_answer read s i) \<and> (\<forall>j < i. \<not> ends (read_answer read s j))"

lemma read_answer_simps [simp]:
  "read_answer read s 0 = fst (read s COPY_BUF)"
  "read_answer read s (Suc i) = read_answer read (snd (read s COPY_BUF)) i"
  by (simp_all add: read_answer_def)

lemma read_state_add: "read_state read s (i + j) = read_state read (read_state read s i) j"
  by (induction i arbitrary: s) simp_all

lemma first_end_Suc:
  "first_end read s (Suc i) \<longleftrightarrow> \<not> ends (fst (read s COPY_BUF)) \<and> first_end read (snd (read s COPY_BUF)) i"
  by (auto simp: first_end_def All_less_Suc2)

lemma first_end_exists: "ends (read_answer read s i) \<Longrightarrow> \<exists>k. first_end read s k"
  using ex_has_least_nat [of "\<lambda>i. ends (read_answer read s i)" i id]
  by (auto simp: first_end_def) (metis linorder_not_less)

text \<open>A loop whose reads end returns with the answer of the first that does, all before it absorbed.\<close>

lemma copy_wide_ok:
  assumes p: "platform_ok p" "length key = 8" and src: "byte_source read rest"
  shows "absorbed key f p h done \<Longrightarrow> length done + length (rest s) < 2 ^ 64 \<Longrightarrow> first_end read s i \<Longrightarrow>
    \<exists>h' got. copy_wide read s h count =
        Some (Some (case read_answer read s i of Inl e \<Rightarrow> Inl e | Inr _ \<Rightarrow> Inr (count + of_nat (length got)),
          h', read_state read s (Suc i)))
      \<and> absorbed key f p h' (done @ got) \<and> rest s = got @ rest (read_state read s i)"
proof (induction i arbitrary: s h "done" count)
  case 0
  obtain r s1 where r: "read s COPY_BUF = (r, s1)" by fastforce
  then have "ends r" using 0(3) by (simp add: first_end_def)
  then show ?case
    using 0(1) by (cases r) (auto simp: r copy_wide.simps [of read s] intro: exI [of _ h] exI [of _ "[]"])
next
  case (Suc i)
  obtain r s1 where r: "read s COPY_BUF = (r, s1)" by fastforce
  have go: "\<not> ends r" "first_end read s1 i" using Suc.prems(3) by (simp_all add: first_end_Suc r)
  note c = src [unfolded byte_source_def, rule_format, of s COPY_BUF, unfolded r prod.case]
  show ?case
  proof (cases r)
    case (Inl e)
    then have "copy_wide read s h count = copy_wide read s1 h count" "rest s1 = rest s"
      using c go(1) by (simp_all add: copy_wide.simps [of read s] r)
    then show ?thesis using Suc.IH [OF Suc.prems(1) _ go(2), of count] Suc.prems(2) by (simp add: r)
  next
    case (Inr bs)
    then have b: "rest s = bs @ rest s1" "length bs \<le> COPY_BUF" "bs \<noteq> []" using c go(1) by simp_all
    obtain h1 where h1: "h_update h bs = Some h1" "absorbed key f p h1 (done @ bs)"
      using h_update_ok [OF p Suc.prems(1), of bs] Suc.prems(2) b(1) by auto
    have "copy_wide read s h count = copy_wide read s1 h1 (count + of_nat (length bs))"
      using b(2,3) h1(1) by (simp add: copy_wide.simps [of read s] r Inr)
    moreover obtain h' got where "copy_wide read s1 h1 (count + of_nat (length bs)) =
        Some (Some (case read_answer read s1 i of Inl e \<Rightarrow> Inl e | Inr _ \<Rightarrow> Inr (count + of_nat (length bs) + of_nat (length got)),
          h', read_state read s1 (Suc i)))"
      "absorbed key f p h' ((done @ bs) @ got)" "rest s1 = got @ rest (read_state read s1 i)"
      using Suc.IH [OF h1(2) _ go(2), of "count + of_nat (length bs)"] Suc.prems(2) b(1) by auto
    ultimately show ?thesis
      using b(1) by (intro exI [of _ h'] exI [of _ "bs @ got"]) (simp add: r add.assoc split: sum.splits)
  qed
qed

text \<open>A loop that does not end is one whose reads are all interrupted from some point on.\<close>

lemma interrupted_for_ever:
  assumes src: "byte_source read rest"
  shows "(\<forall>i. \<not> ends (read_answer read s i)) \<Longrightarrow> \<exists>k. \<forall>i \<ge> k. read_answer read s i = Inl Interrupted"
proof (induction "length (rest s)" arbitrary: s rule: less_induct)
  case less
  show ?case
  proof (cases "\<forall>i. read_answer read s i = Inl Interrupted")
    case False
    then obtain i bs where i: "read_answer read s i = Inr bs" "bs \<noteq> []" using less.prems by (metis ends.simps sumE)
    let ?t = "read_state read s (Suc i)"
    have shift: "read_answer read ?t j = read_answer read s (Suc i + j)" for j
      by (simp only: read_answer_def read_state_add)
    have keep: "length (rest (read_state read s j)) \<le> length (rest s)" for j
    proof (induction j arbitrary: s)
      case (Suc j)
      have "length (rest (snd (read s COPY_BUF))) \<le> length (rest s)"
        using src [unfolded byte_source_def, rule_format, of s COPY_BUF] by (auto split: prod.splits sum.splits)
      then show ?case using Suc [of "snd (read s COPY_BUF)"] by simp
    qed simp
    have t: "?t = snd (read (read_state read s i) COPY_BUF)" using read_state_add [of read s i 1] by simp
    have "length (rest ?t) < length (rest (read_state read s i))"
      using src [unfolded byte_source_def, rule_format, of "read_state read s i" COPY_BUF] i
      unfolding t by (auto simp: read_answer_def split: prod.splits sum.splits)
    then have "length (rest ?t) < length (rest s)" using keep [of i] by simp
    moreover have "\<forall>j. \<not> ends (read_answer read ?t j)" using less.prems unfolding shift by blast
    ultimately obtain k where "\<forall>j \<ge> k. read_answer read ?t j = Inl Interrupted" using less.hyps by blast
    then have "\<forall>j \<ge> Suc i + k. read_answer read s j = Inl Interrupted"
      unfolding shift by (metis add.commute add_le_imp_le_diff le_add_diff_inverse2 add_leD1)
    then show ?thesis by blast
  qed blast
qed

lemma copy_wide_never:
  assumes "byte_source read rest" "platform_ok p" "length key = 8" "absorbed key f p h done"
    and "length done + length (rest s) < 2 ^ 64" "copy_wide read s h count = None"
  shows "\<exists>k. \<forall>i \<ge> k. read_answer read s i = Inl Interrupted"
proof (rule interrupted_for_ever [OF assms(1)], rule ccontr)
  assume "\<not> (\<forall>i. \<not> ends (read_answer read s i))"
  then obtain j where "ends (read_answer read s j)" by blast
  then obtain i where "first_end read s i" using first_end_exists by metis
  then show False using copy_wide_ok [OF assms(2,3,1,4,5), of i count] assms(6) by auto
qed

text \<open>It returns only when a read ends it.\<close>

lemma copy_wide_ends:
  assumes p: "platform_ok p" "length key = 8" and src: "byte_source read rest"
    and h: "absorbed key f p h done" "length done + length (rest s) < 2 ^ 64" and ret: "copy_wide read s h count = Some r"
  shows "\<exists>i. ends (read_answer read s i)"
proof -
  let ?P = "\<lambda>read s h count r. \<forall>done. byte_source read rest \<and> absorbed key f p h done \<and> length done + length (rest s) < 2 ^ 64
    \<longrightarrow> (\<exists>i. ends (read_answer read s i))"
  have "?P read s h count r"
  proof (rule copy_wide.raw_induct [where P = ?P, OF _ ret], intro allI impI)
    fix loop read s h count r "done"
    assume IH: "\<And>read s h count r. loop read s h count = Some r \<Longrightarrow> ?P read s h count r"
      and eq: "(case read s COPY_BUF of
          (Inl e, s) \<Rightarrow> (if e = Interrupted then loop read s h count else Some (Some (Inl e, h, s)))
        | (Inr bs, s) \<Rightarrow>
            (if bs = [] then Some (Some (Inr count, h, s))
             else if COPY_BUF < length bs then Some None
             else (case h_update h bs of
                     None \<Rightarrow> Some None
                   | Some h \<Rightarrow> loop read s h (count + of_nat (length bs))))) = Some r"
      and a: "byte_source read rest \<and> absorbed key f p h done \<and> length done + length (rest s) < 2 ^ 64"
    obtain q s1 where q: "read s COPY_BUF = (q, s1)" by fastforce
    have c: "case q of Inr bs \<Rightarrow> rest s = bs @ rest s1 \<and> length bs \<le> COPY_BUF | Inl e \<Rightarrow> rest s1 = rest s"
      using a [THEN conjunct1, unfolded byte_source_def, rule_format, of s COPY_BUF] by (auto simp: q split: sum.splits)
    show "\<exists>i. ends (read_answer read s i)"
    proof (cases "ends q")
      case True
      then show ?thesis by (intro exI [of _ 0]) (simp add: q)
    next
      case False
      have "\<exists>i. ends (read_answer read s1 i)"
      proof (cases q)
        case (Inl e)
        then have "loop read s1 h count = Some r" using eq False by (simp add: q)
        then show ?thesis using IH [of read s1 h count r] a c Inl by auto
      next
        case (Inr bs)
        then have b: "rest s = bs @ rest s1" "length bs \<le> COPY_BUF" "bs \<noteq> []" using c False by simp_all
        obtain h1 where h1: "h_update h bs = Some h1" "absorbed key f p h1 (done @ bs)"
          using h_update_ok [OF p, of f h "done" bs] a b(1) by auto
        have "loop read s1 h1 (count + of_nat (length bs)) = Some r" using eq b(2,3) h1(1) by (simp add: q Inr)
        then show ?thesis using IH [of read s1 h1 "count + of_nat (length bs)" r] a h1(2) b(1) by auto
      qed
      then obtain i where "ends (read_answer read s1 i)" by blast
      then show ?thesis by (intro exI [of _ "Suc i"]) (simp add: q)
    qed
  qed
  then show ?thesis using src h by blast
qed

lemma update_reader_ok:
  assumes p: "platform_ok p" "length key = 8" and src: "byte_source read rest"
    and h: "absorbed key f p h done" and len: "length done + length (rest s) < 2 ^ 64" and i: "first_end read s i"
  shows "\<exists>h' got. update_reader read s h =
        Some (Some (case read_answer read s i of Inl e \<Rightarrow> Inl e | Inr _ \<Rightarrow> Inr (), h', read_state read s (Suc i)))
      \<and> absorbed key f p h' (done @ got) \<and> rest s = got @ rest (read_state read s i)"
  using copy_wide_ok [OF p src h len i, of 0] by (auto simp: update_reader_def split: sum.splits)

subsection \<open>\<open>maybe_mmap_file\<close> and \<open>update_mmap\<close>\<close>

text \<open>What the code uses of \<open>File\<close> and of \<open>memmap2\<close>.\<close>

record 'f file_ops =
  f_read :: "'f read_op"
  f_position :: "'f \<Rightarrow> (io_error + u64) \<times> 'f"
  f_seek_end :: "'f \<Rightarrow> int \<Rightarrow> (io_error + u64) \<times> 'f"
  f_rewind :: "'f \<Rightarrow> (io_error + unit) \<times> 'f"
  f_map :: "'f \<Rightarrow> nat \<Rightarrow> io_error + bytes"

definition MINIMUM_MMAP_SIZE :: nat where
  "MINIMUM_MMAP_SIZE = 16 * 1024"

text \<open>\<open>debug\<close> is \<open>cfg!(debug_assertions)\<close>.\<close>

definition maybe_mmap_file ::
  "bool \<Rightarrow> 'f file_ops \<Rightarrow> 'f \<Rightarrow> ((io_error + bytes option) \<times> 'f) option" where
  "maybe_mmap_file debug ops file =
     do {
       file \<leftarrow>
         (if debug then
            (case f_position ops file of
               (Inr position, file) \<Rightarrow> do { assert_that (position = 0); Some file }
             | (Inl _, file) \<Rightarrow> Some file)
          else Some file);
       let seek_offset = MINIMUM_MMAP_SIZE - 1;
       (case f_seek_end ops file (- int seek_offset) of
          (Inl _, file) \<Rightarrow> Some (Inr None, file)
        | (Inr offset_len, file) \<Rightarrow>
            if offset_len = 0 then Some (Inr None, file)
            else
              (case (if unat offset_len \<le> isize_max - seek_offset
                     then (case f_map ops file (unat offset_len + seek_offset) of
                             Inr mmap \<Rightarrow> Some mmap | Inl _ \<Rightarrow> None)
                     else None) of
                 Some mmap \<Rightarrow> Some (Inr (Some mmap), file)
               | None \<Rightarrow>
                   (case f_rewind ops file of
                      (Inl e, file) \<Rightarrow> Some (Inl e, file)
                    | (Inr _, file) \<Rightarrow> Some (Inr None, file))))
     }"

text \<open>\<open>opened\<close> is the result of \<open>File::open\<close>; the file is closed at the end.\<close>

definition update_mmap ::
  "bool \<Rightarrow> 'f file_ops \<Rightarrow> io_error + 'f \<Rightarrow> hasher \<Rightarrow> ((io_error + unit) \<times> hasher) option option" where
  "update_mmap debug ops opened h =
     (case opened of
        Inl e \<Rightarrow> Some (Some (Inl e, h))
      | Inr file \<Rightarrow>
          (case maybe_mmap_file debug ops file of
             None \<Rightarrow> Some None
           | Some (Inl e, _) \<Rightarrow> Some (Some (Inl e, h))
           | Some (Inr (Some mmap), _) \<Rightarrow>
               (case h_update h mmap of None \<Rightarrow> Some None | Some h \<Rightarrow> Some (Some (Inr (), h)))
           | Some (Inr None, file) \<Rightarrow>
               map_option (map_option (\<lambda>(res, h, _). (case res of Inl e \<Rightarrow> Inl e | Inr _ \<Rightarrow> Inr (), h)))
                 (copy_wide (f_read ops) file h 0)))"

text \<open>
  The contract of a regular file: its contents do not change while it is open, a read returns the
  bytes at the cursor and moves it, \<open>seek\<close> from the end returns the position it moved to or fails
  and leaves the cursor, and a map of a part of the file holds its bytes.
\<close>

definition regular_file :: "'f file_ops \<Rightarrow> ('f \<Rightarrow> bytes) \<Rightarrow> ('f \<Rightarrow> nat) \<Rightarrow> bool" where
  "regular_file ops content pos \<longleftrightarrow>
     (\<forall>f. length (content f) < 2 ^ 63)
   \<and> (\<forall>f n bs f'. f_read ops f n = (Inr bs, f') \<longrightarrow>
        content f' = content f \<and> bs = take (length bs) (drop (pos f) (content f)) \<and> length bs \<le> n
        \<and> pos f' = pos f + length bs \<and> (0 < n \<and> bs = [] \<longrightarrow> length (content f) \<le> pos f))
   \<and> (\<forall>f n e f'. f_read ops f n = (Inl e, f') \<longrightarrow> content f' = content f \<and> pos f' = pos f)
   \<and> (\<forall>f r f'. f_position ops f = (r, f') \<longrightarrow>
        content f' = content f \<and> pos f' = pos f \<and> (\<forall>x. r = Inr x \<longrightarrow> x = of_nat (pos f)))
   \<and> (\<forall>f d x f'. f_seek_end ops f d = (Inr x, f') \<longrightarrow>
        content f' = content f \<and> 0 \<le> int (length (content f)) + d
        \<and> pos f' = nat (int (length (content f)) + d) \<and> x = of_nat (pos f'))
   \<and> (\<forall>f d e f'. f_seek_end ops f d = (Inl e, f') \<longrightarrow> content f' = content f \<and> pos f' = pos f)
   \<and> (\<forall>f r f'. f_rewind ops f = (r, f') \<longrightarrow> content f' = content f \<and> (\<forall>u. r = Inr u \<longrightarrow> pos f' = 0))
   \<and> (\<forall>f n m. f_map ops f n = Inr m \<and> n \<le> length (content f) \<longrightarrow> m = take n (content f))"

lemma regular_fileD:
  assumes "regular_file ops content pos"
  shows "length (content f) < 2 ^ 63"
    and "f_read ops f n = (Inr bs, f') \<Longrightarrow> content f' = content f \<and> bs = take (length bs) (drop (pos f) (content f))
      \<and> length bs \<le> n \<and> pos f' = pos f + length bs \<and> (0 < n \<and> bs = [] \<longrightarrow> length (content f) \<le> pos f)"
    and "f_read ops f n = (Inl e, f') \<Longrightarrow> content f' = content f \<and> pos f' = pos f"
    and "f_position ops f = (r, f') \<Longrightarrow> content f' = content f \<and> pos f' = pos f \<and> (\<forall>x. r = Inr x \<longrightarrow> x = of_nat (pos f))"
    and "f_seek_end ops f d = (Inr x, f') \<Longrightarrow> content f' = content f \<and> 0 \<le> int (length (content f)) + d
      \<and> pos f' = nat (int (length (content f)) + d) \<and> x = of_nat (pos f')"
    and "f_seek_end ops f d = (Inl e, f') \<Longrightarrow> content f' = content f \<and> pos f' = pos f"
    and "f_rewind ops f = (q, f') \<Longrightarrow> content f' = content f \<and> (\<forall>u. q = Inr u \<longrightarrow> pos f' = 0)"
    and "f_map ops f n = Inr m \<Longrightarrow> n \<le> length (content f) \<Longrightarrow> m = take n (content f)"
  using assms unfolding regular_file_def by - (elim conjE; fast)+

lemma regular_file_source:
  assumes "regular_file ops content pos"
  shows "byte_source (f_read ops) (\<lambda>f. drop (pos f) (content f))"
proof -
  have "case f_read ops s n of
        (Inr bs, s') \<Rightarrow> drop (pos s) (content s) = bs @ drop (pos s') (content s') \<and> length bs \<le> n
          \<and> (0 < n \<and> bs = [] \<longrightarrow> drop (pos s) (content s) = [])
      | (Inl e, s') \<Rightarrow> drop (pos s') (content s') = drop (pos s) (content s)" for s n
  proof -
    obtain r s' where r: "f_read ops s n = (r, s')" by fastforce
    show ?thesis
    proof (cases r)
      case (Inl e)
      then show ?thesis using regular_fileD(3) [OF assms, of s n e s'] by (simp add: r)
    next
      case (Inr bs)
      then have "content s' = content s" "bs = take (length bs) (drop (pos s) (content s))" "length bs \<le> n"
        "pos s' = pos s + length bs" "0 < n \<and> bs = [] \<longrightarrow> length (content s) \<le> pos s"
        using regular_fileD(2) [OF assms, of s n bs s'] r by simp_all
      then show ?thesis
        unfolding r Inr prod.case sum.case by (metis append_take_drop_id drop_drop add.commute drop_eq_Nil)
    qed
  qed
  then show ?thesis unfolding byte_source_def by blast
qed

text \<open>A map, when there is one, is the whole file; else the cursor is at the start, for ordinary reads.\<close>

lemma regular_file_reads:
  assumes "regular_file ops content pos"
  shows "pos f \<le> length (content f) \<Longrightarrow>
    content (read_state (f_read ops) f i) = content f \<and> pos (read_state (f_read ops) f i) \<le> length (content f)"
proof (induction i arbitrary: f)
  case (Suc i)
  obtain r f' where r: "f_read ops f COPY_BUF = (r, f')" by fastforce
  have "content f' = content f \<and> pos f' \<le> length (content f)"
  proof (cases r)
    case (Inl e)
    then show ?thesis using regular_fileD(3) [OF assms r [unfolded Inl]] Suc.prems by simp
  next
    case (Inr bs)
    have b: "content f' = content f" "bs = take (length bs) (drop (pos f) (content f))" "pos f' = pos f + length bs"
      using regular_fileD(2) [OF assms r [unfolded Inr]] by blast+
    have "length bs \<le> length (content f) - pos f" by (subst b(2)) simp
    then show ?thesis using b(1,3) Suc.prems by simp
  qed
  then show ?case using Suc.IH [of f'] by (simp add: r)
qed simp

text \<open>The states of a file that positioning calls lead to.\<close>

inductive prepared :: "'f file_ops \<Rightarrow> 'f \<Rightarrow> 'f \<Rightarrow> bool" for ops start where
  opened: "prepared ops start start"
| position: "prepared ops start f \<Longrightarrow> prepared ops start (snd (f_position ops f))"
| seek: "prepared ops start f \<Longrightarrow> prepared ops start (snd (f_seek_end ops f d))"
| rewind: "prepared ops start f \<Longrightarrow> prepared ops start (snd (f_rewind ops f))"

lemma prepared_next:
  assumes "prepared ops file f"
  shows "f_position ops f = (r, f') \<Longrightarrow> prepared ops file f'"
    and "f_seek_end ops f d = (q, f') \<Longrightarrow> prepared ops file f'"
    and "f_rewind ops f = (u, f') \<Longrightarrow> prepared ops file f'"
  using prepared.intros(2-4) [OF assms] by (metis snd_conv)+

lemma maybe_mmap_file_ok:
  assumes reg: "regular_file ops content pos" and start: "pos f = 0"
  shows "\<exists>r f'. maybe_mmap_file debug ops f = Some (r, f') \<and> content f' = content f
    \<and> (case r of Inl e \<Rightarrow> \<exists>f2. prepared ops f f2 \<and> f_rewind ops f2 = (Inl e, f')
        | Inr None \<Rightarrow> prepared ops f f' \<and> pos f' = 0 | Inr (Some m) \<Rightarrow> m = content f)"
proof -
  have "\<exists>f1. (if debug then (case f_position ops f of
             (Inr position, file) \<Rightarrow> do { assert_that (position = 0); Some file }
           | (Inl _, file) \<Rightarrow> Some file) else Some f) = Some f1 \<and> content f1 = content f \<and> pos f1 = 0 \<and> prepared ops f f1"
    using regular_fileD(4) [OF reg, of f] start prepared.opened [of ops f] prepared_next(1) [OF prepared.opened]
    by (cases debug; cases "f_position ops f"; cases "fst (f_position ops f)") auto
  then obtain f1 where f1: "maybe_mmap_file debug ops f = maybe_mmap_file False ops f1" "content f1 = content f" "pos f1 = 0"
      "prepared ops f f1"
    by (auto simp: maybe_mmap_file_def)
  let ?k = "16383 :: nat"
  obtain r f2 where seek: "f_seek_end ops f1 (- 16383) = (r, f2)" by fastforce
  note f2 = prepared_next(2) [OF f1(4) seek]
  show ?thesis
  proof (cases r)
    case (Inl e)
    then show ?thesis using regular_fileD(6) [OF reg, of f1 "- 16383" e f2] seek f1(2,3) f2 unfolding f1(1) by (simp add: maybe_mmap_file_def MINIMUM_MMAP_SIZE_def)
  next
    case (Inr x)
    have s: "content f2 = content f" "?k \<le> length (content f)" "pos f2 = length (content f) - ?k" "x = of_nat (pos f2)"
      using regular_fileD(5) [OF reg seek [unfolded Inr]] f1(2) by auto
    have u: "unat x = length (content f) - ?k"
      using s(3,4) regular_fileD(1) [OF reg, of f] by (simp add: unat_of_nat take_bit_nat_eq_self)
    consider (zero) "x = 0"
      | (map) m where "x \<noteq> 0" "unat x \<le> isize_max - ?k" "f_map ops f2 (unat x + ?k) = Inr m"
      | (rewind) "x \<noteq> 0" "(if unat x \<le> isize_max - ?k then (case f_map ops f2 (unat x + ?k) of Inr m \<Rightarrow> Some m | Inl _ \<Rightarrow> None)
                            else None) = None"
      by (cases "x = 0"; cases "unat x \<le> isize_max - ?k"; cases "f_map ops f2 (unat x + ?k)") simp_all
    then show ?thesis
    proof cases
      case zero
      then have "pos f2 = 0" using u s(3) by simp
      then show ?thesis using zero seek s(1) f2 unfolding f1(1) by (simp add: maybe_mmap_file_def MINIMUM_MMAP_SIZE_def Inr)
    next
      case map
      then have "m = take (unat x + ?k) (content f2)" using u s by (intro regular_fileD(8) [OF reg]) auto
      then have "m = content f" using u s by simp
      then show ?thesis using map seek s(1) unfolding f1(1) by (simp add: maybe_mmap_file_def MINIMUM_MMAP_SIZE_def Inr)
    next
      case rewind
      obtain q f3 where q: "f_rewind ops f2 = (q, f3)" by fastforce
      have "maybe_mmap_file False ops f1 = Some (case q of Inl e \<Rightarrow> Inl e | Inr _ \<Rightarrow> Inr None, f3)"
        using rewind seek q by (cases q) (simp_all add: maybe_mmap_file_def MINIMUM_MMAP_SIZE_def Inr)
      then show ?thesis using regular_fileD(7) [OF reg q] s(1) f2 prepared_next(3) [OF f2 q] q unfolding f1(1) by (cases q) auto
    qed
  qed
qed

subsection \<open>\<open>Write\<close>, \<open>Read\<close> and the \<open>digest\<close> traits\<close>

definition hasher_write :: "hasher \<Rightarrow> bytes \<Rightarrow> (hasher \<times> (io_error + nat)) option" where
  "hasher_write h inp = do { h \<leftarrow> h_update h inp; Some (h, Inr (length inp)) }"

definition reader_read :: "output_reader \<Rightarrow> nat \<Rightarrow> (output_reader \<times> bytes \<times> (io_error + nat)) option" where
  "reader_read r len = do { (r, buf) \<leftarrow> reader_fill r len; Some (r, buf, Inr (length buf)) }"

definition finalize_into_reset :: "hasher \<Rightarrow> (hasher \<times> bytes) option" where
  "finalize_into_reset h = do { out \<leftarrow> finalize h; Some (h_reset h, out) }"

definition finalize_xof_reset :: "hasher \<Rightarrow> (hasher \<times> output_reader) option" where
  "finalize_xof_reset h = do { reader \<leftarrow> finalize_xof h; Some (h_reset h, reader) }"

text \<open>\<open>write_all\<close>-style use: every write takes all of its input.\<close>

lemma finalize_into_reset_ok:
  assumes "platform_ok p" "length key = 8" "absorbed key f p h inp"
  shows "finalize_into_reset h = Some (new_internal p key f, root_hash (tree_output key f p 0 inp))"
  using final_output_ok [OF assms] absorbed_offset [OF assms(3)] reset_absorbed [OF assms(3)]
  by (simp add: finalize_into_reset_def finalize_def)

subsection \<open>Properties\<close>

text \<open>C32. Hashing a file, however the reads are cut, interrupted and failing, and whether it is mapped or read:
  \<open>update_mmap\<close> does not panic, and it returns unless the reads are all interrupted from some point on.
  Success means that the whole file went into the hash once: its hash is the one-shot hash of what came before
  and the file.  A failure is the error of a rewind, the hasher as it was, or that of the first read that
  failed with anything but an interruption, the hasher having absorbed the file up to there.\<close>

theorem update_mmap_hashes_file:
  assumes "platform_ok p" and "length key = 8" and "h_updates (new_internal p key flags) parts = Some h"
    and "regular_file ops content pos" and "pos file = 0"
    and "length (concat parts) + length (content file) < 2 ^ 64"
  shows "case update_mmap debug ops (Inr file) h of
      None \<Rightarrow> \<exists>f k. prepared ops file f \<and> (\<forall>i \<ge> k. read_answer (f_read ops) f i = Inl Interrupted)
    | Some None \<Rightarrow> False
    | Some (Some (Inr _, h')) \<Rightarrow>
        finalize h' = map_option root_hash (hash_all_at_once p (concat parts @ content file) key flags)
    | Some (Some (Inl e, h')) \<Rightarrow>
        (\<exists>f. prepared ops file f \<and> fst (f_rewind ops f) = Inl e \<and> h' = h)
      \<or> (\<exists>f i. prepared ops file f \<and> pos f = 0 \<and> first_end (f_read ops) f i \<and> read_answer (f_read ops) f i = Inl e
           \<and> finalize h' = map_option root_hash
               (hash_all_at_once p (concat parts @ take (pos (read_state (f_read ops) f i)) (content file)) key flags))"
proof -
  obtain r f1 where m: "maybe_mmap_file debug ops file = Some (r, f1)" "content f1 = content file"
    "case r of Inl e \<Rightarrow> \<exists>f2. prepared ops file f2 \<and> f_rewind ops f2 = (Inl e, f1)
      | Inr None \<Rightarrow> prepared ops file f1 \<and> pos f1 = 0 | Inr (Some m) \<Rightarrow> m = content file"
    using maybe_mmap_file_ok [OF assms(4,5), of debug] by blast
  have h: "absorbed key flags p h (concat parts)"
    using h_updates_ok [OF assms(1,2) new_internal_absorbed, of parts flags] assms(3,6) by simp
  have fin: "finalize h' = map_option root_hash (hash_all_at_once p inp key flags)" if "absorbed key flags p h' inp" for h' inp
    using final_output_ok [OF assms(1,2) that] absorbed_offset [OF that]
    by (simp add: finalize_def hash_all_at_once_ok assms(1,2))
  consider (failed) e where "r = Inl e" | (mapped) b where "r = Inr (Some b)" | (read) "r = Inr None"
    by (metis option.exhaust sumE)
  then show ?thesis
  proof cases
    case failed
    then show ?thesis using m(3) by (auto simp: update_mmap_def m(1))
  next
    case mapped
    then have b: "b = content file" using m(3) by simp
    obtain h' where h': "h_update h b = Some h'" "absorbed key flags p h' (concat parts @ b)"
      using h_update_ok [OF assms(1,2) h, of b] assms(6) b by auto
    then show ?thesis using fin [OF h'(2)] b by (simp add: update_mmap_def m(1) mapped)
  next
    case read
    let ?read = "f_read ops" and ?rest = "\<lambda>f. drop (pos f) (content f)"
    have f1: "prepared ops file f1" "pos f1 = 0" "?rest f1 = content file" using m(2,3) read by simp_all
    have len: "length (concat parts) + length (?rest f1) < 2 ^ 64" using assms(6) f1(3) by simp
    note src = regular_file_source [OF assms(4)]
    have up: "update_mmap debug ops (Inr file) h =
        map_option (map_option (\<lambda>(res, h, _). (case res of Inl e \<Rightarrow> Inl e | Inr _ \<Rightarrow> Inr (), h))) (copy_wide ?read f1 h 0)"
      by (simp add: update_mmap_def m(1) read)
    show ?thesis
    proof (cases "copy_wide ?read f1 h 0")
      case None
      then show ?thesis using copy_wide_never [OF src assms(1,2) h len None] f1(1) by (auto simp: up)
    next
      case (Some r)
      then obtain i where i: "first_end ?read f1 i" using copy_wide_ends [OF assms(1,2) src h len Some] first_end_exists by metis
      let ?at = "read_state ?read f1 i"
      obtain h' got where c: "copy_wide ?read f1 h 0 =
          Some (Some (case read_answer ?read f1 i of Inl e \<Rightarrow> Inl e | Inr _ \<Rightarrow> Inr (0 + of_nat (length got)), h', read_state ?read f1 (Suc i)))"
        "absorbed key flags p h' (concat parts @ got)" "?rest f1 = got @ ?rest ?at"
        using copy_wide_ok [OF assms(1,2) src h len i, of 0] by blast
      have at: "content ?at = content file" "pos ?at \<le> length (content file)"
        using regular_file_reads [OF assms(4), of f1 i] f1(2) m(2) by simp_all
      then have "take (pos ?at) (content file) @ ?rest ?at = got @ ?rest ?at" using c(3) f1(3) by simp
      then have got: "take (pos ?at) (content file) = got" by simp
      have h': "finalize h' = map_option root_hash (hash_all_at_once p (concat parts @ got) key flags)" by (rule fin [OF c(2)])
      show ?thesis
      proof (cases "read_answer ?read f1 i")
        case (Inl e)
        then show ?thesis using c(1) f1(1,2) i h' got by (auto simp: up)
      next
        case (Inr bs)
        have "?rest ?at = []"
        proof -
          have e: "fst (?read ?at COPY_BUF) = Inr []" using i Inr by (simp add: first_end_def read_answer_def)
          obtain f2 where "?read ?at COPY_BUF = (Inr [], f2)" using e by (metis prod.collapse)
          then show ?thesis using regular_fileD(2) [OF assms(4), of ?at COPY_BUF "[]" f2] by (simp add: COPY_BUF_def)
        qed
        then have "got = content file" using c(3) f1(3) by simp
        then show ?thesis using c(1) h' Inr by (simp add: up)
      qed
    qed
  qed
qed

text \<open>A file on a disk that serves every request, as an instance of the contract.\<close>

definition disk_file :: "bytes \<Rightarrow> nat file_ops" where
  "disk_file bs =
     \<lparr>f_read = (\<lambda>at n. (Inr (take n (drop at bs)), at + min n (length bs - at))),
      f_position = (\<lambda>at. (Inr (of_nat at), at)),
      f_seek_end = (\<lambda>at d. if int (length bs) + d < 0 then (Inl (Io_Error 22), at)
                        else (Inr (of_nat (nat (int (length bs) + d))), nat (int (length bs) + d))),
      f_rewind = (\<lambda>at. (Inr (), 0)),
      f_map = (\<lambda>at n. Inr (take n bs))\<rparr>"

lemma disk_file_regular: "length bs < 2 ^ 63 \<Longrightarrow> regular_file (disk_file bs) (\<lambda>_. bs) id"
  unfolding regular_file_def disk_file_def by (auto simp: min_def split: if_splits)

lemma update_mmap_hashes_file_witness:
  "case update_mmap True (disk_file (replicate 20000 7)) (Inr 0) (new_internal (detect (strict_build True)) IV 0) of
      None \<Rightarrow> \<exists>f k. prepared (disk_file (replicate 20000 7)) 0 f
        \<and> (\<forall>i \<ge> k. read_answer (f_read (disk_file (replicate 20000 7))) f i = Inl Interrupted)
    | Some None \<Rightarrow> False
    | Some (Some (Inr _, h')) \<Rightarrow>
        finalize h' = map_option root_hash (hash_all_at_once (detect (strict_build True)) (concat [] @ replicate 20000 7) IV 0)
    | Some (Some (Inl e, h')) \<Rightarrow>
        (\<exists>f. prepared (disk_file (replicate 20000 7)) 0 f \<and> fst (f_rewind (disk_file (replicate 20000 7)) f) = Inl e
          \<and> h' = new_internal (detect (strict_build True)) IV 0)
      \<or> (\<exists>f i. prepared (disk_file (replicate 20000 7)) 0 f \<and> id f = 0 \<and> first_end (f_read (disk_file (replicate 20000 7))) f i
           \<and> read_answer (f_read (disk_file (replicate 20000 7))) f i = Inl e
           \<and> finalize h' = map_option root_hash
               (hash_all_at_once (detect (strict_build True))
                 (concat [] @ take (id (read_state (f_read (disk_file (replicate 20000 7))) f i)) (replicate 20000 7)) IV 0))"
  by (rule update_mmap_hashes_file [where content = "\<lambda>_. replicate 20000 7" and pos = id])
    (simp_all add: disk_file_regular IV_def)

end
