(* ===== verification/Cpu_Detect.thy ===== *)
theory Cpu_Detect
  imports Siv_Prelude "HOL-Library.Monad_Syntax"
begin

section \<open>Detection of AVX2\<close>

text \<open>
  \<open>x86_simd::has_avx2\<close> of \<open>src/lib.rs\<close>, the answer that the key-stream driver dispatches on: the
  decision \<open>avx2_from_cpuid\<close> over the registers, \<open>detect_avx2\<close> that reads them in a safe order, and
  the cache, a relaxed atomic byte that any number of threads load and store at any time.  The
  processor is a parameter; an instruction it does not have (\<open>XGETBV\<close> without \<open>OSXSAVE\<close>) is
  \<open>None\<close>.  The calls of the threads are a step relation; a relaxed load may return any value that
  was ever stored.
\<close>

subsection \<open>The decision\<close>

record cpuid_result =
  reg_eax :: u32
  reg_ebx :: u32
  reg_ecx :: u32

record cpu =
  cpuid_count :: "u32 \<Rightarrow> u32 \<Rightarrow> cpuid_result"
  xgetbv :: "u32 \<Rightarrow> u64 option"

definition avx2_from_cpuid :: "u32 \<Rightarrow> u32 \<Rightarrow> u64 option \<Rightarrow> u32 option \<Rightarrow> bool" where
  "avx2_from_cpuid max_basic_leaf leaf1_ecx xcr0 leaf7_ebx =
     (let osxsave = (drop_bit 27 leaf1_ecx AND 1 = 1);
          avx = (drop_bit 28 leaf1_ecx AND 1 = 1)
      in if \<not> osxsave \<or> \<not> avx then False
         else case xcr0 of
                Some x \<Rightarrow>
                  (if x AND 0b110 = 0b110 then
                     (if max_basic_leaf < 7 then False
                      else case leaf7_ebx of
                             Some ebx \<Rightarrow> drop_bit 5 ebx AND 1 = 1
                           | None \<Rightarrow> False)
                   else False)
              | None \<Rightarrow> False)"

definition detect_avx2 :: "cpu \<Rightarrow> bool option" where
  "detect_avx2 c =
     do {
       let max_basic_leaf = reg_eax (cpuid_count c 0 0);
       let leaf1 = cpuid_count c 1 0;
       xcr0 \<leftarrow> (if drop_bit 27 (reg_ecx leaf1) AND 1 = 1 then map_option Some (xgetbv c 0) else Some None);
       let leaf7_ebx = (if 7 \<le> max_basic_leaf then Some (reg_ebx (cpuid_count c 7 0)) else None);
       Some (avx2_from_cpuid max_basic_leaf (reg_ecx leaf1) xcr0 leaf7_ebx)
     }"

text \<open>
  The processor manual: \<open>XGETBV\<close> exists when \<open>OSXSAVE\<close> is set.  AVX2 may be used when leaf 7 exists
  and says so, and the operating system saves the \<open>XMM\<close> and \<open>YMM\<close> registers.
\<close>

definition cpu_ok :: "cpu \<Rightarrow> bool" where
  "cpu_ok c \<longleftrightarrow> (bit (reg_ecx (cpuid_count c 1 0)) 27 \<longrightarrow> xgetbv c 0 \<noteq> None)"

definition avx2_usable :: "cpu \<Rightarrow> bool" where
  "avx2_usable c \<longleftrightarrow> 7 \<le> reg_eax (cpuid_count c 0 0) \<and> bit (reg_ebx (cpuid_count c 7 0)) 5
     \<and> bit (reg_ecx (cpuid_count c 1 0)) 27 \<and> bit (reg_ecx (cpuid_count c 1 0)) 28
     \<and> (case xgetbv c 0 of Some x \<Rightarrow> bit x 1 \<and> bit x 2 | None \<Rightarrow> False)"

lemma and_6: "(x :: u64) AND 6 = 6 \<longleftrightarrow> bit x 1 \<and> bit x 2"
proof -
  have "(6 :: u64) = push_bit 1 1 OR push_bit 2 1" by simp
  then have six: "bit (6 :: u64) n \<longleftrightarrow> n = 1 \<or> n = 2" for n
    by (simp only: bit_or_iff bit_push_bit_iff bit_1_iff) auto
  have "x AND 6 = 6 \<longleftrightarrow> (\<forall>n < 64. bit x n \<and> (n = 1 \<or> n = 2) \<longleftrightarrow> n = 1 \<or> n = 2)"
    unfolding bit_eq_iff bit_and_iff six by simp
  also have "\<dots> \<longleftrightarrow> bit x 1 \<and> bit x 2" 
  proof
    assume all: "\<forall>n < 64. bit x n \<and> (n = 1 \<or> n = 2) \<longleftrightarrow> n = 1 \<or> n = 2"
    show "bit x 1 \<and> bit x 2" using all [rule_format, of 1] all [rule_format, of 2] by simp
  qed auto
  finally show ?thesis .
qed

lemma detect_avx2_ok: "cpu_ok c \<Longrightarrow> detect_avx2 c = Some (avx2_usable c)"
  by (auto simp: cpu_ok_def detect_avx2_def avx2_usable_def avx2_from_cpuid_def Let_def and_6 not_less
      simp flip: bit_iff_and_drop_bit_eq_1 split: option.splits)

subsection \<open>The cache and the threads\<close>

datatype detect_pc = Calling | Detecting | Storing bool | Returned bool

text \<open>\<open>cache_history\<close> holds every value the cache had; a thread that returned may call again.\<close>

record detect_state =
  cache_history :: "u8 list"
  thread_pc :: "nat \<Rightarrow> detect_pc"

definition after_load :: "u8 \<Rightarrow> detect_pc" where
  "after_load v = (if v = 1 then Returned False else if v = 2 then Returned True else Detecting)"

definition cache_value :: "bool \<Rightarrow> u8" where
  "cache_value detected = (if detected then 2 else 1)"

inductive has_avx2_step :: "cpu \<Rightarrow> nat \<Rightarrow> detect_state \<Rightarrow> detect_state \<Rightarrow> bool" for c where
  load: "thread_pc s i = Calling \<Longrightarrow> v \<in> set (cache_history s) \<Longrightarrow>
    has_avx2_step c i s (s\<lparr>thread_pc := (thread_pc s)(i := after_load v)\<rparr>)"
| detect: "thread_pc s i = Detecting \<Longrightarrow> detect_avx2 c = Some d \<Longrightarrow>
    has_avx2_step c i s (s\<lparr>thread_pc := (thread_pc s)(i := Storing d)\<rparr>)"
| store: "thread_pc s i = Storing d \<Longrightarrow>
    has_avx2_step c i s (s\<lparr>cache_history := cache_history s @ [cache_value d],
                           thread_pc := (thread_pc s)(i := Returned d)\<rparr>)"
| again: "thread_pc s i = Returned d \<Longrightarrow>
    has_avx2_step c i s (s\<lparr>thread_pc := (thread_pc s)(i := Calling)\<rparr>)"

inductive_cases has_avx2_stepE: "has_avx2_step c i s s'"

text \<open>The states of a process whose threads call \<open>has_avx2\<close> in any interleaving.\<close>

inductive has_avx2_reach :: "cpu \<Rightarrow> detect_state \<Rightarrow> bool" for c where
  start: "has_avx2_reach c \<lparr>cache_history = [0], thread_pc = (\<lambda>_. Calling)\<rparr>"
| step: "has_avx2_reach c s \<Longrightarrow> has_avx2_step c i s s' \<Longrightarrow> has_avx2_reach c s'"

definition detect_inv :: "cpu \<Rightarrow> detect_state \<Rightarrow> bool" where
  "detect_inv c s \<longleftrightarrow> 0 \<in> set (cache_history s) \<and> set (cache_history s) \<subseteq> {0, cache_value (avx2_usable c)}
     \<and> (\<forall>i d. thread_pc s i \<in> {Storing d, Returned d} \<longrightarrow> d = avx2_usable c)"

lemma after_load_ok: "v \<in> {0, cache_value d} \<Longrightarrow> after_load v \<in> {Detecting, Returned d}"
  by (cases d) (auto simp: after_load_def cache_value_def)

lemma detect_inv_move:
  "detect_inv c s \<Longrightarrow> q \<in> {Calling, Detecting, Storing (avx2_usable c), Returned (avx2_usable c)} \<Longrightarrow>
   detect_inv c (s\<lparr>thread_pc := (thread_pc s)(i := q)\<rparr>)"
  by (auto simp: detect_inv_def)

lemma detect_inv_store:
  "detect_inv c s \<Longrightarrow> detect_inv c (s\<lparr>cache_history := cache_history s @ [cache_value (avx2_usable c)]\<rparr>)"
  by (simp add: detect_inv_def)

lemma detect_inv_pc: "detect_inv c s \<Longrightarrow> thread_pc s i \<in> {Storing d, Returned d} \<Longrightarrow> d = avx2_usable c"
  unfolding detect_inv_def by blast

lemma detect_inv_step:
  assumes "cpu_ok c" "has_avx2_step c i s s'" "detect_inv c s"
  shows "detect_inv c s'"
  using assms(2)
proof (cases rule: has_avx2_step.cases)
  case (load v)
  then have "after_load v \<in> {Detecting, Returned (avx2_usable c)}"
    using assms(3) by (intro after_load_ok) (auto simp: detect_inv_def)
  then show ?thesis unfolding load(1) by (intro detect_inv_move [OF assms(3)]) blast
next
  case (detect d)
  then have "d = avx2_usable c" using detect_avx2_ok [OF assms(1)] by simp
  then show ?thesis unfolding detect(1) by (intro detect_inv_move [OF assms(3)]) simp
next
  case (store d)
  then have d: "d = avx2_usable c" using detect_inv_pc [OF assms(3), of i d] by simp
  show ?thesis
    using detect_inv_move [OF detect_inv_store [OF assms(3)], of "Returned (avx2_usable c)" i]
    unfolding store(1) d by simp
next
  case (again d)
  then show ?thesis unfolding again(1) by (intro detect_inv_move [OF assms(3)]) simp
qed

lemma detect_inv_reach:
  assumes "cpu_ok c" "has_avx2_reach c s"
  shows "detect_inv c s"
  using assms(2)
proof (induction rule: has_avx2_reach.induct)
  case start
  then show ?case by (simp add: detect_inv_def)
next
  case (step s i s')
  then show ?case using detect_inv_step [OF assms(1)] by blast
qed

text \<open>How many steps of its own a thread is from its answer.\<close>

fun to_return :: "detect_pc \<Rightarrow> nat" where
  "to_return Calling = 3"
| "to_return Detecting = 2"
| "to_return (Storing _) = 1"
| "to_return (Returned _) = 0"

lemma step_progress:
  assumes "has_avx2_step c i s s'" "0 < to_return (thread_pc s i)"
  shows "to_return (thread_pc s' i) < to_return (thread_pc s i)" "\<forall>j. j \<noteq> i \<longrightarrow> thread_pc s' j = thread_pc s j"
  using assms by (auto elim!: has_avx2_stepE simp: after_load_def)

lemma step_enabled:
  assumes "cpu_ok c" "detect_inv c s"
  shows "\<exists>s'. has_avx2_step c i s s'"
proof (cases "thread_pc s i")
  case Calling
  moreover have "0 \<in> set (cache_history s)" using assms(2) by (simp add: detect_inv_def)
  ultimately show ?thesis by (blast intro: has_avx2_step.load)
qed (use detect_avx2_ok [OF assms(1)] in \<open>blast intro: has_avx2_step.detect has_avx2_step.store has_avx2_step.again\<close>)+

subsection \<open>Properties\<close>

text \<open>C33. However many threads ask at once, and whichever stored values their relaxed loads see,
  \<open>has_avx2\<close> answers every call the same: whether the processor has AVX2 and the system saves its
  registers.  No call faults on \<open>XGETBV\<close> or waits for another: a thread can always take its next
  step, every step of its own brings it closer to its answer, and no step of another moves it.\<close>

theorem has_avx2_answers_alike:
  assumes "cpu_ok c" and "has_avx2_reach c s"
  shows "(\<forall>d. thread_pc s i = Returned d \<longrightarrow> d = avx2_usable c)
    \<and> (\<exists>s'. has_avx2_step c i s s')
    \<and> (\<forall>s'. has_avx2_step c i s s' \<longrightarrow> has_avx2_reach c s'
         \<and> (0 < to_return (thread_pc s i) \<longrightarrow> to_return (thread_pc s' i) < to_return (thread_pc s i)))
    \<and> (\<forall>j s'. has_avx2_step c j s s' \<and> j \<noteq> i \<longrightarrow> thread_pc s' i = thread_pc s i)"
proof (intro conjI)
  note inv = detect_inv_reach [OF assms]
  show "\<forall>d. thread_pc s i = Returned d \<longrightarrow> d = avx2_usable c" using inv by (auto simp: detect_inv_def)
  show "\<exists>s'. has_avx2_step c i s s'" by (rule step_enabled [OF assms(1) inv])
  show "\<forall>s'. has_avx2_step c i s s' \<longrightarrow> has_avx2_reach c s'
      \<and> (0 < to_return (thread_pc s i) \<longrightarrow> to_return (thread_pc s' i) < to_return (thread_pc s i))"
    using step_progress(1) has_avx2_reach.step [OF assms(2)] by blast
  show "\<forall>j s'. has_avx2_step c j s s' \<and> j \<noteq> i \<longrightarrow> thread_pc s' i = thread_pc s i"
    by (auto elim!: has_avx2_stepE)
qed

text \<open>A processor whose highest leaf is 1: leaf 7 returns data of leaf 1, with bit 5 set.\<close>

definition old_cpu :: cpu where
  "old_cpu = \<lparr>cpuid_count = (\<lambda>leaf _. if leaf = 0 then \<lparr>reg_eax = 1, reg_ebx = 0, reg_ecx = 0\<rparr>
                else \<lparr>reg_eax = 0, reg_ebx = 0x20, reg_ecx = 0x18000000\<rparr>),
              xgetbv = (\<lambda>_. Some 7)\<rparr>"

lemma old_cpu_run: "has_avx2_reach old_cpu \<lparr>cache_history = [0, 1], thread_pc = (\<lambda>_. Calling)(0 := Returned False)\<rparr>"
proof -
  let ?s = "\<lambda>pc. \<lparr>cache_history = [0 :: u8], thread_pc = (\<lambda>_. Calling)(0 := pc)\<rparr>"
  have no: "detect_avx2 old_cpu = Some False"
    by (simp add: detect_avx2_ok cpu_ok_def old_cpu_def avx2_usable_def word_le_nat_alt)
  have "has_avx2_reach old_cpu (?s Detecting)"
    using has_avx2_reach.step [OF has_avx2_reach.start has_avx2_step.load [of _ 0 0]] by (simp add: after_load_def)
  then have "has_avx2_reach old_cpu (?s (Storing False))"
    using has_avx2_reach.step [OF _ has_avx2_step.detect [of "?s Detecting" 0 old_cpu False]] no by simp
  then show ?thesis
    using has_avx2_reach.step [OF _ has_avx2_step.store [of "?s (Storing False)" 0 False old_cpu]]
    by (simp add: cache_value_def)
qed

lemma has_avx2_answers_alike_witness: "avx2_usable old_cpu = False"
proof -
  have "cpu_ok old_cpu" by (simp add: cpu_ok_def old_cpu_def)
  from has_avx2_answers_alike [OF this old_cpu_run, of 0] show ?thesis by auto
qed

end
