(* ===== verification/Build_Manifest.thy ===== *)
theory Build_Manifest
  imports Siv_Prelude "HOL-Library.Monad_Syntax" "HOL-Library.Sublist"
begin

section \<open>The build script's check of the manifest\<close>

text \<open>
  \<open>build.rs\<close> refuses to build the crate against a BLAKE3 that is not the fork beside it: it reads
  \<open>Cargo.toml\<close> line by line and panics (\<open>None\<close>) unless each \<open>blake3\<close> entry of a dependency table
  carries \<open>path = "blake3"\<close> and there is one.  The text is a list of bytes; \<open>strip_comment\<close> pushes each
  byte as a character, so a line after it is a list of code points below 256, again a HOL string.
\<close>

subsection \<open>\<open>str\<close>\<close>

definition is_white :: "char \<Rightarrow> bool" where
  "is_white c \<longleftrightarrow> c \<in> {CHR 0x09, CHR 0x0A, CHR 0x0B, CHR 0x0C, CHR 0x0D, CHR 0x20, CHR 0x85, CHR 0xA0}"

definition trim_start :: "string \<Rightarrow> string" where
  "trim_start s = dropWhile is_white s"

definition trim_both :: "(char \<Rightarrow> bool) \<Rightarrow> string \<Rightarrow> string" where
  "trim_both P s = rev (dropWhile P (rev (dropWhile P s)))"

abbreviation trim :: "string \<Rightarrow> string" where
  "trim \<equiv> trim_both is_white"

definition split_once :: "char \<Rightarrow> string \<Rightarrow> (string \<times> string) option" where
  "split_once c s = (if c \<in> set s then Some (takeWhile (\<lambda>x. x \<noteq> c) s, tl (dropWhile (\<lambda>x. x \<noteq> c) s)) else None)"

definition rsplit_once :: "char \<Rightarrow> string \<Rightarrow> (string \<times> string) option" where
  "rsplit_once c s =
     (if c \<in> set s then
        (let after = rev (takeWhile (\<lambda>x. x \<noteq> c) (rev s)) in Some (take (length s - length after - 1) s, after))
      else None)"

definition strip_prefix :: "char \<Rightarrow> string \<Rightarrow> string option" where
  "strip_prefix c s = (case s of [] \<Rightarrow> None | x # xs \<Rightarrow> if x = c then Some xs else None)"

fun find_str :: "string \<Rightarrow> string \<Rightarrow> nat option" where
  "find_str key [] = (if key = [] then Some 0 else None)"
| "find_str key (c # cs) = (if prefix key (c # cs) then Some 0 else map_option Suc (find_str key cs))"

text \<open>\<open>str::lines\<close>: a line ends at a newline, which takes a carriage return before it along.\<close>

definition strip_cr :: "string \<Rightarrow> string" where
  "strip_cr l = (if l \<noteq> [] \<and> last l = CHR 0x0D then butlast l else l)"

fun lines_from :: "string \<Rightarrow> string \<Rightarrow> string list" where
  "lines_from l [] = (if l = [] then [] else [l])"
| "lines_from l (c # cs) = (if c = CHR 0x0A then strip_cr l # lines_from [] cs else lines_from (l @ [c]) cs)"

subsection \<open>Pieces of TOML\<close>

abbreviation dquote :: char where "dquote \<equiv> CHR 0x22"
abbreviation squote :: char where "squote \<equiv> CHR 0x27"
abbreviation backslash :: char where "backslash \<equiv> CHR 0x5C"

fun strip_from :: "char option \<Rightarrow> string \<Rightarrow> string" where
  "strip_from _ [] = []"
| "strip_from (Some q) (c # cs) =
     (if q = dquote \<and> c = backslash
      then (case cs of [] \<Rightarrow> [c] | d # ds \<Rightarrow> c # d # strip_from (Some q) ds)
      else c # strip_from (if c = q then None else Some q) cs)"
| "strip_from None (c # cs) =
     (if c = CHR ''#'' then []
      else c # strip_from (if c = dquote \<or> c = squote then Some c else None) cs)"

definition strip_comment :: "string \<Rightarrow> string" where
  "strip_comment l = strip_from None l"

definition is_dependency_section :: "string \<Rightarrow> bool" where
  "is_dependency_section name =
     (let (pre, final) = (case rsplit_once (CHR ''.'') name of Some (p, l) \<Rightarrow> (Some p, l) | None \<Rightarrow> (None, name))
      in if final \<notin> {''dependencies'', ''dev-dependencies'', ''build-dependencies''} then False
         else (case pre of None \<Rightarrow> True | Some p \<Rightarrow> p = ''workspace'' \<or> prefix ''target.'' p))"

definition unquote :: "string \<Rightarrow> string" where
  "unquote key =
     (let key = trim key
      in if 2 \<le> length key \<and> (hd key = dquote \<and> last key = dquote \<or> hd key = squote \<and> last key = squote)
         then butlast (tl key) else key)"

definition dep_section_crate :: "string \<Rightarrow> string option" where
  "dep_section_crate name =
     do {
       (pre, final) \<leftarrow> rsplit_once (CHR ''.'') name;
       (if is_dependency_section pre \<and> final \<noteq> [] then Some (unquote final) else None)
     }"

definition opening_brackets :: "string \<Rightarrow> int" where
  "opening_brackets s = int (length (filter (\<lambda>c. c = CHR ''{'' \<or> c = CHR ''['') s))"

definition closing_brackets :: "string \<Rightarrow> int" where
  "closing_brackets s = int (length (filter (\<lambda>c. c = CHR ''}'' \<or> c = CHR '']'') s))"

text \<open>What follows a key: \<open>= "value"\<close>.\<close>

definition quoted_value :: "string \<Rightarrow> string option" where
  "quoted_value rest =
     do {
       rest \<leftarrow> strip_prefix (CHR ''='') (trim_start rest);
       rest \<leftarrow> strip_prefix dquote (trim_start rest);
       (if dquote \<in> set rest then Some (takeWhile (\<lambda>c. c \<noteq> dquote) rest) else None)
     }"

definition starts_word :: "string \<Rightarrow> nat \<Rightarrow> bool" where
  "starts_word tab at \<longleftrightarrow> at = 0 \<or> tab ! (at - 1) \<in> {CHR '' '', CHR '','', CHR ''{'', CHR ''('', CHR 0x09}"

text \<open>The search for a key; its only caller passes \<open>path\<close>, an empty key would never end.\<close>

lemma find_str_bound: "find_str key s = Some i \<Longrightarrow> i \<le> length s \<and> prefix key (drop i s)"
proof (induction s arbitrary: i)
  case (Cons c cs)
  then show ?case by (auto split: if_splits)
qed (auto split: if_splits)

function inline_from :: "string \<Rightarrow> string \<Rightarrow> nat \<Rightarrow> string option" where
  "inline_from tab key start =
     (if key = [] then None
      else (case find_str key (drop start tab) of
              None \<Rightarrow> None
            | Some i \<Rightarrow>
                let at = start + i;
                    found = (if starts_word tab at then quoted_value (drop (at + length key) tab) else None)
                in (case found of Some v \<Rightarrow> Some v | None \<Rightarrow> inline_from tab key (at + length key))))"
  by pat_completeness auto
termination
proof (relation "measure (\<lambda>(tab, key, start). length tab - start)", goal_cases)
  case (2 tab key start i at found)
  have "prefix key (drop i (drop start tab))" using find_str_bound [OF 2(2)] by simp
  then have "length key \<le> length tab - (i + start)" using prefix_length_le by fastforce
  moreover have "0 < length key" using 2(1) by simp
  ultimately show ?case unfolding 2(3) in_measure prod.case by linarith
qed simp

declare inline_from.simps [simp del]

definition inline_value :: "string \<Rightarrow> string \<Rightarrow> string option" where
  "inline_value tab key = inline_from tab key 0"

subsection \<open>The check\<close>

record manifest_state =
  sec_name :: string
  checked :: nat
  pending :: "(string \<times> string) option"
  depth :: int
  table_dep :: "(string \<times> string option) option"

definition finish_entry :: "string \<Rightarrow> string \<Rightarrow> string \<Rightarrow> nat \<Rightarrow> nat option" where
  "finish_entry sec key v n =
     (if unquote key = ''blake3'' \<and> is_dependency_section sec then do {
        let n = n + 1;
        assert_that (inline_value v ''path'' = Some ''blake3'');
        Some n
      } else Some n)"

definition finalize_table :: "manifest_state \<Rightarrow> manifest_state option" where
  "finalize_table st =
     (case table_dep st of
        None \<Rightarrow> Some st
      | Some (krate, path) \<Rightarrow>
          (let st = st\<lparr>table_dep := None\<rparr>
           in if krate = ''blake3'' then do {
                let st = st\<lparr>checked := checked st + 1\<rparr>;
                assert_that (path = Some ''blake3'');
                Some st
              } else Some st))"

definition line_step :: "manifest_state \<Rightarrow> string \<Rightarrow> manifest_state option" where
  "line_step st raw =
     (let line = trim (strip_comment raw)
      in if line = [] then Some st
         else case pending st of
           Some (key, v) \<Rightarrow>
             (let v = v @ '' '' @ line;
                  d = depth st + opening_brackets line - closing_brackets line
              in if d \<le> 0 then do {
                   n \<leftarrow> finish_entry (sec_name st) key v (checked st);
                   Some (st\<lparr>pending := None, depth := d, checked := n\<rparr>)
                 } else Some (st\<lparr>pending := Some (key, v), depth := d\<rparr>))
         | None \<Rightarrow>
             (if hd line = CHR ''['' then do {
                st \<leftarrow> finalize_table st;
                let sec = trim (trim_both (\<lambda>c. c = CHR ''['' \<or> c = CHR '']'') line);
                Some (st\<lparr>sec_name := sec, table_dep := map_option (\<lambda>c. (c, None)) (dep_section_crate sec)\<rparr>)
              } else
                (case split_once (CHR ''='') line of
                   None \<Rightarrow> Some st
                 | Some (key, v) \<Rightarrow>
                     (let key = trim key; v = trim v
                      in case table_dep st of
                           Some (krate, path) \<Rightarrow>
                             Some (if key = ''path''
                                   then st\<lparr>table_dep := Some (krate, Some (trim_both (\<lambda>c. c = dquote) v))\<rparr>
                                   else st)
                         | None \<Rightarrow>
                             (let d = opening_brackets v - closing_brackets v
                              in if d \<le> 0 then do {
                                   n \<leftarrow> finish_entry (sec_name st) key v (checked st);
                                   Some (st\<lparr>depth := d, checked := n\<rparr>)
                                 } else Some (st\<lparr>depth := d, pending := Some (key, v)\<rparr>))))))"

fun line_steps :: "manifest_state \<Rightarrow> string list \<Rightarrow> manifest_state option" where
  "line_steps st [] = Some st"
| "line_steps st (l # ls) = line_step st l \<bind> (\<lambda>st. line_steps st ls)"

definition manifest_start :: manifest_state where
  "manifest_start = \<lparr>sec_name = [], checked = 0, pending = None, depth = 0, table_dep = None\<rparr>"

definition check_blake3_is_a_path_dependency :: "string \<Rightarrow> unit option" where
  "check_blake3_is_a_path_dependency manifest =
     do {
       st \<leftarrow> line_steps manifest_start (lines_from [] manifest);
       st \<leftarrow> finalize_table st;
       assert_that (checked st \<noteq> 0)
     }"

text \<open>
  \<open>main\<close>: the directory cargo names, whether the two files exist and what the manifest reads are given by
  the environment and the file system.
\<close>

definition path_join :: "string \<Rightarrow> string \<Rightarrow> string" where
  "path_join dir file = (if dir = [] \<or> last dir = CHR ''/'' then dir @ file else dir @ ''/'' @ file)"

definition build_main :: "(string \<Rightarrow> string option) \<Rightarrow> (string \<Rightarrow> bool) \<Rightarrow> (string \<Rightarrow> string option) \<Rightarrow> unit option" where
  "build_main env_var file_exists read_to_string =
     do {
       manifest_dir \<leftarrow> env_var ''CARGO_MANIFEST_DIR'';
       assert_that (\<not> file_exists (path_join manifest_dir ''blake3/upstream-sync''));
       assert_that (file_exists (path_join manifest_dir ''blake3/Cargo.toml''));
       manifest \<leftarrow> read_to_string (path_join manifest_dir ''Cargo.toml'');
       check_blake3_is_a_path_dependency manifest
     }"

subsection \<open>The search for a key in an inline table\<close>

lemma find_str_least: "find_str key s = Some i \<Longrightarrow> j < i \<Longrightarrow> \<not> prefix key (drop j s)"
proof (induction s arbitrary: i j)
  case (Cons c cs)
  then show ?case by (cases j) (auto split: if_splits)
qed (auto split: if_splits)

lemma find_str_None: "find_str key s = None \<Longrightarrow> \<not> prefix key (drop j s)"
proof (induction s arbitrary: j)
  case (Cons c cs)
  then show ?case by (cases j) (auto split: if_splits)
qed (auto split: if_splits)

lemma find_str_SomeI:
  assumes "prefix key (drop i s)" "i \<le> length s" "\<forall>j < i. \<not> prefix key (drop j s)"
  shows "find_str key s = Some i"
proof (cases "find_str key s")
  case None
  then show ?thesis using find_str_None assms(1) by blast
next
  case (Some k)
  have "\<not> k < i" using assms(3) find_str_bound [OF Some] by blast
  moreover have "\<not> i < k" using find_str_least [OF Some] assms(1) by blast
  ultimately show ?thesis using Some by simp
qed

text \<open>A part of the text in which the key never answers may be skipped.\<close>

lemma inline_skip:
  assumes "\<forall>at. lo \<le> at \<and> at < hi \<and> prefix key (drop at tab) \<longrightarrow>
      at + length key \<le> hi \<and> (starts_word tab at \<longrightarrow> quoted_value (drop (at + length key) tab) = None)"
    and "lo \<le> hi" "hi \<le> length tab" "key \<noteq> []"
  shows "inline_from tab key lo = inline_from tab key hi"
  using assms(1,2)
proof (induction "hi - lo" arbitrary: lo rule: less_induct)
  case less
  show ?case
  proof (cases "find_str key (drop lo tab)")
    case None
    have "find_str key (drop hi tab) = None"
    proof (cases "find_str key (drop hi tab)")
      case (Some k)
      then have "prefix key (drop (k + hi) tab)" using find_str_bound by fastforce
      then have "prefix key (drop (k + hi - lo) (drop lo tab))" using less.prems(2) by simp
      then show ?thesis using find_str_None [OF None] by blast
    qed simp
    then show ?thesis using None assms(4) by (simp add: inline_from.simps [of tab key lo] inline_from.simps [of tab key hi])
  next
    case (Some i)
    have at: "prefix key (drop (lo + i) tab)" using find_str_bound [OF Some] by (simp add: add.commute)
    show ?thesis
    proof (cases "lo + i < hi")
      case True
      then have r: "lo + i + length key \<le> hi" "starts_word tab (lo + i) \<longrightarrow> quoted_value (drop (lo + i + length key) tab) = None"
        using less.prems(1) at by auto
      have "inline_from tab key lo = inline_from tab key (lo + i + length key)"
        using Some r(2) assms(4) by (subst inline_from.simps) (auto simp: Let_def)
      also have "\<dots> = inline_from tab key hi"
      proof (rule less.hyps)
        show "hi - (lo + i + length key) < hi - lo" using True assms(4) by (cases key) auto
      qed (use less.prems(1) r(1) in auto)
      finally show ?thesis .
    next
      case False
      then have le: "hi \<le> lo + i" by simp
      have "find_str key (drop hi tab) = Some (lo + i - hi)"
      proof (rule find_str_SomeI)
        show "prefix key (drop (lo + i - hi) (drop hi tab))" using at le by simp
        show "lo + i - hi \<le> length (drop hi tab)" using find_str_bound [OF Some] assms(3) less.prems(2) by (simp, arith)
        show "\<forall>j < lo + i - hi. \<not> prefix key (drop j (drop hi tab))"
        proof (intro allI impI)
          fix j assume "j < lo + i - hi"
          then have "hi - lo + j < i" using less.prems(2) by arith
          then have "\<not> prefix key (drop (hi - lo + j) (drop lo tab))" by (rule find_str_least [OF Some])
          then show "\<not> prefix key (drop j (drop hi tab))" using less.prems(2) by (simp add: add.commute)
        qed
      qed
      then show ?thesis
        using Some le assms(4) by (simp add: inline_from.simps [of tab key lo] inline_from.simps [of tab key hi])
    qed
  qed
qed

end
