(* ===== verification/Manifest_Data.thy ===== *)
theory Manifest_Data
  imports Build_Manifest
begin

section \<open>Manifests as data\<close>

text \<open>
  Manifests as data, their text, and their dependency edges on \<open>blake3\<close>, named after the tables of the cargo
  format and not after the code.  \<open>Manifest_Check\<close> shows what the check of \<open>build.rs\<close> decides on them.
\<close>

subsection \<open>The fragment of TOML\<close>

text \<open>
  The fragment of TOML that \<open>Cargo.toml\<close> is written in: tables and arrays of tables with dotted headers;
  one entry a line, its value a string, a boolean, a number, an array of strings, or an inline table of
  these; comment lines, blank lines and comments after entries and headers.
\<close>

datatype toml_key = Bare string | Quoted char string

fun key_name :: "toml_key \<Rightarrow> string" where
  "key_name (Bare s) = s"
| "key_name (Quoted q s) = s"

fun key_text :: "toml_key \<Rightarrow> string" where
  "key_text (Bare s) = s"
| "key_text (Quoted q s) = q # s @ [q]"

datatype toml_simple = Str string | Bool bool | Num string | Arr "string list"
datatype toml_value = Simple toml_simple | Inline "(string \<times> toml_simple) list"
datatype toml_line = Entry toml_key toml_value "string option" | Note string | Blank

record toml_table =
  is_array :: bool
  header :: "toml_key list"
  header_comment :: "string option"
  body :: "toml_line list"

definition quoted :: "string \<Rightarrow> string" where
  "quoted v = dquote # v @ [dquote]"

fun render_strings :: "string list \<Rightarrow> string" where
  "render_strings [] = []"
| "render_strings (v # vs) = quoted v @ (if vs = [] then [] else '', '') @ render_strings vs"

fun render_simple :: "toml_simple \<Rightarrow> string" where
  "render_simple (Str v) = quoted v"
| "render_simple (Bool b) = (if b then ''true'' else ''false'')"
| "render_simple (Num n) = n"
| "render_simple (Arr vs) = ''['' @ render_strings vs @ '']''"

fun render_pairs :: "(string \<times> toml_simple) list \<Rightarrow> string" where
  "render_pairs [] = []"
| "render_pairs ((k, v) # kvs) = k @ '' = '' @ render_simple v @ (if kvs = [] then '' }'' else '', '') @ render_pairs kvs"

fun render_value :: "toml_value \<Rightarrow> string" where
  "render_value (Simple v) = render_simple v"
| "render_value (Inline kvs) = (if kvs = [] then ''{ }'' else ''{ '' @ render_pairs kvs)"

fun render_comment :: "string option \<Rightarrow> string" where
  "render_comment None = []"
| "render_comment (Some c) = '' #'' @ c"

fun render_line :: "toml_line \<Rightarrow> string" where
  "render_line (Entry k v c) = key_text k @ '' = '' @ render_value v @ render_comment c"
| "render_line (Note c) = ''#'' @ c"
| "render_line Blank = []"

fun dotted :: "string list \<Rightarrow> string" where
  "dotted [] = []"
| "dotted (s # ss) = s @ (if ss = [] then [] else CHR ''.'' # dotted ss)"

definition render_header :: "toml_table \<Rightarrow> string" where
  "render_header t =
     (if is_array t then ''[['' else ''['') @ dotted (map key_text (header t)) @ (if is_array t then '']]'' else '']'')
       @ render_comment (header_comment t)"

definition table_lines :: "toml_table \<Rightarrow> string list" where
  "table_lines t = render_header t # map render_line (body t)"

definition render :: "toml_table list \<Rightarrow> string" where
  "render m = concat (map (\<lambda>l. l @ [CHR 0x0A]) (concat (map table_lines m)))"

text \<open>The text of a manifest; its last line may lack the newline.\<close>

definition manifest_text :: "toml_table list \<Rightarrow> string \<Rightarrow> bool" where
  "manifest_text m text_of \<longleftrightarrow>
     text_of = render m \<or> text_of @ [CHR 0x0A] = render m \<and> text_of \<noteq> [] \<and> last text_of \<notin> {CHR 0x0A, CHR 0x0D}"

subsection \<open>The dependency edges\<close>

text \<open>
  The tables that hold dependencies, and those that are one: \<open>[dependencies]\<close> and its two relatives, each
  also under \<open>workspace\<close> and under \<open>target.<spec>\<close>.
\<close>

datatype toml_role = Dependencies | Dependency string | Other

definition dep_kinds :: "string list" where
  "dep_kinds = [''dependencies'', ''dev-dependencies'', ''build-dependencies'']"

fun table_role :: "string list \<Rightarrow> toml_role" where
  "table_role [a] = (if a \<in> set dep_kinds then Dependencies else Other)"
| "table_role [a, b] =
     (if a \<in> set dep_kinds then Dependency b
      else if a = ''workspace'' \<and> b \<in> set dep_kinds then Dependencies else Other)"
| "table_role [a, b, c] =
     (if a = ''workspace'' \<and> b \<in> set dep_kinds then Dependency c
      else if a = ''target'' \<and> c \<in> set dep_kinds then Dependencies else Other)"
| "table_role [a, b, c, d] = (if a = ''target'' \<and> c \<in> set dep_kinds then Dependency d else Other)"
| "table_role _ = Other"

fun entries :: "toml_line list \<Rightarrow> (string \<times> toml_value) list" where
  "entries [] = []"
| "entries (Entry k v c # ls) = (key_name k, v) # entries ls"
| "entries (_ # ls) = entries ls"

fun string_of_simple :: "toml_simple option \<Rightarrow> string option" where
  "string_of_simple (Some (Str v)) = Some v"
| "string_of_simple _ = None"

text \<open>The path of an entry of a dependency table, and of a table that is a dependency.\<close>

fun entry_path :: "toml_value \<Rightarrow> string option" where
  "entry_path (Simple _) = None"
| "entry_path (Inline kvs) = string_of_simple (map_of kvs ''path'')"

fun scalar :: "toml_value option \<Rightarrow> string option" where
  "scalar (Some (Simple v)) = string_of_simple (Some v)"
| "scalar _ = None"

definition table_edges :: "toml_table \<Rightarrow> string option list" where
  "table_edges t =
     (case table_role (map key_name (header t)) of
        Dependencies \<Rightarrow> map (entry_path \<circ> snd) (filter (\<lambda>(k, v). k = ''blake3'') (entries (body t)))
      | Dependency krate \<Rightarrow> (if krate = ''blake3'' then [scalar (map_of (entries (body t)) ''path'')] else [])
      | Other \<Rightarrow> [])"

definition edges :: "toml_table list \<Rightarrow> string option list" where
  "edges m = concat (map table_edges m)"

subsection \<open>Well-formed manifests\<close>

definition bare_char :: "char \<Rightarrow> bool" where
  "bare_char c \<longleftrightarrow> c \<in> set ''abcdefghijklmnopqrstuvwxyzABCDEFGHIJKLMNOPQRSTUVWXYZ0123456789_-''"

text \<open>The characters a string may have, and a quoted key.\<close>

definition plain :: "char \<Rightarrow> bool" where
  "plain c \<longleftrightarrow> c \<notin> {dquote, backslash, CHR ''='', CHR ''{'', CHR ''}'', CHR ''['', CHR '']'', CHR 0x0A, CHR 0x0D}"

definition key_char :: "char \<Rightarrow> char \<Rightarrow> bool" where
  "key_char q c \<longleftrightarrow> c \<noteq> q \<and> c \<notin> {backslash, CHR ''.'', CHR 0x0A, CHR 0x0D}"

definition wf_bare :: "string \<Rightarrow> bool" where
  "wf_bare k \<longleftrightarrow> k \<noteq> [] \<and> (\<forall>c \<in> set k. bare_char c)"

fun wf_key :: "toml_key \<Rightarrow> bool" where
  "wf_key (Bare s) \<longleftrightarrow> wf_bare s"
| "wf_key (Quoted q s) \<longleftrightarrow> (q = dquote \<or> q = squote) \<and> (\<forall>c \<in> set s. key_char q c)"

fun wf_simple :: "toml_simple \<Rightarrow> bool" where
  "wf_simple (Str v) \<longleftrightarrow> (\<forall>c \<in> set v. plain c)"
| "wf_simple (Bool _) \<longleftrightarrow> True"
| "wf_simple (Num n) \<longleftrightarrow> n \<noteq> [] \<and> (\<forall>c \<in> set n. c \<in> set ''0123456789+-.'')"
| "wf_simple (Arr vs) \<longleftrightarrow> (\<forall>v \<in> set vs. \<forall>c \<in> set v. plain c)"

fun wf_value :: "toml_value \<Rightarrow> bool" where
  "wf_value (Simple v) \<longleftrightarrow> wf_simple v"
| "wf_value (Inline kvs) \<longleftrightarrow> distinct (map fst kvs) \<and> (\<forall>(k, v) \<in> set kvs. wf_bare k \<and> wf_simple v)"

fun wf_comment :: "string option \<Rightarrow> bool" where
  "wf_comment None \<longleftrightarrow> True"
| "wf_comment (Some c) \<longleftrightarrow> CHR 0x0A \<notin> set c"

text \<open>
  The words that name dependency tables and paths are written bare, and a dependency table has a header of
  its own: no entry is called after one.
\<close>

definition keywords_bare :: "toml_key \<Rightarrow> bool" where
  "keywords_bare k \<longleftrightarrow>
     (case k of Bare _ \<Rightarrow> True | Quoted _ s \<Rightarrow> s \<notin> set dep_kinds \<and> s \<notin> {''workspace'', ''target'', ''path''})"

fun wf_line :: "toml_line \<Rightarrow> bool" where
  "wf_line (Entry k v c) \<longleftrightarrow> wf_key k \<and> keywords_bare k \<and> CHR ''='' \<notin> set (key_name k) \<and> key_name k \<notin> set dep_kinds
     \<and> wf_value v \<and> wf_comment c"
| "wf_line (Note c) \<longleftrightarrow> CHR 0x0A \<notin> set c"
| "wf_line Blank \<longleftrightarrow> True"

text \<open>
  No header goes below a table that is a dependency or names a longer target; an array of tables is no
  dependency table.
\<close>

definition wf_names :: "string list \<Rightarrow> bool" where
  "wf_names ns \<longleftrightarrow> ns \<noteq> []
     \<and> (hd ns \<in> set dep_kinds \<longrightarrow> length ns \<le> 2)
     \<and> (hd ns = ''workspace'' \<longrightarrow> length ns \<le> 3 \<or> ns ! 1 \<notin> set dep_kinds)
     \<and> (hd ns = ''target'' \<longrightarrow> length ns \<le> 3 \<or> length ns = 4 \<and> ns ! 2 \<in> set dep_kinds)"

definition wf_table :: "toml_table \<Rightarrow> bool" where
  "wf_table t \<longleftrightarrow> wf_names (map key_name (header t)) \<and> (\<forall>k \<in> set (header t). wf_key k \<and> keywords_bare k)
     \<and> (is_array t \<longrightarrow> table_role (map key_name (header t)) = Other) \<and> wf_comment (header_comment t)
     \<and> (\<forall>l \<in> set (body t). wf_line l) \<and> distinct (map fst (entries (body t)))"

subsection \<open>Characters\<close>

lemma bare_not [simp]:
  assumes "bare_char c"
  shows "\<not> is_white c" "c \<noteq> dquote" "c \<noteq> squote" "c \<noteq> CHR ''#''" "c \<noteq> CHR ''=''" "c \<noteq> CHR ''.''"
    "c \<noteq> CHR ''{''" "c \<noteq> CHR ''}''" "c \<noteq> CHR ''[''" "c \<noteq> CHR '']''" "c \<noteq> CHR '' ''" "c \<noteq> CHR '',''"
    "c \<noteq> CHR ''(''" "c \<noteq> CHR 0x0A" "c \<noteq> CHR 0x0D" "c \<noteq> CHR 0x09"
  using assms by (auto simp: bare_char_def is_white_def)

lemma bare_never [simp]:
  "\<not> bare_char dquote" "\<not> bare_char squote" "\<not> bare_char (CHR ''#'')" "\<not> bare_char (CHR ''='')" "\<not> bare_char (CHR ''.'')"
  "\<not> bare_char (CHR 0x0A)" "\<not> bare_char (CHR 0x0D)" "\<not> bare_char (CHR ''['')" "\<not> bare_char (CHR '']'')" "\<not> bare_char (CHR '' '')"
  by (simp_all add: bare_char_def)

lemma num_not:
  assumes "c \<in> set ''0123456789+-.''"
  shows "\<not> is_white c" "c \<notin> {dquote, squote, CHR ''#'', CHR ''='', CHR ''{'', CHR ''}'', CHR ''['', CHR '']'', CHR 0x0A, CHR 0x0D}"
  using assms by (auto simp: is_white_def)

lemma white_chars [simp]: "is_white (CHR '' '')" "\<not> is_white dquote" "\<not> is_white squote" "\<not> is_white (CHR ''['')"
  "\<not> is_white (CHR '']'')" "\<not> is_white (CHR ''{'')" "\<not> is_white (CHR ''}'')" "\<not> is_white (CHR '','')"
  "\<not> is_white (CHR ''='')" "\<not> is_white (CHR ''#'')"
  by (simp_all add: is_white_def)

end
