(* ===== verification/Manifest_Check.thy ===== *)
theory Manifest_Check
  imports Manifest_Data
begin

section \<open>What the manifest check decides\<close>

text \<open>
  On the text of a well-formed manifest (\<open>Manifest_Data\<close>) the check lets the build go on exactly if every
  dependency edge on \<open>blake3\<close> has the path of the fork and there is one.  The last part evaluates the check
  on texts of other forms.
\<close>

subsection \<open>The texts of values\<close>








lemma brackets_append [simp]:
  "opening_brackets (x @ y) = opening_brackets x + opening_brackets y"
  "closing_brackets (x @ y) = closing_brackets x + closing_brackets y"
  by (simp_all add: opening_brackets_def closing_brackets_def)





















subsection \<open>The search for \<open>path\<close>\<close>










subsection \<open>Keys and headers\<close>


















subsection \<open>The lines of a manifest\<close>














subsection \<open>An entry\<close>




subsection \<open>Tables\<close>







definition good :: "string option list \<Rightarrow> bool" where
  "good es \<longleftrightarrow> (\<forall>e \<in> set es. e = Some ''blake3'')"

lemma good_simps [simp]: "good []" "good (e # es) \<longleftrightarrow> e = Some ''blake3'' \<and> good es" "good (es @ es') \<longleftrightarrow> good es \<and> good es'"
  by (auto simp: good_def)













subsection \<open>Outside the fragment\<close>

text \<open>
  The check can be passed by an edge without a path: \<open>dotted_key_manifest\<close> takes \<open>blake3\<close> from the registry by
  a dotted key the check does not read as an entry on \<open>blake3\<close>, \<open>quoted_section_manifest\<close> in a section whose
  name is quoted; in both the count is satisfied by the development edge.  And TOML's other string form is
  refused.
\<close>

definition newline :: string where
  "newline = [CHR 0x0A]"

definition dotted_key_manifest :: string where
  "dotted_key_manifest =
     ''[dependencies]'' @ newline @ ''blake3.version = '' @ quoted ''1.8.7'' @ newline @
     ''[dev-dependencies]'' @ newline @ ''blake3 = { path = '' @ quoted ''blake3'' @ '' }'' @ newline"

definition quoted_section_manifest :: string where
  "quoted_section_manifest =
     ''['' @ quoted ''dependencies'' @ '']'' @ newline @ ''blake3 = '' @ quoted ''1.8.7'' @ newline @
     ''[dev-dependencies]'' @ newline @ ''blake3 = { path = '' @ quoted ''blake3'' @ '' }'' @ newline"

definition literal_string_manifest :: string where
  "literal_string_manifest =
     ''[dependencies]'' @ newline @ ''blake3 = { path = '' @ [squote] @ ''blake3'' @ [squote] @ '' }'' @ newline"

lemma dotted_key_passes: "check_blake3_is_a_path_dependency dotted_key_manifest = Some ()"
  by code_simp

lemma quoted_section_passes: "check_blake3_is_a_path_dependency quoted_section_manifest = Some ()"
  by code_simp

lemma literal_string_refused: "check_blake3_is_a_path_dependency literal_string_manifest = None"
  by code_simp

end
