(* ===== verification/Build_Config.thy ===== *)
theory Build_Config
  imports Siv_Prelude "HOL-Library.Monad_Syntax"
begin

section \<open>The build script of the fork\<close>

text \<open>
  \<open>blake3/build.rs\<close> chooses the vector kernels: it reads the environment cargo sets, asks the C compiler
  what it supports, and prints the \<open>cfg\<close>s under which \<open>platform.rs\<close> is compiled.  The environment is a map
  and the C toolchain (the crate \<open>cc\<close>) a record of parameters; the result is the list of what the script
  did, or \<open>None\<close> when it panics, exits or returns an error.  Lines that only tell cargo when to run the
  script again are left out.
\<close>

type_synonym env = "string \<Rightarrow> string option"

record cc_build =
  cc_flags :: "string list"
  cc_files :: "string list"

datatype build_event = Check_Cfg string | Cfg string | Warning string | Compile string cc_build | Remove string

type_synonym build_log = "build_event list"

text \<open>
  \<open>flag_supported\<close> is \<open>None\<close> when there is no compiler to ask; \<open>compiler_path\<close> is the quoted path, or
  \<open>None\<close> where \<open>get_compiler\<close> exits; \<open>read_c\<close> tells whether the directory \<open>c\<close> can be listed.
\<close>

record toolchain =
  flag_supported :: "env \<Rightarrow> cc_build \<Rightarrow> string \<Rightarrow> bool option"
  compiler_path :: "env \<Rightarrow> cc_build \<Rightarrow> string option"
  compiles :: "env \<Rightarrow> cc_build \<Rightarrow> string \<Rightarrow> bool"
  read_c :: bool

subsection \<open>The environment\<close>

definition defined :: "env \<Rightarrow> string \<Rightarrow> bool" where
  "defined e v \<longleftrightarrow> e v \<noteq> None"

definition is_pure :: "env \<Rightarrow> bool" where
  "is_pure e = defined e ''CARGO_FEATURE_PURE''"

definition should_prefer_intrinsics :: "env \<Rightarrow> bool" where
  "should_prefer_intrinsics e = defined e ''CARGO_FEATURE_PREFER_INTRINSICS''"

definition is_neon :: "env \<Rightarrow> bool" where
  "is_neon e = defined e ''CARGO_FEATURE_NEON''"

definition is_no_neon :: "env \<Rightarrow> bool" where
  "is_no_neon e = defined e ''CARGO_FEATURE_NO_NEON''"

definition is_wasm32_simd :: "env \<Rightarrow> bool" where
  "is_wasm32_simd e = defined e ''CARGO_FEATURE_WASM32_SIMD''"

definition is_ci :: "env \<Rightarrow> bool" where
  "is_ci e = defined e ''BLAKE3_CI''"

definition warn :: "env \<Rightarrow> string \<Rightarrow> build_log option" where
  "warn e w = do {
     assert_that (CHR 0x0A \<notin> set w);
     assert_that (\<not> is_ci e);
     Some [Warning w]
   }"

definition unwrap_or_default :: "string option \<Rightarrow> string" where
  "unwrap_or_default v = (case v of None \<Rightarrow> [] | Some s \<Rightarrow> s)"

text \<open>The operators of Rust stop at the first operand that decides, and a panic in it is the result.\<close>

definition both :: "bool option \<Rightarrow> bool option \<Rightarrow> bool option" where
  "both a b = (case a of Some True \<Rightarrow> b | _ \<Rightarrow> a)"

definition either :: "bool option \<Rightarrow> bool option \<Rightarrow> bool option" where
  "either a b = (case a of Some False \<Rightarrow> b | _ \<Rightarrow> a)"

fun split_at :: "char \<Rightarrow> string \<Rightarrow> string \<Rightarrow> string list" where
  "split_at d part [] = [part]"
| "split_at d part (c # cs) = (if c = d then part # split_at d [] cs else split_at d (part @ [c]) cs)"

definition target_components :: "env \<Rightarrow> string list option" where
  "target_components e = map_option (split_at (CHR ''-'') []) (e ''TARGET'')"

definition component_is :: "env \<Rightarrow> nat \<Rightarrow> string \<Rightarrow> bool option" where
  "component_is e i s = do {
     cs \<leftarrow> target_components e;
     (if i < length cs then Some (cs ! i = s) else None)
   }"

definition is_x86_64 :: "env \<Rightarrow> bool option" where
  "is_x86_64 e = component_is e 0 ''x86_64''"

definition is_windows_target :: "env \<Rightarrow> bool option" where
  "is_windows_target e = map_option (\<lambda>os. os = ''windows'') (e ''CARGO_CFG_TARGET_OS'')"

definition to_ascii_lowercase :: "string \<Rightarrow> string" where
  "to_ascii_lowercase s =
     map (\<lambda>c. let n = of_char c :: nat in if 65 \<le> n \<and> n \<le> 90 then char_of (n + 32) else c) s"

definition MSVC_NAMES :: "string list" where
  "MSVC_NAMES = ['''', ''cl'', ''cl.exe'']"

definition use_msvc_asm :: "env \<Rightarrow> bool" where
  "use_msvc_asm e =
     (let target_os = unwrap_or_default (e ''CARGO_CFG_TARGET_OS'');
          target_env = unwrap_or_default (e ''CARGO_CFG_TARGET_ENV'');
          target_windows_msvc = (target_os = ''windows'' \<and> target_env = ''msvc'');
          host_triple = unwrap_or_default (e ''HOST'');
          target_triple = unwrap_or_default (e ''TARGET'');
          cross_compiling = (host_triple \<noteq> target_triple);
          cc = to_ascii_lowercase (unwrap_or_default (e ''CC''))
      in if \<not> target_windows_msvc then False
         else if \<not> cross_compiling \<and> List.member MSVC_NAMES cc then True
         else
           (let target_arch = unwrap_or_default (e ''CARGO_CFG_TARGET_ARCH'');
                target_vendor = unwrap_or_default (e ''CARGO_CFG_TARGET_VENDOR'');
                cc = to_ascii_lowercase
                  (unwrap_or_default (e (''CC_'' @ target_arch @ ''_'' @ target_vendor @ ''_windows_msvc'')))
            in List.member MSVC_NAMES cc))"

definition is_x86_32 :: "env \<Rightarrow> bool option" where
  "is_x86_32 e = either (component_is e 0 ''i386'') (either (component_is e 0 ''i586'') (component_is e 0 ''i686''))"

definition is_aarch64 :: "env \<Rightarrow> bool option" where
  "is_aarch64 e = component_is e 0 ''aarch64''"

definition is_armv7 :: "env \<Rightarrow> bool option" where
  "is_armv7 e = component_is e 0 ''armv7''"

definition is_arm :: "env \<Rightarrow> bool option" where
  "is_arm e = either (is_armv7 e) (either (is_aarch64 e) (component_is e 0 ''arm''))"

definition is_wasm32 :: "env \<Rightarrow> bool option" where
  "is_wasm32 e = component_is e 0 ''wasm32''"

definition endianness :: "env \<Rightarrow> string option" where
  "endianness e = do {
     endianness \<leftarrow> e ''CARGO_CFG_TARGET_ENDIAN'';
     assert_that (endianness = ''little'' \<or> endianness = ''big'');
     Some endianness
   }"

definition is_little_endian :: "env \<Rightarrow> bool option" where
  "is_little_endian e = map_option (\<lambda>s. s = ''little'') (endianness e)"

definition is_big_endian :: "env \<Rightarrow> bool option" where
  "is_big_endian e = map_option (\<lambda>s. s = ''big'') (endianness e)"

definition is_windows_msvc :: "env \<Rightarrow> bool option" where
  "is_windows_msvc e =
     both (either (component_is e 1 ''pc'') (component_is e 1 ''win7''))
       (both (component_is e 2 ''windows'') (component_is e 3 ''msvc''))"

definition is_windows_gnu :: "env \<Rightarrow> bool option" where
  "is_windows_gnu e =
     both (either (component_is e 1 ''pc'') (component_is e 1 ''win7''))
       (both (component_is e 2 ''windows'') (map_option Not (component_is e 3 ''msvc'')))"

subsection \<open>The C compiler\<close>

definition cc_flag :: "string \<Rightarrow> cc_build \<Rightarrow> cc_build" where
  "cc_flag f b = b\<lparr>cc_flags := cc_flags b @ [f]\<rparr>"

definition cc_file :: "string \<Rightarrow> cc_build \<Rightarrow> cc_build" where
  "cc_file f b = b\<lparr>cc_files := cc_files b @ [f]\<rparr>"

definition new_build :: "env \<Rightarrow> cc_build option" where
  "new_build e = do {
     msvc \<leftarrow> is_windows_msvc e;
     (let build = \<lparr>cc_flags = [], cc_files = []\<rparr> in Some (if \<not> msvc then cc_flag ''-std=c11'' build else build))
   }"

definition cc_compile :: "env \<Rightarrow> toolchain \<Rightarrow> cc_build \<Rightarrow> string \<Rightarrow> build_log option" where
  "cc_compile e tc b lib = (if compiles tc e b lib then Some [Compile lib b] else None)"

datatype c_compiler = NoCompiler | NoAVX512 | YesAVX512

definition c_compiler_support :: "env \<Rightarrow> toolchain \<Rightarrow> (c_compiler \<times> build_log) option" where
  "c_compiler_support e tc = do {
     build \<leftarrow> new_build e;
     msvc \<leftarrow> is_windows_msvc e;
     (let (flags_checked, support_result) =
            (if msvc then (''/arch:AVX512'', flag_supported tc e build ''/arch:AVX512'')
             else (''-mavx512f and -mavx512vl'',
                   (case flag_supported tc e build ''-mavx512f'' of
                      Some True \<Rightarrow> flag_supported tc e build ''-mavx512vl''
                    | false_or_error \<Rightarrow> false_or_error)))
      in case support_result of
           Some True \<Rightarrow> Some (YesAVX512, [])
         | Some False \<Rightarrow> do {
             path \<leftarrow> compiler_path tc e build;
             w \<leftarrow> warn e (''The C compiler '' @ path @ '' does not support '' @ flags_checked @ ''.'');
             Some (NoAVX512, w)
           }
         | None \<Rightarrow> do {
             path \<leftarrow> compiler_path tc e build;
             w \<leftarrow> warn e (''No C compiler '' @ path @ '' detected.'');
             Some (NoCompiler, w)
           })
   }"

subsection \<open>The kernels\<close>

definition build_sse2_sse41_avx2_rust_intrinsics :: build_log where
  "build_sse2_sse41_avx2_rust_intrinsics = [Cfg ''blake3_sse2_rust'', Cfg ''blake3_sse41_rust'', Cfg ''blake3_avx2_rust'']"

definition build_sse2_sse41_avx2_assembly :: "env \<Rightarrow> toolchain \<Rightarrow> build_log option" where
  "build_sse2_sse41_avx2_assembly e tc = do {
     x86_64 \<leftarrow> is_x86_64 e;
     assert_that x86_64;
     build \<leftarrow> new_build e;
     windows \<leftarrow> is_windows_target e;
     let build =
       (if windows then
          if use_msvc_asm e then
            cc_file ''c/blake3_avx2_x86-64_windows_msvc.asm'' (cc_file ''c/blake3_sse41_x86-64_windows_msvc.asm''
              (cc_file ''c/blake3_sse2_x86-64_windows_msvc.asm'' build))
          else
            cc_file ''c/blake3_avx2_x86-64_windows_gnu.S'' (cc_file ''c/blake3_sse41_x86-64_windows_gnu.S''
              (cc_file ''c/blake3_sse2_x86-64_windows_gnu.S'' build))
        else
          cc_file ''c/blake3_avx2_x86-64_unix.S'' (cc_file ''c/blake3_sse41_x86-64_unix.S''
            (cc_file ''c/blake3_sse2_x86-64_unix.S'' build)));
     c \<leftarrow> cc_compile e tc build ''blake3_sse2_sse41_avx2_assembly'';
     Some ([Cfg ''blake3_sse2_ffi'', Cfg ''blake3_sse41_ffi'', Cfg ''blake3_avx2_ffi''] @ c)
   }"

definition build_avx512_c_intrinsics :: "env \<Rightarrow> toolchain \<Rightarrow> build_log option" where
  "build_avx512_c_intrinsics e tc = do {
     build \<leftarrow> new_build e;
     let build = cc_file ''c/blake3_avx512.c'' build;
     msvc \<leftarrow> is_windows_msvc e;
     let build = (if msvc then cc_flag ''/arch:AVX512'' build else cc_flag ''-mavx512vl'' (cc_flag ''-mavx512f'' build));
     gnu \<leftarrow> is_windows_gnu e;
     let build = (if gnu then cc_flag ''-fno-asynchronous-unwind-tables'' build else build);
     c \<leftarrow> cc_compile e tc build ''blake3_avx512_intrinsics'';
     Some (Cfg ''blake3_avx512_ffi'' # c)
   }"

definition build_avx512_assembly :: "env \<Rightarrow> toolchain \<Rightarrow> build_log option" where
  "build_avx512_assembly e tc = do {
     x86_64 \<leftarrow> is_x86_64 e;
     assert_that x86_64;
     build \<leftarrow> new_build e;
     windows \<leftarrow> is_windows_target e;
     let (is_msvc, build) =
       (if windows then
          if use_msvc_asm e then (True, cc_file ''c/blake3_avx512_x86-64_windows_msvc.asm'' build)
          else (False, cc_file ''c/blake3_avx512_x86-64_windows_gnu.S'' build)
        else (False, cc_file ''c/blake3_avx512_x86-64_unix.S'' build));
     let build = (if \<not> is_msvc then cc_flag ''-mavx512vl'' (cc_flag ''-mavx512f'' build) else build);
     c \<leftarrow> cc_compile e tc build ''blake3_avx512_assembly'';
     Some (Cfg ''blake3_avx512_ffi'' # c)
   }"

definition build_neon_c_intrinsics :: "env \<Rightarrow> toolchain \<Rightarrow> build_log option" where
  "build_neon_c_intrinsics e tc = do {
     build \<leftarrow> new_build e;
     let build = cc_file ''c/blake3_neon.c'' build;
     armv7 \<leftarrow> is_armv7 e;
     let build = (if armv7 then cc_flag ''-mfloat-abi=hard'' (cc_flag ''-mfpu=neon-vfpv4'' build) else build);
     cc_compile e tc build ''blake3_neon''
   }"

definition build_wasm32_simd :: "env \<Rightarrow> build_log option" where
  "build_wasm32_simd e = do {
     wasm32 \<leftarrow> is_wasm32 e;
     assert_that wasm32;
     Some [Cfg ''blake3_wasm32_simd'']
   }"

subsection \<open>\<open>main\<close>\<close>

definition all_cfgs :: "string list" where
  "all_cfgs = [''blake3_sse2_ffi'', ''blake3_sse2_rust'', ''blake3_sse41_ffi'', ''blake3_sse41_rust'',
     ''blake3_avx2_ffi'', ''blake3_avx2_rust'', ''blake3_avx512_ffi'', ''blake3_neon'', ''blake3_wasm32_simd'']"

text \<open>The first statement appends to \<open>CFLAGS\<close>, which only the C toolchain reads.\<close>

definition without_lto :: "env \<Rightarrow> env option" where
  "without_lto e = do {
     msvc \<leftarrow> is_windows_msvc e;
     Some (if \<not> msvc
           then (case e ''CFLAGS'' of None \<Rightarrow> e | Some flags \<Rightarrow> e(''CFLAGS'' \<mapsto> flags @ '' -fno-lto''))
           else e)
   }"

definition x86_kernels :: "env \<Rightarrow> toolchain \<Rightarrow> build_log option" where
  "x86_kernels e tc = do {
     x86 \<leftarrow> either (is_x86_64 e) (is_x86_32 e);
     (if x86 then do {
        (support, w) \<leftarrow> c_compiler_support e tc;
        x86_32 \<leftarrow> is_x86_32 e;
        k \<leftarrow> (if x86_32 \<or> should_prefer_intrinsics e \<or> is_pure e \<or> support = NoCompiler
              then Some build_sse2_sse41_avx2_rust_intrinsics
              else build_sse2_sse41_avx2_assembly e tc);
        k512 \<leftarrow> (if is_pure e \<or> support = NoCompiler \<or> support = NoAVX512 then Some []
                 else if x86_32 \<or> should_prefer_intrinsics e then build_avx512_c_intrinsics e tc
                 else build_avx512_assembly e tc);
        Some (w @ k @ k512)
      } else Some [])
   }"

definition neon_kernels :: "env \<Rightarrow> toolchain \<Rightarrow> build_log option" where
  "neon_kernels e tc = do {
     big \<leftarrow> both (Some (is_neon e)) (is_big_endian e);
     assert_that (\<not> big);
     neon \<leftarrow> either (both (is_arm e) (Some (is_neon e)))
               (both (Some (\<not> is_no_neon e)) (both (Some (\<not> is_pure e)) (both (is_aarch64 e) (is_little_endian e))));
     (if neon then do {
        k \<leftarrow> build_neon_c_intrinsics e tc;
        Some (Cfg ''blake3_neon'' # k)
      } else Some [])
   }"

definition wasm_kernels :: "env \<Rightarrow> build_log option" where
  "wasm_kernels e = do {
     wasm \<leftarrow> both (is_wasm32 e) (Some (is_wasm32_simd e));
     (if wasm then build_wasm32_simd e else Some [])
   }"

definition remove_asm :: "env \<Rightarrow> build_log option" where
  "remove_asm e = do {
     gone \<leftarrow> both (is_windows_target e) (Some (\<not> use_msvc_asm e));
     Some (if gone
           then map Remove [''blake3_avx2_x86-64_windows_gnu.asm'', ''blake3_avx512_x86-64_windows_gnu.asm'',
             ''blake3_sse2_x86-64_windows_gnu.asm'', ''blake3_sse41_x86-64_windows_gnu.asm'']
           else [])
   }"

definition b3_build_main :: "env \<Rightarrow> toolchain \<Rightarrow> build_log option" where
  "b3_build_main e tc = do {
     e \<leftarrow> without_lto e;
     assert_that (\<not> (is_pure e \<and> is_neon e));
     assert_that (\<not> (is_no_neon e \<and> is_neon e));
     x86 \<leftarrow> x86_kernels e tc;
     neon \<leftarrow> neon_kernels e tc;
     wasm \<leftarrow> wasm_kernels e;
     assert_that (read_c tc);
     rm \<leftarrow> remove_asm e;
     Some (map Check_Cfg all_cfgs @ x86 @ neon @ wasm @ rm)
   }"

end
