(* ===== verification/Blake3_Ffi.thy ===== *)
theory Blake3_Ffi
  imports Blake3_Pure Mem_Wipe
begin

section \<open>The bindings to the C and assembly kernels\<close>

text \<open>
  \<open>ffi_sse2.rs\<close>, \<open>ffi_sse41.rs\<close>, \<open>ffi_avx2.rs\<close>, \<open>ffi_avx512.rs\<close> and \<open>ffi_neon.rs\<close>: the wrappers that hand
  the slices of a call to the C and assembly kernels as addresses.  The kernels are a parameter, functions
  over a byte memory; \<open>library_ok\<close> is what their header promises.  The wrappers of the files differ in the
  symbol they call, which the platform kind selects here.  An array of pointers is a list of addresses.
\<close>

type_synonym c_hash_many_fn =
  "nat list \<Rightarrow> nat \<Rightarrow> nat \<Rightarrow> nat \<Rightarrow> u64 \<Rightarrow> bool \<Rightarrow> u8 \<Rightarrow> u8 \<Rightarrow> u8 \<Rightarrow> nat \<Rightarrow> memory \<Rightarrow> memory"
type_synonym c_compress_fn = "nat \<Rightarrow> nat \<Rightarrow> u8 \<Rightarrow> u64 \<Rightarrow> u8 \<Rightarrow> memory \<Rightarrow> memory"

text \<open>\<open>blake3_neon.c\<close> is linked against the compression function it calls.\<close>

record c_library =
  blake3_compress_in_place :: "platform_kind \<Rightarrow> c_compress_fn"
  blake3_compress_xof :: "platform_kind \<Rightarrow> nat \<Rightarrow> nat \<Rightarrow> u8 \<Rightarrow> u64 \<Rightarrow> u8 \<Rightarrow> nat \<Rightarrow> memory \<Rightarrow> memory"
  blake3_hash_many :: "platform_kind \<Rightarrow> c_hash_many_fn"
  blake3_hash_many_neon :: "c_compress_fn \<Rightarrow> c_hash_many_fn"
  blake3_xof_many_avx512 :: "nat \<Rightarrow> nat \<Rightarrow> u8 \<Rightarrow> u64 \<Rightarrow> u8 \<Rightarrow> nat \<Rightarrow> nat \<Rightarrow> memory \<Rightarrow> memory"

subsection \<open>The wrappers\<close>

definition ffi_compress_in_place :: "c_library \<Rightarrow> platform_kind \<Rightarrow> c_compress_fn" where
  "ffi_compress_in_place lib k cv block block_len counter flags m =
     blake3_compress_in_place lib k cv block block_len counter flags m"

text \<open>The local \<open>out\<close> lies at \<open>out\<close>; the caller gets its value.\<close>

definition ffi_compress_xof ::
  "c_library \<Rightarrow> platform_kind \<Rightarrow> nat \<Rightarrow> nat \<Rightarrow> u8 \<Rightarrow> u64 \<Rightarrow> u8 \<Rightarrow> nat \<Rightarrow> memory \<Rightarrow> bytes \<times> memory"
where
  "ffi_compress_xof lib k cv block block_len counter flags out m =
     (let m = load_slice out (replicate 64 0) m;
          m = blake3_compress_xof lib k cv block block_len counter flags out m
      in (read_slice out 64 m, m))"

definition blake3_compress_in_place_portable :: c_compress_fn where
  "blake3_compress_in_place_portable cv block block_len counter flags m =
     load_slice cv
       (words_bytes (compress_in_place (le_words 8 (read_slice cv 32 m)) (read_slice block 64 m) block_len counter flags)) m"

definition ffi_hash_many ::
  "c_library \<Rightarrow> platform_kind \<Rightarrow> nat \<Rightarrow> nat list \<Rightarrow> nat \<Rightarrow> u64 \<Rightarrow> bool \<Rightarrow> u8 \<Rightarrow> u8 \<Rightarrow> u8 \<Rightarrow> nat \<Rightarrow> nat \<Rightarrow> memory \<Rightarrow> memory option"
where
  "ffi_hash_many lib k N inputs key counter inc flags flags_start flags_end out out_len m =
     do {
       assert_that (length inputs * OUT_LEN \<le> out_len);
       Some ((if k = NEON then blake3_hash_many_neon lib blake3_compress_in_place_portable else blake3_hash_many lib k)
               inputs (length inputs) (N div BLOCK_LEN) key counter inc flags flags_start flags_end out m)
     }"

definition ffi_xof_many ::
  "c_library \<Rightarrow> nat \<Rightarrow> nat \<Rightarrow> u8 \<Rightarrow> u64 \<Rightarrow> u8 \<Rightarrow> nat \<Rightarrow> nat \<Rightarrow> memory \<Rightarrow> memory option"
where
  "ffi_xof_many lib cv block block_len counter flags out out_len m =
     do {
       assert_that (out_len mod BLOCK_LEN = 0);
       Some (blake3_xof_many_avx512 lib cv block block_len counter flags out (out_len div BLOCK_LEN) m)
     }"

subsection \<open>What the C header promises\<close>

definition apart :: "nat \<Rightarrow> nat \<Rightarrow> nat \<Rightarrow> nat \<Rightarrow> bool" where
  "apart p n q k \<longleftrightarrow> p + n \<le> q \<or> q + k \<le> p"

text \<open>
  A kernel reads its operands and writes its output, which overlaps none of them, and nothing else.
  \<open>safe_group\<close> is the restriction on the number of inputs that \<open>platform.rs\<close> keeps to.
\<close>

definition compress_contract :: "c_compress_fn \<Rightarrow> bool" where
  "compress_contract f \<longleftrightarrow>
     (\<forall>cv block block_len counter flags m. apart cv 32 block 64 \<longrightarrow>
        f cv block block_len counter flags m =
          load_slice cv
            (words_bytes (compress_in_place (le_words 8 (read_slice cv 32 m)) (read_slice block 64 m) block_len counter flags)) m)"

definition hash_many_contract :: "(nat \<Rightarrow> bool) \<Rightarrow> c_hash_many_fn \<Rightarrow> bool" where
  "hash_many_contract allowed f \<longleftrightarrow>
     (\<forall>inputs blocks key counter inc flags fs fe out m.
        allowed (length inputs) \<and> apart out (32 * length inputs) key 32
        \<and> (\<forall>p \<in> set inputs. apart out (32 * length inputs) p (64 * blocks)) \<longrightarrow>
        f inputs (length inputs) blocks key counter inc flags fs fe out m =
          load_slice out
            (hash_many (map (\<lambda>p. read_slice p (64 * blocks) m) inputs) (le_words 8 (read_slice key 32 m)) counter inc flags fs fe
              (replicate (32 * length inputs) 0)) m)"

definition library_ok :: "c_library \<Rightarrow> bool" where
  "library_ok lib \<longleftrightarrow>
     (\<forall>k \<in> {SSE2, SSE41, AVX512}. compress_contract (blake3_compress_in_place lib k))
   \<and> (\<forall>k \<in> {SSE2, SSE41, AVX512}. \<forall>cv block block_len counter flags out m. apart out 64 cv 32 \<and> apart out 64 block 64 \<longrightarrow>
        blake3_compress_xof lib k cv block block_len counter flags out m =
          load_slice out (compress_xof (le_words 8 (read_slice cv 32 m)) (read_slice block 64 m) block_len counter flags) m)
   \<and> (\<forall>k \<in> {SSE2, SSE41, AVX2, AVX512}. hash_many_contract (safe_group k) (blake3_hash_many lib k))
   \<and> (\<forall>f. compress_contract f \<longrightarrow> hash_many_contract (safe_group NEON) (blake3_hash_many_neon lib f))
   \<and> (\<forall>cv block block_len counter flags out m. apart out 64 cv 32 \<and> apart out 64 block 64 \<longrightarrow>
        blake3_xof_many_avx512 lib cv block block_len counter flags out 1 m =
          load_slice out (compress_xof (le_words 8 (read_slice cv 32 m)) (read_slice block 64 m) block_len counter flags) m)"

subsection \<open>Calls with slices\<close>

text \<open>
  A caller passes slices; here they are laid out one after the other, and the output is read back.  A
  chaining value is eight native little-endian words.
\<close>

definition call_compress_in_place :: "c_library \<Rightarrow> platform_kind \<Rightarrow> compress_fn" where
  "call_compress_in_place lib k cv block block_len counter flags =
     (let m = load_slice 64 block (load_slice 0 (words_bytes cv) (\<lambda>_. 0));
          m = ffi_compress_in_place lib k 0 64 block_len counter flags m
      in le_words 8 (read_slice 0 32 m))"

definition call_compress_xof :: "c_library \<Rightarrow> platform_kind \<Rightarrow> compress_xof_fn" where
  "call_compress_xof lib k cv block block_len counter flags =
     (let m = load_slice 64 block (load_slice 0 (words_bytes cv) (\<lambda>_. 0))
      in fst (ffi_compress_xof lib k 0 64 block_len counter flags 128 m))"

definition call_hash_many :: "c_library \<Rightarrow> platform_kind \<Rightarrow> hash_many_fn" where
  "call_hash_many lib k inputs key counter inc flags flags_start flags_end out =
     (let N = input_len inputs;
          at = 32 + length out;
          m = load_slice at (concat inputs) (load_slice 32 out (load_slice 0 (words_bytes key) (\<lambda>_. 0)))
      in do {
        m \<leftarrow> ffi_hash_many lib k N (map (\<lambda>i. at + N * i) [0..<length inputs]) 0 counter inc flags flags_start flags_end
               32 (length out) m;
        Some (read_slice 32 (length out) m)
      })"

definition call_xof_many :: "c_library \<Rightarrow> xof_many_fn" where
  "call_xof_many lib cv block block_len counter flags out =
     (let m = load_slice 128 out (load_slice 64 block (load_slice 0 (words_bytes cv) (\<lambda>_. 0)))
      in do {
        m \<leftarrow> ffi_xof_many lib 0 64 block_len counter flags 128 (length out) m;
        Some (read_slice 128 (length out) m)
      })"

text \<open>A build whose kernels are the C library, for the kinds that have them there.\<close>

definition ffi_build :: "c_library \<Rightarrow> b3_build \<Rightarrow> b3_build" where
  "ffi_build lib b = b\<lparr>
     kern_compress_in_place := (\<lambda>k. if k \<in> {SSE2, SSE41, AVX512} then call_compress_in_place lib k else rust_compress_in_place k),
     kern_compress_xof := (\<lambda>k. if k \<in> {SSE2, SSE41, AVX512} then call_compress_xof lib k else rust_compress_xof k),
     kern_hash_many := (\<lambda>k. if k \<in> {SSE2, SSE41, AVX2, AVX512, NEON} then call_hash_many lib k else rust_hash_many k),
     kern_xof_many := call_xof_many lib\<rparr>"

subsection \<open>Slices in memory\<close>

lemma read_load: "read_slice p (length xs) (load_slice p xs m) = xs"
  by simp

lemma read_load_apart: "apart p (length xs) q n \<Longrightarrow> read_slice q n (load_slice p xs m) = read_slice q n m"
  by (rule read_load_other) (auto simp: apart_def)

lemma read_load_prefix:
  "length xs \<le> n \<Longrightarrow> read_slice p n (load_slice p xs m) = xs @ drop (length xs) (read_slice p n m)"
  by (rule nth_equalityI) (auto simp: read_slice_def load_slice_def nth_append)

lemma read_load_part:
  "i + n \<le> length xs \<Longrightarrow> read_slice (p + i) n (load_slice p xs m) = subslice i (i + n) xs"
  by (rule nth_equalityI) (auto simp: read_slice_def load_slice_def subslice_def)

lemma subslice_concat:
  assumes "\<forall>x \<in> set xss. length x = n" "i < length xss"
  shows "subslice (n * i) (n * i + n) (concat xss) = xss ! i"
  using assms
proof (induction xss arbitrary: i)
  case (Cons x xss)
  show ?case
  proof (cases i)
    case (Suc j)
    have "length x = n" using Cons.prems(1) by simp
    then show ?thesis using Cons.IH [of j] Cons.prems Suc by (simp add: subslice_def)
  qed (use Cons.prems in \<open>simp add: subslice_def\<close>)
qed simp

lemma words_roundtrip: "length cv = 8 \<Longrightarrow> le_words 8 (words_bytes cv) = cv"
  by simp


subsection \<open>The build meets the contract of the dispatch\<close>

lemma portable_contract: "compress_contract blake3_compress_in_place_portable"
  by (simp add: compress_contract_def blake3_compress_in_place_portable_def)

lemma operands:
  assumes "length cv = 8" "length block = 64"
  shows "le_words 8 (read_slice 0 32 (load_slice 64 block (load_slice 0 (words_bytes cv) m))) = cv"
    and "read_slice 64 64 (load_slice 64 block (load_slice 0 (words_bytes cv) m)) = block"
proof -
  have len: "length (words_bytes cv) = 32" using assms(1) by simp
  have "read_slice 0 32 (load_slice 64 block (load_slice 0 (words_bytes cv) m)) = words_bytes cv"
    using read_load [of 0 "words_bytes cv" m, unfolded len] by (simp add: read_load_apart apart_def len)
  then show "le_words 8 (read_slice 0 32 (load_slice 64 block (load_slice 0 (words_bytes cv) m))) = cv"
    using assms(1) by simp
  show "read_slice 64 64 (load_slice 64 block (load_slice 0 (words_bytes cv) m)) = block"
    using read_load [of 64 block] assms(2) by simp
qed

lemma call_compress_in_place_ok:
  assumes "library_ok lib" "k \<in> {SSE2, SSE41, AVX512}" "length cv = 8" "length block = 64"
  shows "call_compress_in_place lib k cv block bl c f = compress_in_place cv block bl c f"
proof -
  let ?m = "load_slice 64 block (load_slice 0 (words_bytes cv) (\<lambda>_. 0))"
  have "apart 0 32 64 64" by (simp add: apart_def)
  then have "blake3_compress_in_place lib k 0 64 bl c f ?m = load_slice 0 (words_bytes (compress_in_place cv block bl c f)) ?m"
    using assms(1,2) operands [OF assms(3,4)] by (simp only: library_ok_def compress_contract_def)
  then show ?thesis
    using read_load [of 0 "words_bytes (compress_in_place cv block bl c f)" ?m] assms(3)
    by (simp add: call_compress_in_place_def ffi_compress_in_place_def Let_def)
qed

lemma call_compress_xof_ok:
  assumes "library_ok lib" "k \<in> {SSE2, SSE41, AVX512}" "length cv = 8" "length block = 64"
  shows "call_compress_xof lib k cv block bl c f = compress_xof cv block bl c f"
proof -
  let ?m = "load_slice 64 block (load_slice 0 (words_bytes cv) (\<lambda>_. 0))"
  let ?m' = "load_slice 128 (replicate 64 0) ?m"
  have "apart 128 64 0 32" "apart 128 64 64 64" by (simp_all add: apart_def)
  moreover have "read_slice 0 32 ?m' = read_slice 0 32 ?m" by (rule read_load_apart) (simp add: apart_def)
  moreover have "read_slice 64 64 ?m' = read_slice 64 64 ?m" by (rule read_load_apart) (simp add: apart_def)
  ultimately have "blake3_compress_xof lib k 0 64 bl c f 128 ?m' = load_slice 128 (compress_xof cv block bl c f) ?m'"
    using assms(1,2) operands [OF assms(3,4)] by (simp only: library_ok_def)
  then show ?thesis
    using read_load [of 128 "compress_xof cv block bl c f" ?m'] assms(3)
    by (simp add: call_compress_xof_def ffi_compress_xof_def Let_def)
qed

lemma hash_many_fresh:
  "length key = 8 \<Longrightarrow> 32 * length inputs \<le> length out \<Longrightarrow>
   hash_many inputs key c inc f fs fe out = hash_many inputs key c inc f fs fe (replicate (32 * length inputs) 0) @ drop (32 * length inputs) out"
  by (simp add: hash_many_writes put_slice_def)

lemma call_hash_many_ok:
  assumes lib: "library_ok lib" "k \<in> {SSE2, SSE41, AVX2, AVX512, NEON}" and count: "safe_group k (length inputs)"
    and len: "length key = 8" "N mod 64 = 0" "\<forall>x \<in> set inputs. length x = N" "32 * length inputs \<le> length out"
  shows "call_hash_many lib k inputs key c inc f fs fe out = Some (hash_many inputs key c inc f fs fe out)"
proof -
  define n where "n = input_len inputs"
  define at where "at = 32 + length out"
  define m where "m = load_slice at (concat inputs) (load_slice 32 out (load_slice 0 (words_bytes key) (\<lambda>_. 0)))"
  define ptrs where "ptrs = map (\<lambda>i. at + n * i) [0..<length inputs]"
  define g where "g = (if k = NEON then blake3_hash_many_neon lib blake3_compress_in_place_portable else blake3_hash_many lib k)"
  have n: "n mod 64 = 0" "\<forall>x \<in> set inputs. length x = n"
    using len(2,3) by (cases inputs; simp add: n_def input_len_def BLOCK_LEN_def)+
  have blocks: "64 * (n div BLOCK_LEN) = n" using n(1) mult_div_mod_eq [of 64 n] by (simp add: BLOCK_LEN_def)
  have contract: "hash_many_contract (safe_group k) g"
    using lib portable_contract by (auto simp: library_ok_def g_def)
  have key: "le_words 8 (read_slice 0 32 m) = key"
  proof -
    have "read_slice 0 32 m = words_bytes key"
      using read_load [of 0 "words_bytes key"] len(1) by (simp add: m_def read_load_apart apart_def at_def)
    then show ?thesis using len(1) by simp
  qed
  have inputs: "map (\<lambda>p. read_slice p (64 * (n div BLOCK_LEN)) m) ptrs = inputs"
  proof (rule nth_equalityI)
    fix i assume "i < length (map (\<lambda>p. read_slice p (64 * (n div BLOCK_LEN)) m) ptrs)"
    then have i: "i < length inputs" by (simp add: ptrs_def)
    have "length (concat inputs) = n * length inputs" using length_concat_uniform [OF n(2)] by simp
    moreover have "n * i + n \<le> n * length inputs" using i by (metis Suc_leI mult_Suc_right add.commute mult_le_mono2)
    ultimately have "read_slice (at + n * i) n m = subslice (n * i) (n * i + n) (concat inputs)"
      unfolding m_def by (intro read_load_part) simp
    then show "map (\<lambda>p. read_slice p (64 * (n div BLOCK_LEN)) m) ptrs ! i = inputs ! i"
      using i subslice_concat [OF n(2) i] by (simp add: ptrs_def blocks)
  qed (simp add: ptrs_def)
  have "apart 32 (32 * length ptrs) 0 32" by (simp add: apart_def)
  moreover have "\<forall>p \<in> set ptrs. apart 32 (32 * length ptrs) p (64 * (n div BLOCK_LEN))"
    using len(4) by (auto simp: apart_def ptrs_def at_def)
  moreover have np: "length ptrs = length inputs" by (simp add: ptrs_def)
  ultimately have call: "g ptrs (length ptrs) (n div BLOCK_LEN) 0 c inc f fs fe 32 m
      = load_slice 32 (hash_many inputs key c inc f fs fe (replicate (32 * length inputs) 0)) m"
    using contract count inputs key unfolding hash_many_contract_def by metis
  let ?h = "hash_many inputs key c inc f fs fe (replicate (32 * length inputs) 0)"
  have h: "length ?h = 32 * length inputs" using len(1) by (simp add: length_hash_many)
  have out: "read_slice 32 (length out) m = out"
    using read_load [of 32 out] by (simp add: m_def read_load_apart apart_def at_def)
  have "read_slice 32 (length out) (load_slice 32 ?h m) = hash_many inputs key c inc f fs fe out"
    unfolding hash_many_fresh [OF len(1,4)] using read_load_prefix [of ?h "length out" 32 m] h out len(4) by simp
  moreover have "length ptrs * OUT_LEN \<le> length out" using len(4) np by (simp add: OUT_LEN_def)
  ultimately show ?thesis
    unfolding call_hash_many_def Let_def n_def [symmetric] at_def [symmetric] m_def [symmetric] ptrs_def [symmetric]
    by (simp add: ffi_hash_many_def g_def [symmetric] call)
qed

lemma call_hash_many_short:
  "length out < 32 * length inputs \<Longrightarrow> call_hash_many lib k inputs key c inc f fs fe out = None"
  by (simp add: call_hash_many_def ffi_hash_many_def Let_def OUT_LEN_def assert_that_def)

lemma call_xof_many_ok:
  assumes "library_ok lib" "length cv = 8" "length block = 64" "length out = 64"
  shows "call_xof_many lib cv block bl c f out = Some (compress_xof cv block bl c f)"
proof -
  let ?m = "load_slice 64 block (load_slice 0 (words_bytes cv) (\<lambda>_. 0))"
  let ?m' = "load_slice 128 out ?m"
  have "apart 128 64 0 32" "apart 128 64 64 64" by (simp_all add: apart_def)
  moreover have "read_slice 0 32 ?m' = read_slice 0 32 ?m" by (rule read_load_apart) (simp add: apart_def)
  moreover have "read_slice 64 64 ?m' = read_slice 64 64 ?m" by (rule read_load_apart) (simp add: apart_def)
  ultimately have "blake3_xof_many_avx512 lib 0 64 bl c f 128 1 ?m' = load_slice 128 (compress_xof cv block bl c f) ?m'"
    using assms(1) operands [OF assms(2,3)] by (simp only: library_ok_def)
  then show ?thesis
    using read_load [of 128 "compress_xof cv block bl c f" ?m'] assms(2,4)
    by (simp add: call_xof_many_def ffi_xof_many_def Let_def BLOCK_LEN_def)
qed

lemma ffi_build_ok:
  assumes "library_ok lib"
  shows "kernels_ok (ffi_build lib b)"
proof -
  have kinds: "k \<in> {SSE2, SSE41, AVX2, AVX512, NEON} \<or> k = Portable \<or> k = WASM32_SIMD" for k by (cases k) simp_all
  show ?thesis
    unfolding kernels_ok_def
  proof (intro conjI allI impI)
    fix k cv block bl c f assume a: "length (cv :: cv_words) = 8 \<and> length (block :: bytes) = 64"
    show "kern_compress_in_place (ffi_build lib b) k cv block bl c f = compress_in_place cv block bl c f"
      using a call_compress_in_place_ok [OF assms] rust_compress_eq(1) by (simp add: ffi_build_def)
    show "kern_compress_xof (ffi_build lib b) k cv block bl c f = compress_xof cv block bl c f"
      using a call_compress_xof_ok [OF assms] rust_compress_eq(2) by (simp add: ffi_build_def)
  next
    fix k N c inc f fs fe and key :: cv_words and out :: bytes and inputs :: "bytes list"
    assume a: "safe_group k (length inputs) \<and> length key = 8 \<and> N mod 64 = 0 \<and> (\<forall>x \<in> set inputs. length x = N)
      \<and> 32 * length inputs \<le> length out"
    show "kern_hash_many (ffi_build lib b) k inputs key c inc f fs fe out = Some (hash_many inputs key c inc f fs fe out)"
    proof (cases "k \<in> {SSE2, SSE41, AVX2, AVX512, NEON}")
      case True
      then show ?thesis using a call_hash_many_ok [OF assms True, of inputs key N out] by (simp add: ffi_build_def)
    next
      case False
      then show ?thesis using a rust_hash_many_eq [of key N inputs out k] by (simp add: ffi_build_def)
    qed
  next
    fix cv block bl c f out
    assume "length (cv :: cv_words) = 8 \<and> length (block :: bytes) = 64 \<and> length (out :: bytes) = 64"
    then show "kern_xof_many (ffi_build lib b) cv block bl c f out = Some (compress_xof cv block bl c f)"
      using call_xof_many_ok [OF assms] by (simp add: ffi_build_def)
  qed
qed


text \<open>A library that does just what the header promises: it shows the contract can hold.\<close>

definition contract_library :: c_library where
  "contract_library = \<lparr>
     blake3_compress_in_place = (\<lambda>k. blake3_compress_in_place_portable),
     blake3_compress_xof = (\<lambda>k cv block bl c f out m.
       load_slice out (compress_xof (le_words 8 (read_slice cv 32 m)) (read_slice block 64 m) bl c f) m),
     blake3_hash_many = (\<lambda>k inputs num blocks key c inc f fs fe out m.
       load_slice out (hash_many (map (\<lambda>p. read_slice p (64 * blocks) m) inputs) (le_words 8 (read_slice key 32 m)) c inc f fs fe
         (replicate (32 * num) 0)) m),
     blake3_hash_many_neon = (\<lambda>compress inputs num blocks key c inc f fs fe out m.
       load_slice out (hash_many (map (\<lambda>p. read_slice p (64 * blocks) m) inputs) (le_words 8 (read_slice key 32 m)) c inc f fs fe
         (replicate (32 * num) 0)) m),
     blake3_xof_many_avx512 = (\<lambda>cv block bl c f out blocks m.
       load_slice out (compress_xof (le_words 8 (read_slice cv 32 m)) (read_slice block 64 m) bl c f) m)\<rparr>"

lemma contract_library_ok: "library_ok contract_library"
  by (simp add: library_ok_def contract_library_def hash_many_contract_def portable_contract)

end
