(* ===== verification/Build_Link.thy ===== *)
theory Build_Link
  imports Build_Config Blake3_Ffi
begin

section \<open>The builds the script configures\<close>

text \<open>
  What the \<open>main\<close> of \<open>Build_Config\<close> can have printed and compiled, for each architecture and set of
  features, and the builds of \<open>Blake3_Platform\<close> that come out of it.
\<close>

subsection \<open>What \<open>main\<close> can have done\<close>

definition arch :: "env \<Rightarrow> string" where
  "arch e = (case target_components e of Some (a # _) \<Rightarrow> a | _ \<Rightarrow> [])"

abbreviation x86_archs :: "string set" where
  "x86_archs \<equiv> {''x86_64'', ''i386'', ''i586'', ''i686''}"

abbreviation arm_archs :: "string set" where
  "arm_archs \<equiv> {''armv7'', ''aarch64'', ''arm''}"

lemma split_at_not_Nil [simp]: "split_at d part s \<noteq> []"
  by (induction s arbitrary: part) auto

lemma component_0: "component_is e 0 s = Some b \<Longrightarrow> b \<longleftrightarrow> arch e = s"
  by (auto simp: component_is_def arch_def target_components_def nth_Cons' split: bind_splits list.splits if_splits)

lemma either_Some: "either a b = Some c \<longleftrightarrow> (a = Some True \<and> c) \<or> (a = Some False \<and> b = Some c)"
  by (auto simp: either_def split: option.splits bool.splits)

lemma both_Some: "both a b = Some c \<longleftrightarrow> (a = Some False \<and> \<not> c) \<or> (a = Some True \<and> b = Some c)"
  by (auto simp: both_def split: option.splits bool.splits)

lemma is_x86_64_arch: "is_x86_64 e = Some b \<Longrightarrow> b \<longleftrightarrow> arch e = ''x86_64''"
  by (simp add: is_x86_64_def component_0)

lemma is_x86_32_arch: "is_x86_32 e = Some b \<Longrightarrow> b \<longleftrightarrow> arch e \<in> {''i386'', ''i586'', ''i686''}"
  by (auto simp: is_x86_32_def either_Some dest!: component_0)

lemma is_aarch64_arch: "is_aarch64 e = Some b \<Longrightarrow> b \<longleftrightarrow> arch e = ''aarch64''"
  by (simp add: is_aarch64_def component_0)

lemma is_arm_arch: "is_arm e = Some b \<Longrightarrow> b \<longleftrightarrow> arch e \<in> arm_archs"
  by (auto simp: is_arm_def is_armv7_def is_aarch64_def either_Some dest!: component_0)

lemma is_wasm32_arch: "is_wasm32 e = Some b \<Longrightarrow> b \<longleftrightarrow> arch e = ''wasm32''"
  by (simp add: is_wasm32_def component_0)

definition rust_cfgs :: "string list" where
  "rust_cfgs = [''blake3_sse2_rust'', ''blake3_sse41_rust'', ''blake3_avx2_rust'']"

definition ffi_cfgs :: "string list" where
  "ffi_cfgs = [''blake3_sse2_ffi'', ''blake3_sse41_ffi'', ''blake3_avx2_ffi'']"

definition assembly_files :: "string \<Rightarrow> string list" where
  "assembly_files sfx = map (\<lambda>k. ''c/blake3_'' @ k @ ''_x86-64_'' @ sfx) [''sse2'', ''sse41'', ''avx2'']"

definition asm_suffixes :: "string list" where
  "asm_suffixes = [''unix.S'', ''windows_gnu.S'', ''windows_msvc.asm'']"

definition avx512_files :: "string list" where
  "avx512_files = ''c/blake3_avx512.c'' # map (\<lambda>s. ''c/blake3_avx512_x86-64_'' @ s) asm_suffixes"

lemma new_build_files: "new_build e = Some b \<Longrightarrow> cc_files b = []"
  by (auto simp: new_build_def cc_flag_def Let_def split: bind_splits if_splits)

lemma cc_files_simps [simp]:
  "cc_files (cc_flag f b) = cc_files b" "cc_files (cc_file f b) = cc_files b @ [f]"
  by (simp_all add: cc_flag_def cc_file_def)

lemma compile_log: "cc_compile e tc b lib = Some c \<Longrightarrow> c = [Compile lib b]"
  by (simp add: cc_compile_def split: if_splits)

lemma assembly_names:
  "assembly_files ''unix.S'' = [''c/blake3_sse2_x86-64_unix.S'', ''c/blake3_sse41_x86-64_unix.S'', ''c/blake3_avx2_x86-64_unix.S'']"
  "assembly_files ''windows_gnu.S'' =
    [''c/blake3_sse2_x86-64_windows_gnu.S'', ''c/blake3_sse41_x86-64_windows_gnu.S'', ''c/blake3_avx2_x86-64_windows_gnu.S'']"
  "assembly_files ''windows_msvc.asm'' =
    [''c/blake3_sse2_x86-64_windows_msvc.asm'', ''c/blake3_sse41_x86-64_windows_msvc.asm'', ''c/blake3_avx2_x86-64_windows_msvc.asm'']"
  by (simp_all add: assembly_files_def)

lemma assembly_log:
  assumes "build_sse2_sse41_avx2_assembly e tc = Some l"
  obtains lib b sfx where "l = map Cfg ffi_cfgs @ [Compile lib b]" "sfx \<in> set asm_suffixes" "cc_files b = assembly_files sfx"
proof -
  obtain build w c where nb: "new_build e = Some build" and
    c: "cc_compile e tc
        (if w then
           if use_msvc_asm e then
            cc_file ''c/blake3_avx2_x86-64_windows_msvc.asm'' (cc_file ''c/blake3_sse41_x86-64_windows_msvc.asm''
              (cc_file ''c/blake3_sse2_x86-64_windows_msvc.asm'' build))
          else
            cc_file ''c/blake3_avx2_x86-64_windows_gnu.S'' (cc_file ''c/blake3_sse41_x86-64_windows_gnu.S''
              (cc_file ''c/blake3_sse2_x86-64_windows_gnu.S'' build))
        else
          cc_file ''c/blake3_avx2_x86-64_unix.S'' (cc_file ''c/blake3_sse41_x86-64_unix.S''
            (cc_file ''c/blake3_sse2_x86-64_unix.S'' build))) ''blake3_sse2_sse41_avx2_assembly'' = Some c"
    and l: "l = [Cfg ''blake3_sse2_ffi'', Cfg ''blake3_sse41_ffi'', Cfg ''blake3_avx2_ffi''] @ c"
    using assms unfolding build_sse2_sse41_avx2_assembly_def Let_def bind_eq_Some_conv option.inject by blast
  have files: "cc_files build = []" using nb by (rule new_build_files)
  have log: "l = map Cfg ffi_cfgs @ c" unfolding l by (simp add: ffi_cfgs_def)
  consider "w" "use_msvc_asm e" | "w" "\<not> use_msvc_asm e" | "\<not> w" by blast
  then show thesis
  proof cases
    case 1
    then show thesis using c
      by (intro that [OF log [unfolded compile_log [OF c]], of "''windows_msvc.asm''"])
         (simp_all add: asm_suffixes_def assembly_names files)
  next
    case 2
    then show thesis using c
      by (intro that [OF log [unfolded compile_log [OF c]], of "''windows_gnu.S''"])
         (simp_all add: asm_suffixes_def assembly_names files)
  next
    case 3
    then show thesis using c
      by (intro that [OF log [unfolded compile_log [OF c]], of "''unix.S''"])
         (simp_all add: asm_suffixes_def assembly_names files)
  qed
qed

lemma avx512_c_log:
  assumes "build_avx512_c_intrinsics e tc = Some l"
  obtains lib b where "l = [Cfg ''blake3_avx512_ffi'', Compile lib b]" "cc_files b = [''c/blake3_avx512.c'']"
proof -
  obtain build msvc gnu c where nb: "new_build e = Some build"
    and c: "cc_compile e tc
      (if gnu then cc_flag ''-fno-asynchronous-unwind-tables''
           (if msvc then cc_flag ''/arch:AVX512'' (cc_file ''c/blake3_avx512.c'' build)
            else cc_flag ''-mavx512vl'' (cc_flag ''-mavx512f'' (cc_file ''c/blake3_avx512.c'' build)))
       else (if msvc then cc_flag ''/arch:AVX512'' (cc_file ''c/blake3_avx512.c'' build)
            else cc_flag ''-mavx512vl'' (cc_flag ''-mavx512f'' (cc_file ''c/blake3_avx512.c'' build)))) ''blake3_avx512_intrinsics'' = Some c"
    and l: "l = Cfg ''blake3_avx512_ffi'' # c"
    using assms unfolding build_avx512_c_intrinsics_def Let_def bind_eq_Some_conv option.inject by blast
  show thesis
    by (rule that [OF l [unfolded compile_log [OF c]]]) (simp add: new_build_files [OF nb])
qed

lemma avx512_assembly_log:
  assumes "build_avx512_assembly e tc = Some l"
  obtains lib b sfx where "l = [Cfg ''blake3_avx512_ffi'', Compile lib b]" "sfx \<in> set asm_suffixes"
    "cc_files b = [''c/blake3_avx512_x86-64_'' @ sfx]"
proof -
  obtain build w c where nb: "new_build e = Some build"
    and c: "(case
        (if w then
          if use_msvc_asm e then (True, cc_file ''c/blake3_avx512_x86-64_windows_msvc.asm'' build)
          else (False, cc_file ''c/blake3_avx512_x86-64_windows_gnu.S'' build)
        else (False, cc_file ''c/blake3_avx512_x86-64_unix.S'' build)) of (is_msvc, build) \<Rightarrow>
        cc_compile e tc (if \<not> is_msvc then cc_flag ''-mavx512vl'' (cc_flag ''-mavx512f'' build) else build)
          ''blake3_avx512_assembly'' \<bind> (\<lambda>c. Some (Cfg ''blake3_avx512_ffi'' # c))) = Some l"
    using assms unfolding build_avx512_assembly_def Let_def bind_eq_Some_conv by blast
  have files: "cc_files build = []" using nb by (rule new_build_files)
  consider "w" "use_msvc_asm e" | "w" "\<not> use_msvc_asm e" | "\<not> w" by blast
  then show thesis
  proof cases
    case 1
    then show thesis using c
      by (intro that [of _ _ "''windows_msvc.asm''"]) (auto simp: bind_eq_Some_conv files asm_suffixes_def dest!: compile_log)
  next
    case 2
    then show thesis using c
      by (intro that [of _ _ "''windows_gnu.S''"]) (auto simp: bind_eq_Some_conv files asm_suffixes_def dest!: compile_log)
  next
    case 3
    then show thesis using c
      by (intro that [of _ _ "''unix.S''"]) (auto simp: bind_eq_Some_conv files asm_suffixes_def dest!: compile_log)
  qed
qed

lemma support_log:
  "c_compiler_support e tc = Some (s, w) \<Longrightarrow> \<forall>x \<in> set w. \<exists>t. x = Warning t"
  by (auto simp: c_compiler_support_def Let_def warn_def split: bind_splits if_splits option.splits bool.splits)


fun cfgs :: "build_log \<Rightarrow> string list" where
  "cfgs [] = []"
| "cfgs (Cfg c # l) = c # cfgs l"
| "cfgs (_ # l) = cfgs l"

fun c_files :: "build_log \<Rightarrow> string list" where
  "c_files [] = []"
| "c_files (Compile lib b # l) = cc_files b @ c_files l"
| "c_files (_ # l) = c_files l"

lemma log_append [simp]: "cfgs (x @ y) = cfgs x @ cfgs y" "c_files (x @ y) = c_files x @ c_files y"
  by (induction x rule: cfgs.induct) simp_all

lemma log_map [simp]:
  "cfgs (map Cfg cs) = cs" "c_files (map Cfg cs) = []" "cfgs (map Check_Cfg cs) = []" "c_files (map Check_Cfg cs) = []"
  "cfgs (map Remove cs) = []" "c_files (map Remove cs) = []"
  by (induction cs) simp_all

lemma log_warnings: "\<forall>x \<in> set w. \<exists>t. x = Warning t \<Longrightarrow> cfgs w = [] \<and> c_files w = []"
  by (induction w) auto

text \<open>The two ways to provide a set of kernels: Rust modules, or sources linked to the library.\<close>

definition sse_avx2_linked :: "string list \<Rightarrow> string list \<Rightarrow> bool" where
  "sse_avx2_linked c f \<longleftrightarrow> c = rust_cfgs \<and> f = [] \<or> c = ffi_cfgs \<and> f \<in> assembly_files ` set asm_suffixes"

definition avx512_linked :: "string list \<Rightarrow> string list \<Rightarrow> bool" where
  "avx512_linked c f \<longleftrightarrow> c = [] \<and> f = [] \<or> c = [''blake3_avx512_ffi''] \<and> (\<exists>x \<in> set avx512_files. f = [x])"

lemma assembly_linked: "build_sse2_sse41_avx2_assembly e tc = Some l \<Longrightarrow> cfgs l = ffi_cfgs \<and> sse_avx2_linked (cfgs l) (c_files l)"
  by (erule assembly_log) (simp add: sse_avx2_linked_def)

lemma avx512_c_linked: "build_avx512_c_intrinsics e tc = Some l \<Longrightarrow> avx512_linked (cfgs l) (c_files l)"
  by (erule avx512_c_log) (simp add: avx512_linked_def avx512_files_def)

lemma avx512_assembly_linked: "build_avx512_assembly e tc = Some l \<Longrightarrow> avx512_linked (cfgs l) (c_files l)"
  by (erule avx512_assembly_log) (auto simp: avx512_linked_def avx512_files_def)

lemma x86_kernels_linked:
  assumes "x86_kernels e tc = Some l"
  obtains c f c' f' where "cfgs l = c @ c'" "c_files l = f @ f'"
    "if arch e \<in> x86_archs then sse_avx2_linked c f \<and> avx512_linked c' f' else c @ c' @ f @ f' = []"
    "arch e \<noteq> ''x86_64'' \<or> is_pure e \<longrightarrow> f = []" "is_pure e \<longrightarrow> f' = []"
proof -
  obtain x86 where x86: "either (is_x86_64 e) (is_x86_32 e) = Some x86" using assms by (auto simp: x86_kernels_def bind_eq_Some_conv)
  then have a: "x86 \<longleftrightarrow> arch e \<in> x86_archs" by (auto simp: either_Some dest!: is_x86_64_arch is_x86_32_arch)
  show thesis
  proof (cases x86)
    case False
    then have "l = []" using assms x86 by (simp add: x86_kernels_def)
    then show thesis using that [of "[]" "[]" "[]" "[]"] a False by simp
  next
    case True
    obtain support w x32 k k5 where s: "c_compiler_support e tc = Some (support, w)" and x32: "is_x86_32 e = Some x32"
      and k: "(if x32 \<or> should_prefer_intrinsics e \<or> is_pure e \<or> support = NoCompiler
              then Some build_sse2_sse41_avx2_rust_intrinsics else build_sse2_sse41_avx2_assembly e tc) = Some k"
      and k5: "(if is_pure e \<or> support = NoCompiler \<or> support = NoAVX512 then Some []
                 else if x32 \<or> should_prefer_intrinsics e then build_avx512_c_intrinsics e tc
                 else build_avx512_assembly e tc) = Some k5"
      and l: "l = w @ k @ k5"
      using assms x86 True unfolding x86_kernels_def by (auto simp only: bind_eq_Some_conv option.inject if_True split_paired_Ex prod.case)
    have w: "cfgs w = [] \<and> c_files w = []" using support_log [OF s] by (rule log_warnings)
    have rust: "cfgs build_sse2_sse41_avx2_rust_intrinsics = rust_cfgs" "c_files build_sse2_sse41_avx2_rust_intrinsics = []"
      by (simp_all add: build_sse2_sse41_avx2_rust_intrinsics_def rust_cfgs_def)
    have kl: "sse_avx2_linked (cfgs k) (c_files k)"
      using k assembly_linked [of e tc k] by (auto simp: sse_avx2_linked_def [of rust_cfgs] rust split: if_splits)
    have k5l: "avx512_linked (cfgs k5) (c_files k5)"
      using k5 avx512_c_linked avx512_assembly_linked by (auto simp: avx512_linked_def [of "[]"] split: if_splits)
    show thesis
    proof (rule that)
      show "cfgs l = cfgs k @ cfgs k5" "c_files l = c_files k @ c_files k5" using w by (simp_all add: l)
      show "if arch e \<in> x86_archs then sse_avx2_linked (cfgs k) (c_files k) \<and> avx512_linked (cfgs k5) (c_files k5)
        else cfgs k @ cfgs k5 @ c_files k @ c_files k5 = []" using a True kl k5l by simp
      show "arch e \<noteq> ''x86_64'' \<or> is_pure e \<longrightarrow> c_files k = []"
      proof
        assume "arch e \<noteq> ''x86_64'' \<or> is_pure e"
        then have "x32 \<or> is_pure e" using is_x86_32_arch [OF x32] a True by auto
        then show "c_files k = []" using k rust(2) by auto
      qed
      show "is_pure e \<longrightarrow> c_files k5 = []" using k5 by auto
    qed
  qed
qed

definition neon_wanted :: "env \<Rightarrow> bool" where
  "neon_wanted e \<longleftrightarrow> arch e \<in> arm_archs \<and> is_neon e
     \<or> arch e = ''aarch64'' \<and> \<not> is_no_neon e \<and> \<not> is_pure e \<and> e ''CARGO_CFG_TARGET_ENDIAN'' = Some ''little''"

lemma little: "is_little_endian e = Some b \<Longrightarrow> b \<longleftrightarrow> e ''CARGO_CFG_TARGET_ENDIAN'' = Some ''little''"
  by (auto simp: is_little_endian_def endianness_def bind_eq_Some_conv)

lemma neon_log: "build_neon_c_intrinsics e tc = Some l \<Longrightarrow> cfgs l = [] \<and> c_files l = [''c/blake3_neon.c'']"
proof -
  assume "build_neon_c_intrinsics e tc = Some l"
  then obtain build armv7 where nb: "new_build e = Some build"
    and c: "cc_compile e tc
      (if armv7 then cc_flag ''-mfloat-abi=hard'' (cc_flag ''-mfpu=neon-vfpv4'' (cc_file ''c/blake3_neon.c'' build))
       else cc_file ''c/blake3_neon.c'' build) ''blake3_neon'' = Some l"
    unfolding build_neon_c_intrinsics_def Let_def bind_eq_Some_conv by blast
  show ?thesis unfolding compile_log [OF c] by (simp add: new_build_files [OF nb])
qed

lemma neon_kernels_linked:
  assumes "neon_kernels e tc = Some l"
  shows "cfgs l = (if neon_wanted e then [''blake3_neon''] else [])
    \<and> c_files l = (if neon_wanted e then [''c/blake3_neon.c''] else [])"
proof -
  obtain neon where n: "either (both (is_arm e) (Some (is_neon e)))
      (both (Some (\<not> is_no_neon e)) (both (Some (\<not> is_pure e)) (both (is_aarch64 e) (is_little_endian e)))) = Some neon"
    and l: "(if neon then do { k \<leftarrow> build_neon_c_intrinsics e tc; Some (Cfg ''blake3_neon'' # k) } else Some []) = Some l"
    using assms unfolding neon_kernels_def by (auto simp only: bind_eq_Some_conv)
  have "neon \<longleftrightarrow> neon_wanted e"
    using n by (auto simp: either_Some both_Some neon_wanted_def dest!: is_arm_arch is_aarch64_arch little)
  then show ?thesis using l by (auto simp: bind_eq_Some_conv dest: neon_log split: if_splits)
qed

lemma wasm_kernels_linked:
  assumes "wasm_kernels e = Some l"
  shows "cfgs l = (if arch e = ''wasm32'' \<and> is_wasm32_simd e then [''blake3_wasm32_simd''] else []) \<and> c_files l = []"
  using assms
  by (auto simp: wasm_kernels_def build_wasm32_simd_def bind_eq_Some_conv both_Some dest!: is_wasm32_arch split: if_splits)


lemma without_lto_same: "without_lto e = Some e' \<Longrightarrow> v \<noteq> ''CFLAGS'' \<Longrightarrow> e' v = e v"
  by (auto simp: without_lto_def bind_eq_Some_conv split: if_splits option.splits)

lemma without_lto_env:
  assumes "without_lto e = Some e'"
  shows "arch e' = arch e" "is_pure e' = is_pure e" "is_neon e' = is_neon e" "is_no_neon e' = is_no_neon e"
    "is_wasm32_simd e' = is_wasm32_simd e" "neon_wanted e' = neon_wanted e"
  using without_lto_same [OF assms]
  by (simp_all add: arch_def target_components_def is_pure_def is_neon_def is_no_neon_def is_wasm32_simd_def defined_def neon_wanted_def)

text \<open>The choice for an architecture and a set of features.\<close>

definition neon_linked :: "env \<Rightarrow> string list \<Rightarrow> string list \<Rightarrow> bool" where
  "neon_linked e c f \<longleftrightarrow> (if neon_wanted e then c = [''blake3_neon''] \<and> f = [''c/blake3_neon.c''] else c = [] \<and> f = [])"

definition wasm_cfgs :: "env \<Rightarrow> string list" where
  "wasm_cfgs e = (if arch e = ''wasm32'' \<and> is_wasm32_simd e then [''blake3_wasm32_simd''] else [])"

lemma main_selects_kernels:
  assumes "b3_build_main e tc = Some l"
  obtains c f c' f' c'' f'' where "cfgs l = c @ c' @ c'' @ wasm_cfgs e" "c_files l = f @ f' @ f''"
    "if arch e \<in> x86_archs then sse_avx2_linked c f \<and> avx512_linked c' f' else c @ c' @ f @ f' = []"
    "neon_linked e c'' f''"
    "arch e \<noteq> ''x86_64'' \<or> is_pure e \<longrightarrow> f = []" "is_pure e \<longrightarrow> f' = [] \<and> f'' = []"
proof -
  obtain e' x86 neon wasm rm where lto: "without_lto e = Some e'" and features: "\<not> (is_pure e' \<and> is_neon e')"
    and x86: "x86_kernels e' tc = Some x86" and neon: "neon_kernels e' tc = Some neon" and wasm: "wasm_kernels e' = Some wasm"
    and rm: "remove_asm e' = Some rm" and l: "l = map Check_Cfg all_cfgs @ x86 @ neon @ wasm @ rm"
    using assms unfolding b3_build_main_def bind_eq_Some_conv assert_that_Some_iff option.inject by blast
  note env = without_lto_env [OF lto]
  have rm: "cfgs rm = [] \<and> c_files rm = []" using rm unfolding remove_asm_def bind_eq_Some_conv by (auto simp del: list.map)
  obtain c c' f f' where k: "cfgs x86 = c @ c'" "c_files x86 = f @ f'"
    "if arch e' \<in> x86_archs then sse_avx2_linked c f \<and> avx512_linked c' f' else c @ c' @ f @ f' = []"
    "arch e' \<noteq> ''x86_64'' \<or> is_pure e' \<longrightarrow> f = []" "is_pure e' \<longrightarrow> f' = []" by (rule x86_kernels_linked [OF x86])
  show thesis
  proof (rule that [of c c' "cfgs neon" f f' "c_files neon"])
    show "cfgs l = c @ c' @ cfgs neon @ wasm_cfgs e"
      using wasm_kernels_linked [OF wasm] rm k(1) by (simp add: l wasm_cfgs_def env)
    show "c_files l = f @ f' @ c_files neon" using wasm_kernels_linked [OF wasm] rm k(2) by (simp add: l)
    show "neon_linked e (cfgs neon) (c_files neon)" using neon_kernels_linked [OF neon] by (simp add: neon_linked_def env)
    show "is_pure e \<longrightarrow> f' = [] \<and> c_files neon = []"
      using features neon_kernels_linked [OF neon] k(5) by (simp add: neon_wanted_def env)
  qed (use k(3,4) in \<open>simp_all only: env\<close>)
qed

subsection \<open>The configured crate\<close>

text \<open>
  The conditions \<open>platform.rs\<close> is compiled under.  \<open>target_arch\<close> is taken to follow the first component
  of the target.
\<close>

definition configured :: "env \<Rightarrow> build_log \<Rightarrow> b3_build \<Rightarrow> b3_build" where
  "configured e log b = b\<lparr>cfg_x86 := (arch e \<in> x86_archs),
     cfg_avx512_ffi := (''blake3_avx512_ffi'' \<in> set (cfgs log)),
     cfg_neon := (''blake3_neon'' \<in> set (cfgs log)),
     cfg_wasm32_simd := (''blake3_wasm32_simd'' \<in> set (cfgs log))\<rparr>"

lemma configured_kernels [simp]: "kernels_ok (configured e log b) = kernels_ok b"
  unfolding kernels_ok_def by (simp add: configured_def)

text \<open>The kernels behind each kind: those of the Rust modules where their \<open>cfg\<close> is set, else the library.\<close>

definition built :: "c_library \<Rightarrow> env \<Rightarrow> build_log \<Rightarrow> b3_build \<Rightarrow> b3_build" where
  "built lib e log b =
     (let rust = (\<lambda>k. k \<in> {SSE2, SSE41, AVX2} \<and> ''blake3_sse2_rust'' \<in> set (cfgs log));
          f = ffi_build lib b
      in configured e log (f\<lparr>
           kern_compress_in_place := (\<lambda>k. if rust k then rust_compress_in_place k else kern_compress_in_place f k),
           kern_compress_xof := (\<lambda>k. if rust k then rust_compress_xof k else kern_compress_xof f k),
           kern_hash_many := (\<lambda>k. if rust k then rust_hash_many k else kern_hash_many f k)\<rparr>))"

lemma kernels_okD:
  assumes "kernels_ok b"
  shows "length cv = 8 \<and> length block = 64 \<Longrightarrow>
      kern_compress_in_place b k cv block bl c f = compress_in_place cv block bl c f
      \<and> kern_compress_xof b k cv block bl c f = compress_xof cv block bl c f"
    and "safe_group k (length inputs) \<and> length key = 8 \<and> N mod 64 = 0 \<and> (\<forall>x \<in> set inputs. length x = N)
        \<and> 32 * length inputs \<le> length out \<Longrightarrow>
      kern_hash_many b k inputs key c inc f fs fe out = Some (hash_many inputs key c inc f fs fe out)"
    and "length cv = 8 \<and> length block = 64 \<and> length out = 64 \<Longrightarrow>
      kern_xof_many b cv block bl c f out = Some (compress_xof cv block bl c f)"
  by (rule assms [unfolded kernels_ok_def, THEN conjunct1, THEN spec, THEN spec, THEN spec, THEN spec, THEN spec, THEN spec, THEN mp],
        assumption)
     (rule assms [unfolded kernels_ok_def, THEN conjunct2, THEN conjunct1, THEN spec, THEN spec, THEN spec, THEN spec, THEN spec,
        THEN spec, THEN spec, THEN spec, THEN spec, THEN spec, THEN mp], assumption,
      rule assms [unfolded kernels_ok_def, THEN conjunct2, THEN conjunct2, THEN spec, THEN spec, THEN spec, THEN spec, THEN spec,
        THEN spec, THEN mp], assumption)

lemma kernels_ok_mix:
  assumes "kernels_ok f" "kernels_ok r"
  shows "kernels_ok (f\<lparr>
    kern_compress_in_place := (\<lambda>k. if rust k then kern_compress_in_place r k else kern_compress_in_place f k),
    kern_compress_xof := (\<lambda>k. if rust k then kern_compress_xof r k else kern_compress_xof f k),
    kern_hash_many := (\<lambda>k. if rust k then kern_hash_many r k else kern_hash_many f k)\<rparr>)" (is "kernels_ok ?b")
proof -
  note ok = kernels_okD [OF assms(1)] kernels_okD [OF assms(2)]
  show ?thesis
    unfolding kernels_ok_def
  proof (intro conjI allI impI)
    fix k cv block bl c fl assume a: "length (cv :: cv_words) = 8 \<and> length (block :: bytes) = 64"
    show "kern_compress_in_place ?b k cv block bl c fl = compress_in_place cv block bl c fl"
      using ok(1) [OF a] ok(4) [OF a] by simp
    show "kern_compress_xof ?b k cv block bl c fl = compress_xof cv block bl c fl"
      using ok(1) [OF a] ok(4) [OF a] by simp
  next
    fix k N c inc fl fs fe and key :: cv_words and out :: bytes and inputs :: "bytes list"
    assume a: "safe_group k (length inputs) \<and> length key = 8 \<and> N mod 64 = 0 \<and> (\<forall>x \<in> set inputs. length x = N)
      \<and> 32 * length inputs \<le> length out"
    show "kern_hash_many ?b k inputs key c inc fl fs fe out = Some (hash_many inputs key c inc fl fs fe out)"
      using ok(2) [OF a] ok(5) [OF a] by simp
  next
    fix cv block bl c fl out
    assume a: "length (cv :: cv_words) = 8 \<and> length (block :: bytes) = 64 \<and> length (out :: bytes) = 64"
    show "kern_xof_many ?b cv block bl c fl out = Some (compress_xof cv block bl c fl)" using ok(3) [OF a] by simp
  qed
qed

lemma built_kernels:
  assumes "library_ok lib"
  shows "kernels_ok (built lib e log b)"
  using kernels_ok_mix [OF ffi_build_ok [OF assms, of b] rust_build_ok [of b],
      where rust = "\<lambda>k. k \<in> {SSE2, SSE41, AVX2} \<and> ''blake3_sse2_rust'' \<in> set (cfgs log)"]
  unfolding built_def Let_def configured_kernels by (simp add: rust_build_def cong: if_cong)

lemma x86_cfgs_not:
  "sse_avx2_linked c f \<Longrightarrow> ''blake3_neon'' \<notin> set c \<and> ''blake3_wasm32_simd'' \<notin> set c \<and> ''blake3_avx512_ffi'' \<notin> set c"
  "avx512_linked c f \<Longrightarrow> ''blake3_neon'' \<notin> set c \<and> ''blake3_wasm32_simd'' \<notin> set c"
  by (auto simp: sse_avx2_linked_def rust_cfgs_def ffi_cfgs_def avx512_linked_def)

lemma configured_x86:
  assumes "b3_build_main e tc = Some log" "arch e \<in> x86_archs"
  shows "\<not> cfg_neon (configured e log b) \<and> \<not> cfg_wasm32_simd (configured e log b)"
proof -
  obtain c c' c'' f f' f'' where k: "cfgs log = c @ c' @ c'' @ wasm_cfgs e"
    "if arch e \<in> x86_archs then sse_avx2_linked c f \<and> avx512_linked c' f' else c @ c' @ f @ f' = []" "neon_linked e c'' f''"
    by (rule main_selects_kernels [OF assms(1)])
  have "c'' = [] \<and> wasm_cfgs e = []" using k(3) assms(2) by (auto simp: neon_linked_def neon_wanted_def wasm_cfgs_def)
  then show ?thesis using k(1,2) assms(2) x86_cfgs_not by (simp add: configured_def) blast
qed


lemma pure_log:
  assumes "b3_build_main e tc = Some log" "is_pure e"
  shows "c_files log = [] \<and> \<not> cfg_avx512_ffi (configured e log b) \<and> \<not> cfg_neon (configured e log b)"
proof -
  obtain c c' c'' f f' f'' where k: "cfgs log = c @ c' @ c'' @ wasm_cfgs e" "c_files log = f @ f' @ f''"
    "if arch e \<in> x86_archs then sse_avx2_linked c f \<and> avx512_linked c' f' else c @ c' @ f @ f' = []" "neon_linked e c'' f''"
    "arch e \<noteq> ''x86_64'' \<or> is_pure e \<longrightarrow> f = []" "is_pure e \<longrightarrow> f' = [] \<and> f'' = []"
    by (rule main_selects_kernels [OF assms(1)])
  have none: "f = []" "f' = []" "f'' = []" using k(5,6) assms(2) by simp_all
  have "c'' = []" using k(4) none by (simp add: neon_linked_def split: if_splits)
  moreover have "c' = []" using k(3) none by (auto simp: avx512_linked_def split: if_splits)
  moreover have "''blake3_neon'' \<notin> set c \<and> ''blake3_avx512_ffi'' \<notin> set c"
    using k(3) x86_cfgs_not(1) by (cases "arch e \<in> x86_archs") auto
  ultimately show ?thesis using k(1,2) none by (simp add: configured_def wasm_cfgs_def)
qed

text \<open>
  A \<open>pure\<close> build does not fail for want of a C compiler: on a target of the usual four components the
  script returns, whatever the compiler answers, unless a warning about it counts as an error.
\<close>

lemma pure_build_returns:
  assumes "target_components e = Some cs" "4 \<le> length cs" "e ''CARGO_CFG_TARGET_OS'' \<noteq> None"
    and "is_pure e" "\<not> is_neon e" "\<not> is_ci e" "read_c tc"
    and path: "\<And>e b. \<exists>path. compiler_path tc e b = Some path \<and> CHR 0x0A \<notin> set path"
  shows "\<exists>log. b3_build_main e tc = Some log"
proof -
  have comp: "target_components e' = Some cs \<Longrightarrow> i < 4 \<Longrightarrow> component_is e' i s = Some (cs ! i = s)" for e' i s
    using assms(2) by (simp add: component_is_def)
  have msvc: "target_components e' = Some cs \<Longrightarrow> \<exists>m. is_windows_msvc e' = Some m" for e'
    by (auto simp: is_windows_msvc_def both_def either_def comp split: bool.splits)
  obtain m where m: "is_windows_msvc e = Some m" using msvc assms(1) by blast
  then obtain e' where lto: "without_lto e = Some e'" by (simp add: without_lto_def)
  note env = without_lto_env [OF lto]
  have cs: "target_components e' = Some cs" using without_lto_same [OF lto] assms(1) by (simp add: target_components_def)
  have os: "e' ''CARGO_CFG_TARGET_OS'' \<noteq> None" using without_lto_same [OF lto] assms(3) by simp
  have ci: "\<not> is_ci e'" using without_lto_same [OF lto] assms(6) by (simp add: is_ci_def defined_def)
  obtain m' where m': "is_windows_msvc e' = Some m'" using msvc cs by blast
  have warns: "warn e' x = Some [Warning x]" if "CHR 0x0A \<notin> set x" for x
    using that ci by (simp add: warn_def)
  have support: "\<exists>r. c_compiler_support e' tc = Some r"
  proof -
    obtain build where b: "new_build e' = Some build" using m' by (auto simp: new_build_def Let_def)
    obtain p where p: "compiler_path tc e' build = Some p" "CHR 0x0A \<notin> set p" using path by blast
    show ?thesis
      using p(2) by (auto simp: c_compiler_support_def b m' p(1) Let_def warns split: option.splits bool.splits)
  qed
  obtain sup w where sup: "c_compiler_support e' tc = Some (sup, w)" using support by (metis surj_pair)
  have "\<exists>l. x86_kernels e' tc = Some l"
    by (auto simp: x86_kernels_def is_x86_64_def is_x86_32_def comp [OF cs] either_def sup env assms(4) split: bool.splits)
  moreover have "\<exists>l. neon_kernels e' tc = Some l"
    by (auto simp: neon_kernels_def both_def either_def env assms(4,5) is_arm_def is_armv7_def is_aarch64_def comp [OF cs] split: bool.splits)
  moreover have "\<exists>l. wasm_kernels e' = Some l"
    by (auto simp: wasm_kernels_def build_wasm32_simd_def both_def is_wasm32_def comp [OF cs] split: bool.splits)
  moreover have "\<exists>l. remove_asm e' = Some l"
    using os by (auto simp: remove_asm_def both_def is_windows_target_def split: bool.splits)
  ultimately show ?thesis using assms(5,7) by (auto simp: b3_build_main_def lto env)
qed

subsection \<open>Properties\<close>

text \<open>C24. If the build script of the fork succeeds, then on x86 exactly one implementation of the SSE2, SSE4.1
  and AVX2 kernels is in the build, the Rust modules or the complete set of assembly files of one
  toolchain, and AVX-512 or NEON code is compiled exactly if its \<open>cfg\<close> is set; the crate configured so
  meets the contract of the dispatch if the C library meets its header, and with the \<open>pure\<close> feature nothing but
  Rust is in it, so that the contract holds outright.\<close>

theorem build_script_selects_kernels:
  assumes "b3_build_main e tc = Some log"
  shows "(\<exists>c f c' f' c'' f''. cfgs log = c @ c' @ c'' @ wasm_cfgs e \<and> c_files log = f @ f' @ f''
      \<and> (if arch e \<in> x86_archs then sse_avx2_linked c f \<and> avx512_linked c' f' else c @ c' @ f @ f' = [])
      \<and> neon_linked e c'' f'')
    \<and> (library_ok lib \<longrightarrow> platform_ok (detect (built lib e log b)))
    \<and> (is_pure e \<longrightarrow> c_files log = [] \<and> rust_build (configured e log b) = configured e log (rust_build b)
        \<and> platform_ok (detect (rust_build (configured e log b))))"
proof (intro conjI impI)
  show "\<exists>c f c' f' c'' f''. cfgs log = c @ c' @ c'' @ wasm_cfgs e \<and> c_files log = f @ f' @ f''
      \<and> (if arch e \<in> x86_archs then sse_avx2_linked c f \<and> avx512_linked c' f' else c @ c' @ f @ f' = [])
      \<and> neon_linked e c'' f''"
    by (rule main_selects_kernels [OF assms]) blast
  have conflict: "\<not> (cfg_x86 (configured e log b) \<and> (cfg_neon (configured e log b) \<or> cfg_wasm32_simd (configured e log b)))"
    using configured_x86 [OF assms] by (auto simp: configured_def)
  show "platform_ok (detect (built lib e log b))" if "library_ok lib"
    using built_kernels [OF that] conflict by (intro detect_ok) (simp_all add: built_def Let_def configured_def)
  show "platform_ok (detect (rust_build (configured e log b)))" using conflict by (intro rust_platform_ok) blast
  show "c_files log = []" if "is_pure e" using pure_log [OF assms that] by blast
  show "rust_build (configured e log b) = configured e log (rust_build b)" if "is_pure e"
    using pure_log [OF assms that, of b] by (simp add: rust_build_def configured_def)
qed

definition linux_pure :: env where
  "linux_pure = [''TARGET'' \<mapsto> ''x86_64-unknown-linux-gnu'', ''CARGO_CFG_TARGET_OS'' \<mapsto> ''linux'', ''CARGO_FEATURE_PURE'' \<mapsto> ''1'']"

definition modern_cc :: toolchain where
  "modern_cc = \<lparr>flag_supported = \<lambda>_ _ _. Some True, compiler_path = \<lambda>_ _. Some ''cc'', compiles = \<lambda>_ _ _. True, read_c = True\<rparr>"

lemma linux_pure_log: "b3_build_main linux_pure modern_cc = Some (map Check_Cfg all_cfgs @ build_sse2_sse41_avx2_rust_intrinsics)"
  by code_simp

theorem build_script_selects_kernels_witness:
  "c_files (the (b3_build_main linux_pure modern_cc)) = []
    \<and> platform_ok (detect (rust_build (configured linux_pure (the (b3_build_main linux_pure modern_cc)) (strict_build False))))
    \<and> platform_ok (detect (built contract_library linux_pure (the (b3_build_main linux_pure modern_cc)) (strict_build False)))"
proof -
  have "is_pure linux_pure" by (simp add: linux_pure_def is_pure_def defined_def)
  then show ?thesis
    unfolding linux_pure_log option.sel
    using build_script_selects_kernels [OF linux_pure_log, of contract_library "strict_build False"] contract_library_ok
    by blast
qed

end
