(* ===== verification/Kani_Seam.thy ===== *)
theory Kani_Seam
  imports Witness_Siv
begin

section \<open>The derivations with the keyed hash stubbed\<close>

text \<open>
  \<open>proofs.rs\<close> checks the construction of the tag with the keyed hash replaced (\<open>kani::stub\<close>) by a model
  that asserts the shape of each call and folds key and input into the output.  Here the derivations
  of \<open>Siv_Kdf\<close> take the hash as an argument; a stub threads a state, the count of its calls.  With the
  real hash they are the derivations of the crate.
\<close>

type_synonym 's keyed_hash = "bytes \<Rightarrow> bytes list \<Rightarrow> nat \<Rightarrow> 's \<Rightarrow> (bytes \<times> 's) option"

definition derive_tag_via ::
  "'s keyed_hash \<Rightarrow> allocator \<Rightarrow> nat \<Rightarrow> bytes \<Rightarrow> bytes \<Rightarrow> bytes \<Rightarrow> bytes \<Rightarrow> bytes \<Rightarrow> 's \<Rightarrow> (bytes \<times> 's) option"
where
  "derive_tag_via H al k k_in k_out nonce aad msg s =
     do {
       let head = tag_head nonce aad msg;
       (inner, s) \<leftarrow>
         (case concat_window head aad msg of
            Some n \<Rightarrow>
              (if fst (try_reserve_exact al k n) then H k_in [head @ aad @ msg] 32 s
               else H k_in [head, aad, msg] 32 s)
          | None \<Rightarrow> H k_in [head, aad, msg] 32 s);
       let outer = put_slice 8 inner (put_slice 0 DOM_TAG (replicate (8 + 32) 0));
       H k_out [outer] TAG_LEN s
     }"

definition derive_enc_via :: "'s keyed_hash \<Rightarrow> bytes \<Rightarrow> bytes \<Rightarrow> 's \<Rightarrow> ((bytes \<times> bytes) \<times> 's) option" where
  "derive_enc_via H enc_seed tag s =
     do {
       let inp = put_slice 8 tag (put_slice 0 DOM_ENC (replicate (8 + TAG_LEN) 0));
       (material, s) \<leftarrow> H enc_seed [inp] 44 s;
       Some ((subslice 0 32 material, subslice 32 44 material), s)
     }"

definition real_hash :: "siv_env \<Rightarrow> 's keyed_hash" where
  "real_hash E key parts n s = map_option (\<lambda>(out, _). (out, s)) (blake3_keyed_multi E key parts n)"

lemma derive_tag_seam:
  "map_option fst (derive_tag E k k_in k_out nonce aad msg)
    = map_option fst (derive_tag_via (real_hash E) (siv_alloc E) k k_in k_out nonce aad msg s)"
proof (cases "concat_window (tag_head nonce aad msg) aad msg")
  case None
  then show ?thesis
    by (auto simp: derive_tag_def derive_tag_via_def real_hash_def Let_def bind_map_option map_option_case
        split: option.splits prod.splits Option.bind_splits)
next
  case (Some n)
  then show ?thesis
    by (cases "try_reserve_exact (siv_alloc E) k n"; cases "fst (try_reserve_exact (siv_alloc E) k n)")
       (auto simp: derive_tag_def derive_tag_via_def real_hash_def Let_def bind_map_option map_option_case
        split: option.splits prod.splits Option.bind_splits)
qed

lemma derive_enc_seam:
  "map_option fst (derive_enc E enc_seed tag) = map_option fst (derive_enc_via (real_hash E) enc_seed tag s)"
  by (auto simp: derive_enc_def derive_enc_via_def blake3_keyed_xof_def real_hash_def Let_def bind_map_option map_option_case
      split: option.splits prod.splits Option.bind_splits)

subsection \<open>The model of the hash\<close>

definition HEAD_LEN :: nat where "HEAD_LEN = 8 + NONCE_LEN + 16"
definition OUTER_LEN :: nat where "OUTER_LEN = 8 + 32"

definition head_lengths :: "bytes \<Rightarrow> u64 \<times> u64" where
  "head_lengths head =
     (let aad_len = put_slice 0 (subslice (8 + NONCE_LEN) (16 + NONCE_LEN) head) (replicate 8 0);
          msg_len = put_slice 0 (subslice (16 + NONCE_LEN) (24 + NONCE_LEN) head) (replicate 8 0)
      in (le_word aad_len, le_word msg_len))"

definition fold_byte :: "u8 \<Rightarrow> nat \<Rightarrow> u8" where
  "fold_byte b position = word_rotl (position mod 8) (b + of_nat position)"

text \<open>The assertions on the arguments of a call.\<close>

definition call_shape :: "bytes list \<Rightarrow> nat \<Rightarrow> bool" where
  "call_shape parts out_len \<longleftrightarrow>
     (length parts = 1 \<or> length parts = 3) \<and>
     (if length parts = 3 then
        out_len = 32 \<and> length (parts ! 0) = HEAD_LEN \<and> take 8 (parts ! 0) = DOM_PRE \<and>
        (let (aad_len, msg_len) = head_lengths (parts ! 0)
         in aad_len = of_nat (length (parts ! 1)) \<and> msg_len = of_nat (length (parts ! 2)))
      else
        8 \<le> length (parts ! 0) \<and>
        (if take 8 (parts ! 0) = DOM_ENC then length (parts ! 0) = 8 + TAG_LEN \<and> out_len = 44
         else if take 8 (parts ! 0) = DOM_TAG then length (parts ! 0) = OUTER_LEN \<and> out_len = TAG_LEN
         else
           take 8 (parts ! 0) = DOM_PRE \<and> HEAD_LEN \<le> length (parts ! 0) \<and> out_len = 32 \<and>
           (let (aad_len, msg_len) = head_lengths (parts ! 0)
            in checked_add HEAD_LEN (unat aad_len) \<bind> (\<lambda>t. checked_add t (unat msg_len)) = Some (length (parts ! 0)))))"

text \<open>The accumulator and the running position, over one segment of the stream.\<close>

fun fold_part :: "nat \<Rightarrow> bytes \<times> nat \<Rightarrow> bytes \<Rightarrow> bytes \<times> nat" where
  "fold_part out_len (acc, n) [] = (acc, n)"
| "fold_part out_len (acc, n) (b # bs) =
     fold_part out_len (acc[n mod out_len := acc ! (n mod out_len) XOR fold_byte b n], n + 1) bs"

definition model_blake3_keyed_multi :: "nat keyed_hash" where
  "model_blake3_keyed_multi key parts out_len calls =
     do {
       let calls = calls + 1;
       assert_that (call_shape parts out_len);
       let acc = replicate TAG_LEN 0;
       let st = fold_part out_len (acc, 0) key;
       let (acc, n) = foldl (fold_part out_len) st parts;
       let total = foldl (\<lambda>t p. t + of_nat (length p)) 0 parts;
       let len_bytes = u64_bytes total;
       Some (map (\<lambda>i. acc ! i XOR (if i < 8 then len_bytes ! i else 0)) [0..<out_len], calls)
     }"

subsection \<open>What the model sees\<close>

lemma xor_cancel: "c XOR a = c XOR b \<longleftrightarrow> a = b" "a XOR c = b XOR c \<longleftrightarrow> a = b" for a b c :: u8
  by (metis xor.assoc xor.left_neutral xor_self_eq) (metis xor.assoc xor.right_neutral xor_self_eq)

lemma nth_update_at: "xs[i := x] ! j = (if i = j \<and> j < length xs then x else xs ! j)"
  by (cases "i < length xs") (auto simp: nth_list_update list_update_beyond not_less)

lemma fold_byte_inject: "fold_byte b n = fold_byte b' n \<longleftrightarrow> b = b'"
  proof
  assume "fold_byte b n = fold_byte b' n"
  then have "word_rotr (n mod 8) (fold_byte b n) = word_rotr (n mod 8) (fold_byte b' n)" by simp
  then show "b = b'" by (simp add: fold_byte_def)
qed simp

lemma fold_part_append: "fold_part m s (x @ y) = fold_part m (fold_part m s x) y"
  by (induction m s x rule: fold_part.induct) simp_all

lemma fold_parts: "foldl (fold_part m) s parts = fold_part m s (concat parts)"
proof (induction parts arbitrary: s)
  case Nil
  then show ?case by (cases s) simp
next
  case (Cons p parts)
  then show ?case by (simp add: fold_part_append)
qed

lemma total_of_parts: "foldl (\<lambda>t p. t + of_nat (length p)) a parts = (a + of_nat (length (concat parts)) :: u64)"
  by (induction parts arbitrary: a) simp_all

text \<open>The output of a call whose shape is right, over the concatenation of the parts.\<close>

definition model_out :: "bytes \<Rightarrow> bytes \<Rightarrow> nat \<Rightarrow> bytes" where
  "model_out key inp m =
     (let acc = fst (fold_part m (replicate TAG_LEN 0, 0) (key @ inp))
      in map (\<lambda>i. acc ! i XOR (if i < 8 then u64_bytes (of_nat (length inp)) ! i else 0)) [0..<m])"

lemma model_eq:
  "call_shape parts m \<Longrightarrow> model_blake3_keyed_multi key parts m calls = Some (model_out key (concat parts) m, calls + 1)"
  by (simp add: model_blake3_keyed_multi_def model_out_def fold_parts total_of_parts fold_part_append case_prod_beta Let_def)

lemma length_model_out [simp]: "length (model_out key inp m) = m"
  by (simp add: model_out_def Let_def)

definition differ_at :: "nat \<Rightarrow> bytes \<Rightarrow> bytes \<Rightarrow> bool" where
  "differ_at p xs ys \<longleftrightarrow> p < length xs \<and> length xs = length ys \<and> (\<forall>i < length xs. xs ! i = ys ! i \<longleftrightarrow> i \<noteq> p)"

lemma fold_part_length: "length (fst (fold_part m s xs)) = length (fst s)"
  by (induction m s xs rule: fold_part.induct) simp_all

lemma fold_part_position: "snd (fold_part m s xs) = snd s + length xs"
  by (induction m s xs rule: fold_part.induct) simp_all

lemma fold_part_keeps: "differ_at p acc acc' \<Longrightarrow> differ_at p (fst (fold_part m (acc, n) xs)) (fst (fold_part m (acc', n) xs))"
proof (induction xs arbitrary: acc acc' n)
  case (Cons b xs)
  let ?j = "n mod m"
  have "differ_at p (acc[?j := acc ! ?j XOR fold_byte b n]) (acc'[?j := acc' ! ?j XOR fold_byte b n])"
    using Cons.prems by (simp add: differ_at_def nth_update_at xor_cancel)
  from Cons.IH [OF this] show ?case by simp
qed simp

lemma fold_part_edit:
  assumes "differ_at p xs ys" "0 < m" "m \<le> length acc"
  shows "differ_at ((n + p) mod m) (fst (fold_part m (acc, n) xs)) (fst (fold_part m (acc, n) ys))"
proof -
  have p: "p < length xs" "length xs = length ys" "xs ! p \<noteq> ys ! p" using assms(1) by (auto simp: differ_at_def)
  have "take p xs = take p ys" using assms(1) by (intro nth_take_lemma) (auto simp: differ_at_def)
  moreover have "drop (Suc p) xs = drop (Suc p) ys" using assms(1) by (intro nth_equalityI) (auto simp: differ_at_def)
  ultimately obtain a x y z where xy: "xs = a @ x # z" "ys = a @ y # z" "length a = p" "x \<noteq> y"
    using p id_take_nth_drop [of p xs] id_take_nth_drop [of p ys] by (metis length_take min.absorb2 less_imp_le)
  obtain acc' where s: "fold_part m (acc, n) a = (acc', n + p)" "length acc' = length acc"
    using fold_part_position [of m "(acc, n)" a] fold_part_length [of m "(acc, n)" a] xy(3)
    by (cases "fold_part m (acc, n) a") auto
  let ?j = "(n + p) mod m" and ?u = "\<lambda>b. acc' ! ((n + p) mod m) XOR fold_byte b (n + p)"
  have "?j < length acc'" using assms(2,3) s(2) by (simp add: order_less_le_trans [of _ m])
  moreover have "?u x \<noteq> ?u y" using xy(4) by (simp add: fold_byte_inject xor_cancel)
  ultimately have "differ_at ?j (acc'[?j := ?u x]) (acc'[?j := ?u y])" by (simp add: differ_at_def nth_update_at)
  then show ?thesis unfolding xy(1,2) fold_part_append s(1) fold_part.simps by (rule fold_part_keeps)
qed

lemma model_edit:
  assumes "differ_at p (key @ inp) (key' @ inp')" "length inp = length inp'" "0 < m" "m \<le> TAG_LEN"
  shows "differ_at (p mod m) (model_out key inp m) (model_out key' inp' m)"
proof -
  have "differ_at (p mod m) (fst (fold_part m (replicate TAG_LEN 0, 0) (key @ inp))) (fst (fold_part m (replicate TAG_LEN 0, 0) (key' @ inp')))"
    using fold_part_edit [OF assms(1,3), of "replicate TAG_LEN 0" 0] assms(4) by simp
  then show ?thesis using assms(2-4) by (simp add: model_out_def Let_def differ_at_def fold_part_length xor_cancel)
qed


subsection \<open>The calls of the derivations\<close>

lemma tag_head_parts:
  "length nonce = 24 \<Longrightarrow> tag_head nonce aad msg = DOM_PRE @ nonce @ u64_bytes (of_nat (length aad)) @ u64_bytes (of_nat (length msg))"
  by (simp add: tag_head_def NONCE_LEN_def put_slice_def)

lemma head_lengths_parts:
  "length nonce = 24 \<Longrightarrow> head_lengths (DOM_PRE @ nonce @ u64_bytes a @ u64_bytes m @ t) = (a, m)"
  by (simp add: head_lengths_def NONCE_LEN_def subslice_def put_slice_def)

lemma domains_differ: "DOM_PRE \<noteq> DOM_ENC" "DOM_PRE \<noteq> DOM_TAG" "DOM_TAG \<noteq> DOM_ENC"
  by (simp_all add: DOM_PRE_def DOM_TAG_def DOM_ENC_def)

lemma shape_three: "length nonce = 24 \<Longrightarrow> call_shape [tag_head nonce aad msg, aad, msg] 32"
  using head_lengths_parts [of nonce "of_nat (length aad)" "of_nat (length msg)" "[]"]
  by (simp add: call_shape_def tag_head_parts HEAD_LEN_def NONCE_LEN_def)

lemma shape_whole:
  assumes "length nonce = 24" "length aad + length msg + 48 < 2 ^ 64"
  shows "call_shape [tag_head nonce aad msg @ aad @ msg] 32"
proof -
  have "unat (of_nat (length aad) :: u64) = length aad" "unat (of_nat (length msg) :: u64) = length msg"
    using assms(2) by (simp_all add: unat_of_nat)
  then show ?thesis
    using head_lengths_parts [OF assms(1), of "of_nat (length aad)" "of_nat (length msg)" "aad @ msg"] assms domains_differ
    by (simp add: call_shape_def tag_head_parts HEAD_LEN_def NONCE_LEN_def checked_add_def)
qed

lemma outer_input: "length x = 32 \<Longrightarrow> put_slice 8 x (put_slice 0 DOM_TAG (replicate (8 + 32) 0)) = DOM_TAG @ x"
  by (simp add: put_slice_def)

lemma shape_outer: "length x = 32 \<Longrightarrow> call_shape [DOM_TAG @ x] TAG_LEN"
  using domains_differ by (simp add: call_shape_def OUTER_LEN_def)

lemma enc_input: "length tag = 65 \<Longrightarrow> put_slice 8 tag (put_slice 0 DOM_ENC (replicate (8 + TAG_LEN) 0)) = DOM_ENC @ tag"
  by (simp add: put_slice_def TAG_LEN_def)

lemma shape_enc: "length tag = 65 \<Longrightarrow> call_shape [DOM_ENC @ tag] 44"
  by (simp add: call_shape_def TAG_LEN_def)

definition model_tag :: "bytes \<Rightarrow> bytes \<Rightarrow> bytes \<Rightarrow> bytes \<Rightarrow> bytes \<Rightarrow> bytes" where
  "model_tag k_in k_out nonce aad msg = model_out k_out (DOM_TAG @ model_out k_in (spec_head nonce aad msg) 32) TAG_LEN"

lemma tag_via_model:
  assumes "length nonce = 24"
  shows "derive_tag_via model_blake3_keyed_multi al k k_in k_out nonce aad msg calls
    = Some (model_tag k_in k_out nonce aad msg, calls + 2)"
proof -
  let ?head = "tag_head nonce aad msg" and ?X = "model_out k_in (spec_head nonce aad msg) 32"
  have head: "?head @ aad @ msg = spec_head nonce aad msg" using tag_head_eq [OF assms, of aad msg] by simp
  have three: "model_blake3_keyed_multi k_in [?head, aad, msg] 32 calls = Some (?X, calls + 1)"
    using model_eq [OF shape_three [OF assms]] head by simp
  have whole: "model_blake3_keyed_multi k_in [?head @ aad @ msg] 32 calls = Some (?X, calls + 1)"
    if "concat_window ?head aad msg = Some n" for n
  proof -
    have "length ?head = 48" using assms by (simp add: tag_head_parts)
    then have "length aad + length msg + 48 < 2 ^ 64"
      using that by (auto simp: concat_window_def checked_add_def TAG_CONCAT_LIMIT_def bind_eq_Some_conv split: if_splits)
    from model_eq [OF shape_whole [OF assms this], of k_in calls] show ?thesis by (simp only: concat.simps append_Nil2 head)
  qed
  have outer: "model_blake3_keyed_multi k_out [put_slice 8 ?X (put_slice 0 DOM_TAG (replicate (8 + 32) 0))] TAG_LEN (calls + 1)
      = Some (model_tag k_in k_out nonce aad msg, calls + 2)"
    unfolding outer_input [OF length_model_out] using model_eq [OF shape_outer [OF length_model_out]] by (simp add: model_tag_def)
  show ?thesis
    using three whole outer by (auto simp: derive_tag_via_def Let_def simp del: replicate.simps split: option.splits)
qed

lemma enc_via_model:
  assumes "length tag = 65"
  shows "derive_enc_via model_blake3_keyed_multi enc_seed tag calls
    = Some ((subslice 0 32 (model_out enc_seed (DOM_ENC @ tag) 44), subslice 32 44 (model_out enc_seed (DOM_ENC @ tag) 44)), calls + 1)"
  unfolding derive_enc_via_def Let_def enc_input [OF assms] model_eq [OF shape_enc [OF assms]] by simp

subsection \<open>A single edit reaches the tag\<close>

lemma differ_at_append:
  "differ_at p xs ys \<Longrightarrow> differ_at p (xs @ z) (ys @ z)"
  "differ_at p xs ys \<Longrightarrow> differ_at (length z + p) (z @ xs) (z @ ys)"
  by (auto simp: differ_at_def nth_append)

lemma differ_at_update: "p < length xs \<Longrightarrow> b \<noteq> xs ! p \<Longrightarrow> differ_at p xs (xs[p := b])"
  by (auto simp: differ_at_def nth_list_update)

lemma outer_edit:
  assumes "differ_at p x x'" "length x = 32"
  shows "\<exists>q. differ_at q (model_out k (DOM_TAG @ x) TAG_LEN) (model_out k (DOM_TAG @ x') TAG_LEN)"
proof -
  have "differ_at (length k + (length DOM_TAG + p)) (k @ DOM_TAG @ x) (k @ DOM_TAG @ x')"
    by (intro differ_at_append(2) assms(1))
  from model_edit [OF this, of TAG_LEN] have "differ_at ((length k + (length DOM_TAG + p)) mod TAG_LEN)
      (model_out k (DOM_TAG @ x) TAG_LEN) (model_out k (DOM_TAG @ x') TAG_LEN)"
    using assms by (simp add: differ_at_def TAG_LEN_def)
  then show ?thesis by blast
qed

lemma k_in_edit:
  assumes "differ_at p k_in k_in'"
  shows "\<exists>q. differ_at q (model_tag k_in k_out nonce aad msg) (model_tag k_in' k_out nonce aad msg)"
  unfolding model_tag_def
  by (rule outer_edit [OF model_edit]) (use differ_at_append(1) [OF assms] in \<open>auto simp: TAG_LEN_def\<close>)

lemma k_out_edit:
  assumes "differ_at p k_out k_out'"
  shows "\<exists>q. differ_at q (model_tag k_in k_out nonce aad msg) (model_tag k_in k_out' nonce aad msg)"
  unfolding model_tag_def
  by (rule exI, rule model_edit [OF differ_at_append(1) [OF assms]]) (simp_all add: TAG_LEN_def)

lemma input_edit:
  assumes "differ_at p (spec_head nonce aad msg) (spec_head nonce aad' msg')"
  shows "\<exists>q. differ_at q (model_tag k_in k_out nonce aad msg) (model_tag k_in k_out nonce aad' msg')"
  unfolding model_tag_def
  by (rule outer_edit [OF model_edit [OF differ_at_append(2) [OF assms]]]) (use assms in \<open>auto simp: TAG_LEN_def differ_at_def\<close>)

lemma aad_edit:
  assumes "differ_at p aad aad'"
  shows "\<exists>q. differ_at q (model_tag k_in k_out nonce aad msg) (model_tag k_in k_out nonce aad' msg)"
proof (rule input_edit)
  have "length aad' = length aad" using assms by (simp add: differ_at_def)
  then show "differ_at (length DOM_PRE + (length nonce + (8 + (8 + p)))) (spec_head nonce aad msg) (spec_head nonce aad' msg)"
    using differ_at_append(1) [OF assms, of msg]
    by (simp only: spec_head_def) (intro differ_at_append(2) [where z = DOM_PRE] differ_at_append(2) [where z = nonce]
      differ_at_append(2) [where z = "u64_bytes _", unfolded length_le_bytes])
qed

lemma msg_edit:
  assumes "differ_at p msg msg'"
  shows "\<exists>q. differ_at q (model_tag k_in k_out nonce aad msg) (model_tag k_in k_out nonce aad msg')"
proof (rule input_edit)
  have "length msg' = length msg" using assms by (simp add: differ_at_def)
  then show "differ_at (length DOM_PRE + (length nonce + (8 + (8 + (length aad + p))))) (spec_head nonce aad msg) (spec_head nonce aad msg')"
    using differ_at_append(2) [OF assms, of aad]
    by (simp only: spec_head_def) (intro differ_at_append(2) [where z = DOM_PRE] differ_at_append(2) [where z = nonce]
      differ_at_append(2) [where z = "u64_bytes _", unfolded length_le_bytes])
qed

lemma enc_edit:
  assumes "differ_at p tag tag'"
  shows "\<exists>q. differ_at q (model_out seed (DOM_ENC @ tag) 44) (model_out seed (DOM_ENC @ tag') 44)"
proof -
  have "differ_at (length seed + (length DOM_ENC + p)) (seed @ DOM_ENC @ tag) (seed @ DOM_ENC @ tag')"
    by (intro differ_at_append(2) assms)
  from model_edit [OF this, of 44] have "differ_at ((length seed + (length DOM_ENC + p)) mod 44)
      (model_out seed (DOM_ENC @ tag) 44) (model_out seed (DOM_ENC @ tag') 44)"
    using assms by (simp add: differ_at_def TAG_LEN_def)
  then show ?thesis by blast
qed

end
