(* ===== verification/Draft_Vector.thy ===== *)
theory Draft_Vector
  imports ChaCha
begin

section \<open>The published vector of HChaCha20\<close>

text \<open>
  The ten double rounds on the state of the HChaCha20 test vector of draft-irtf-cfrg-xchacha-03,
  section 2.2.1, evaluated one by one; the harness \<open>hchacha20_matches_draft_vector\<close> rests on them.
\<close>

lemma draft_round_1:
  "chacha20_double_round
    [0x61707865, 0x3320646e, 0x79622d32, 0x6b206574, 0x03020100, 0x07060504, 0x0b0a0908, 0x0f0e0d0c,
    0x13121110, 0x17161514, 0x1b1a1918, 0x1f1e1d1c, 0x09000000, 0x4a000000, 0, 0x27594131] =
    [0x7bc434f3, 0x6a045b3d, 0xa9b6a717, 0xe97301f1, 0x61ba01e7, 0x8d245f4b, 0x33708154, 0xd31e1023,
    0x3af18a5b, 0xb644b533, 0xfd66db41, 0x51e9ad3a, 0xc424874b, 0x61d36895, 0xe9ff651a, 0x923c81f0]"
  by code_simp

lemma draft_round_2:
  "chacha20_double_round
    [0x7bc434f3, 0x6a045b3d, 0xa9b6a717, 0xe97301f1, 0x61ba01e7, 0x8d245f4b, 0x33708154, 0xd31e1023,
    0x3af18a5b, 0xb644b533, 0xfd66db41, 0x51e9ad3a, 0xc424874b, 0x61d36895, 0xe9ff651a, 0x923c81f0] =
    [0x8e19d568, 0x4f94b2fa, 0xe2e6b081, 0xe3471ee3, 0x5d8dc91e, 0xe4843060, 0x7c532d54, 0x9ad42044,
    0x0b30ba63, 0x4f1b068a, 0x83ad7706, 0xc3e09f4c, 0xa664c0c1, 0x3292fc5b, 0xa73c703f, 0x7137a6f4]"
  by code_simp

lemma draft_round_3:
  "chacha20_double_round
    [0x8e19d568, 0x4f94b2fa, 0xe2e6b081, 0xe3471ee3, 0x5d8dc91e, 0xe4843060, 0x7c532d54, 0x9ad42044,
    0x0b30ba63, 0x4f1b068a, 0x83ad7706, 0xc3e09f4c, 0xa664c0c1, 0x3292fc5b, 0xa73c703f, 0x7137a6f4] =
    [0x9f53c98b, 0x87372c3c, 0x8995494b, 0x2939b691, 0xaa53ec91, 0xa64cd8c6, 0x591beafb, 0x1a9dbfe2,
    0x0c5e96dd, 0x153f5501, 0x83e50579, 0xad694245, 0x82fb0b27, 0x9479489b, 0x3ef1765e, 0xff752502]"
  by code_simp

lemma draft_round_4:
  "chacha20_double_round
    [0x9f53c98b, 0x87372c3c, 0x8995494b, 0x2939b691, 0xaa53ec91, 0xa64cd8c6, 0x591beafb, 0x1a9dbfe2,
    0x0c5e96dd, 0x153f5501, 0x83e50579, 0xad694245, 0x82fb0b27, 0x9479489b, 0x3ef1765e, 0xff752502] =
    [0x7b893f75, 0xfcb39b21, 0x0797b1bf, 0x5f9ec3b3, 0x4e0f0bd5, 0xafa77b58, 0xea5562e0, 0xd7ac0abe,
    0x6990c3af, 0x435ab730, 0xd68d7249, 0x16696500, 0xb0162333, 0x553ccfa7, 0x13cbe911, 0xdbbab6cc]"
  by code_simp

lemma draft_round_5:
  "chacha20_double_round
    [0x7b893f75, 0xfcb39b21, 0x0797b1bf, 0x5f9ec3b3, 0x4e0f0bd5, 0xafa77b58, 0xea5562e0, 0xd7ac0abe,
    0x6990c3af, 0x435ab730, 0xd68d7249, 0x16696500, 0xb0162333, 0x553ccfa7, 0x13cbe911, 0xdbbab6cc] =
    [0xd1de186c, 0xb0c7b93c, 0xd078df04, 0x660e0112, 0x67e36bdb, 0xac30ed15, 0xbd9ed3dd, 0x7851b2cd,
    0xab33732a, 0xba25d2cf, 0x4ed7a584, 0x5bd1985c, 0xf3168d27, 0x8d87591b, 0x8c80db2f, 0x44367d8c]"
  by code_simp

lemma draft_round_6:
  "chacha20_double_round
    [0xd1de186c, 0xb0c7b93c, 0xd078df04, 0x660e0112, 0x67e36bdb, 0xac30ed15, 0xbd9ed3dd, 0x7851b2cd,
    0xab33732a, 0xba25d2cf, 0x4ed7a584, 0x5bd1985c, 0xf3168d27, 0x8d87591b, 0x8c80db2f, 0x44367d8c] =
    [0x44ac8600, 0xe23f5411, 0x5ae80570, 0x5d4f85b8, 0x2de236d4, 0xfddd6beb, 0x0e3b8a87, 0x8c65a958,
    0x8018e660, 0xe591c0ff, 0x33dec291, 0xf507052f, 0x4eccc9aa, 0x48e81158, 0x45902c7f, 0xfed52426]"
  by code_simp

lemma draft_round_7:
  "chacha20_double_round
    [0x44ac8600, 0xe23f5411, 0x5ae80570, 0x5d4f85b8, 0x2de236d4, 0xfddd6beb, 0x0e3b8a87, 0x8c65a958,
    0x8018e660, 0xe591c0ff, 0x33dec291, 0xf507052f, 0x4eccc9aa, 0x48e81158, 0x45902c7f, 0xfed52426] =
    [0x82f32a6d, 0x8e367c9d, 0x12b17440, 0x1bda71e1, 0x9375cc72, 0xc4a0c4c8, 0xd199bb4b, 0x2c035ec8,
    0x6a8444e0, 0xd4b831be, 0xade4e9ca, 0xe44d4801, 0xa6cec396, 0x6cf97b4d, 0xfd6c3bb3, 0xa74858b5]"
  by code_simp

lemma draft_round_8:
  "chacha20_double_round
    [0x82f32a6d, 0x8e367c9d, 0x12b17440, 0x1bda71e1, 0x9375cc72, 0xc4a0c4c8, 0xd199bb4b, 0x2c035ec8,
    0x6a8444e0, 0xd4b831be, 0xade4e9ca, 0xe44d4801, 0xa6cec396, 0x6cf97b4d, 0xfd6c3bb3, 0xa74858b5] =
    [0x4d7f6f44, 0xe8db7660, 0x2268596b, 0x195222b4, 0x64520ce3, 0x2d3d17fc, 0x0aa8fb53, 0x375eb422,
    0xc0d0af92, 0x12244acd, 0x5a534192, 0x6abb8c14, 0x0a2bcb7c, 0x7e657143, 0x89b818ce, 0xaf9b6644]"
  by code_simp

lemma draft_round_9:
  "chacha20_double_round
    [0x4d7f6f44, 0xe8db7660, 0x2268596b, 0x195222b4, 0x64520ce3, 0x2d3d17fc, 0x0aa8fb53, 0x375eb422,
    0xc0d0af92, 0x12244acd, 0x5a534192, 0x6abb8c14, 0x0a2bcb7c, 0x7e657143, 0x89b818ce, 0xaf9b6644] =
    [0x2d02a54c, 0x6fdd5da4, 0x517a3ba9, 0x4048cdf3, 0x2735a16f, 0xfdf971a2, 0x454a57d9, 0xf1886447,
    0xc7a7fbc9, 0x6f108d65, 0x8ffa82c8, 0xc8267115, 0x18bb420c, 0x2d4e065f, 0x16d4618a, 0xc7f61ba4]"
  by code_simp

lemma draft_round_10:
  "chacha20_double_round
    [0x2d02a54c, 0x6fdd5da4, 0x517a3ba9, 0x4048cdf3, 0x2735a16f, 0xfdf971a2, 0x454a57d9, 0xf1886447,
    0xc7a7fbc9, 0x6f108d65, 0x8ffa82c8, 0xc8267115, 0x18bb420c, 0x2d4e065f, 0x16d4618a, 0xc7f61ba4] =
    [0x423b4182, 0xfe7bb227, 0x50420ed3, 0x737d878a, 0x0aa76448, 0x7954cdf3, 0x846acd37, 0x7b3c58ad,
    0x77e35583, 0x83e77c12, 0xe0076a2d, 0xbc6cd0e5, 0xd5e4f9a0, 0x53a8748a, 0x13c42ec1, 0xdcecd326]"
  by code_simp

lemmas draft_round = draft_round_1 draft_round_2 draft_round_3 draft_round_4 draft_round_5
  draft_round_6 draft_round_7 draft_round_8 draft_round_9 draft_round_10

lemma draft_rounds:
  "chacha20_rounds
    [0x61707865, 0x3320646e, 0x79622d32, 0x6b206574, 0x03020100, 0x07060504, 0x0b0a0908, 0x0f0e0d0c,
    0x13121110, 0x17161514, 0x1b1a1918, 0x1f1e1d1c, 0x09000000, 0x4a000000, 0, 0x27594131] =
    [0x423b4182, 0xfe7bb227, 0x50420ed3, 0x737d878a, 0x0aa76448, 0x7954cdf3, 0x846acd37, 0x7b3c58ad,
    0x77e35583, 0x83e77c12, 0xe0076a2d, 0xbc6cd0e5, 0xd5e4f9a0, 0x53a8748a, 0x13c42ec1, 0xdcecd326]"
  by (simp only: chacha20_rounds_def numeral_eq_Suc funpow.simps id_apply comp_apply pred_numeral_simps
      numeral_One One_nat_def funpow_swap1 BitM.simps draft_round)

end
