(* ===== verification/Kani_Harnesses.thy ===== *)
theory Kani_Harnesses
  imports Kani_Seam Siv_Api Draft_Vector
begin

section \<open>The Kani harnesses\<close>

text \<open>
  The harnesses of \<open>proofs.rs\<close> as functions of their symbolic inputs (\<open>kani::any\<close>), with an assumption
  (\<open>kani::assume\<close>) that fails as a run that returns; \<open>None\<close> is a failed assertion or a panic.  The stubs
  of the tag and stream harnesses are those of \<open>proofs.rs\<close>; the stub of \<open>zeroize_array\<close> drops wipes whose
  results are not read.
\<close>

subsection \<open>Zeroization\<close>

definition zeroize_slice_clears_all_bytes :: "u8 \<Rightarrow> (nat \<Rightarrow> u8) \<Rightarrow> nat \<Rightarrow> memory \<Rightarrow> unit option" where
  "zeroize_slice_clears_all_bytes n any ptr m =
     do {
       let len = unat (n mod 26);
       let buf = map any [0..<len];
       (buf, m) \<leftarrow> zeroize_slice ptr buf m;
       assert_that (list_all (\<lambda>b. b = 0) buf)
     }"

definition zeroize_array_clears_all_bytes ::
  "nat \<Rightarrow> bytes \<Rightarrow> bytes \<Rightarrow> bytes \<Rightarrow> bytes \<Rightarrow> u32 list \<Rightarrow> memory \<Rightarrow> unit option"
where
  "zeroize_array_clears_all_bytes ptr a12 a32 a44 a65 words m =
     do {
       (a12, m) \<leftarrow> zeroize_slice ptr a12 m;
       assert_that (list_all (\<lambda>b. b = 0) a12);
       (a32, m) \<leftarrow> zeroize_slice ptr a32 m;
       assert_that (list_all (\<lambda>b. b = 0) a32);
       (a44, m) \<leftarrow> zeroize_slice ptr a44 m;
       assert_that (list_all (\<lambda>b. b = 0) a44);
       (a65, m) \<leftarrow> zeroize_slice ptr a65 m;
       assert_that (list_all (\<lambda>b. b = 0) a65);
       (words, m) \<leftarrow> zeroize_words ptr words m;
       assert_that (list_all (\<lambda>w. w = 0) words)
     }"

text \<open>The window is wiped where it lies, and the whole backing array is read back.\<close>

definition zeroize_slice_clears_unaligned_window :: "u8 \<Rightarrow> u8 \<Rightarrow> nat \<Rightarrow> memory \<Rightarrow> unit option" where
  "zeroize_slice_clears_unaligned_window a b ptr m =
     (let backing = replicate 16 0xAA;
          off = unat (a mod 8);
          len = unat (b mod 16)
      in if \<not> off + len \<le> 16 then Some () else do {
           let before_prefix = take off backing;
           let before_suffix = drop (off + len) backing;
           (window, m) \<leftarrow> zeroize_slice (ptr + off) (subslice off (off + len) backing) (load_slice ptr backing m);
           let backing = read_slice ptr 16 m;
           assert_that (list_all (\<lambda>i. backing ! i = 0) [off..<off + len]);
           assert_that (list_all (\<lambda>i. backing ! i = before_prefix ! i) [0..<off]);
           assert_that (list_all (\<lambda>i. backing ! (off + len + i) = before_suffix ! i) [0..<length before_suffix])
         })"

subsection \<open>The ChaCha20 stream\<close>

definition stub_chacha20_block_into :: "bytes \<Rightarrow> u32 \<Rightarrow> bytes \<Rightarrow> bytes" where
  "stub_chacha20_block_into key counter nonce =
     (let out = replicate 64 0;
          out = put_slice 0 (u32_bytes counter) out;
          out = put_slice 4 (subslice 0 4 nonce) out;
          out = put_slice 8 (subslice 8 12 nonce) out;
          out = put_slice 12 (subslice 0 4 key) out;
          out = put_slice 16 (subslice 28 32 key) out
      in out)"

text \<open>\<open>chacha20_apply\<close> where \<open>cfg(kani)\<close> leaves out the vector kernels, with the block function as argument.\<close>

definition apply_via :: "(u32 \<Rightarrow> bytes) \<Rightarrow> u32 \<Rightarrow> input \<Rightarrow> bytes \<Rightarrow> bytes option" where
  "apply_via block counter inp buf =
     do {
       (case inp of Separate src \<Rightarrow> assert_that (length src = length buf) | _ \<Rightarrow> Some ());
       let n = length buf;
       (ctr, off, buf) \<leftarrow> apply_loop block CHACHA20_BLOCK 1 inp n counter 0 buf;
       (if off < n then xor_or_copy inp buf off (take (n - off) (block ctr)) else Some buf)
     }"

lemma apply_via_real:
  "chacha20_apply Other_Target key counter nonce inp buf = apply_via (\<lambda>c. chacha20_block_into key c nonce) counter inp buf"
  by (simp add: chacha20_apply_def apply_via_def Let_def)

definition chacha20_counter_sequencing_is_exact :: "unit option" where
  "chacha20_counter_sequencing_is_exact =
     do {
       let key = replicate 32 0x5A;
       let nonce = replicate 12 0xA5;
       let start = 7;
       out \<leftarrow> apply_via (\<lambda>c. stub_chacha20_block_into key c nonce) start Keystream (replicate 200 0);
       assert_that (list_all (\<lambda>i. le_word (subslice (i * 64) (i * 64 + 4) out) = (start + of_nat i :: u32)) [0..<3]);
       assert_that (le_word (subslice 192 196 out) = start + 3)
     }"

definition chacha20_keystream_involution_partial_blocks :: "(nat \<Rightarrow> u8) \<Rightarrow> unit option" where
  "chacha20_keystream_involution_partial_blocks any =
     do {
       let key = replicate 32 0x5A;
       let nonce = replicate 12 0xA5;
       let ctr = 0x11223344;
       let len = 66;
       let pt = map any [0..<len];
       ct \<leftarrow> apply_via (\<lambda>c. stub_chacha20_block_into key c nonce) ctr (Separate pt) (replicate len 0);
       assert_that (list_all (\<lambda>i. ct ! i = pt ! i XOR stub_chacha20_block_into key (ctr + of_nat (i div 64)) nonce ! (i mod 64)) [0..<len]);
       back \<leftarrow> apply_via (\<lambda>c. stub_chacha20_block_into key c nonce) ctr (Separate ct) (replicate len 0);
       assert_that (list_all (\<lambda>i. back ! i = pt ! i) [0..<len])
     }"

definition nib :: "char \<Rightarrow> u8 option" where
  "nib c =
     (let n = of_char c :: nat
      in if 48 \<le> n \<and> n \<le> 57 then Some (of_nat (n - 48))
         else if 97 \<le> n \<and> n \<le> 102 then Some (of_nat (n - 97 + 10))
         else None)"

text \<open>\<open>hex32\<close> and \<open>hex16\<close> differ in the number of bytes.\<close>

fun hex_bytes :: "nat \<Rightarrow> string \<Rightarrow> bytes option" where
  "hex_bytes 0 s = Some []"
| "hex_bytes (Suc n) (a # b # s) =
     do {
       hi \<leftarrow> nib a;
       lo \<leftarrow> nib b;
       rest \<leftarrow> hex_bytes n s;
       Some ((push_bit 4 hi OR lo) # rest)
     }"
| "hex_bytes (Suc n) _ = None"

definition hchacha20_matches_draft_vector :: "unit option" where
  "hchacha20_matches_draft_vector =
     do {
       key \<leftarrow> hex_bytes 32 ''000102030405060708090a0b0c0d0e0f101112131415161718191a1b1c1d1e1f'';
       nonce \<leftarrow> hex_bytes 16 ''000000090000004a0000000031415927'';
       want \<leftarrow> hex_bytes 32 ''82413b4227b27bfed30e42508a877d73a0f9e4d58a74a853c12ec41326d3ecdc'';
       assert_that (hchacha20_into key nonce = want)
     }"

subsection \<open>The length limits\<close>

definition check_lengths_boundary_is_exact :: "u64 \<Rightarrow> u64 \<Rightarrow> unit option" where
  "check_lengths_boundary_is_exact msg_len aad_len =
     (let r = check_lengths (unat msg_len) (unat aad_len);
          msg_over = MAX_MSG_SIZE < unat msg_len;
          aad_over = MAX_MSG_SIZE < unat aad_len
      in if msg_over then assert_that (r = Inl MessageTooLong)
         else if aad_over then assert_that (r = Inl AadTooLong)
         else assert_that (r = Inr ()))"

definition max_msg_size_fits_in_the_block_counter :: "unit option" where
  "max_msg_size_fits_in_the_block_counter =
     do {
       let capacity = (ucast (- 1 :: u32) :: u64) + 1;
       let blocks = of_nat MAX_MSG_SIZE div of_nat CHACHA20_BLOCK;
       let remainder = (of_nat MAX_MSG_SIZE :: u64) mod of_nat CHACHA20_BLOCK;
       assert_that (blocks \<le> capacity);
       assert_that (remainder = 0);
       assert_that (blocks = capacity)
     }"

definition max_msg_size_boundary_matches_counter_capacity :: "unit option" where
  "max_msg_size_boundary_matches_counter_capacity =
     do {
       let blocks = (ucast (- 1 :: u32) :: u64) + 1;
       let at_limit = unat (blocks * of_nat CHACHA20_BLOCK);
       let over_limit = at_limit + CHACHA20_BLOCK;
       assert_that (check_lengths at_limit 0 = Inr ());
       assert_that (check_lengths over_limit 0 = Inl MessageTooLong);
       assert_that (check_lengths 0 over_limit = Inl AadTooLong)
     }"

subsection \<open>The tag\<close>

text \<open>The exclusive ors of the first \<open>n\<close> bytes, gathered with \<open>|=\<close>.\<close>

definition moved :: "nat \<Rightarrow> bytes \<Rightarrow> bytes \<Rightarrow> u8" where
  "moved n a b = fold (\<lambda>(x, y) d. d OR (x XOR y)) (zip (take n a) (take n b)) 0"

definition tag_is_keyed_hash_of_the_whole_context :: "allocator \<Rightarrow> bytes \<Rightarrow> bytes \<Rightarrow> bytes \<Rightarrow> unit option" where
  "tag_is_keyed_hash_of_the_whole_context al k_in k_out nonce =
     do {
       let aad = [0x61, 0x61, 0x64, 0x21];
       let msg = [0x6D, 0x65, 0x73, 0x73, 0x61, 0x67, 0x65, 0x21];
       let calls = 0;
       (_, calls) \<leftarrow> derive_tag_via model_blake3_keyed_multi al 0 k_in k_out nonce [] [] calls;
       (_, calls) \<leftarrow> derive_tag_via model_blake3_keyed_multi al 0 k_in k_out nonce aad msg calls;
       (_, calls) \<leftarrow> derive_tag_via model_blake3_keyed_multi al 0 k_in k_out nonce aad [] calls;
       (_, calls) \<leftarrow> derive_tag_via model_blake3_keyed_multi al 0 k_in k_out nonce [] msg calls;
       assert_that (8 \<le> calls)
     }"

text \<open>\<open>assert_tag_matches_model!\<close>: the documented input, rebuilt, through the model.\<close>

definition assert_tag_matches_model :: "allocator \<Rightarrow> bytes \<Rightarrow> bytes \<Rightarrow> bytes \<Rightarrow> bytes \<Rightarrow> bytes \<Rightarrow> unit option" where
  "assert_tag_matches_model al k_in k_out nonce aad msg =
     do {
       (got, calls) \<leftarrow> derive_tag_via model_blake3_keyed_multi al 0 k_in k_out nonce aad msg 0;
       let head = replicate HEAD_LEN 0;
       let head = put_slice 0 DOM_PRE head;
       let head = put_slice 8 nonce head;
       let head = put_slice (8 + NONCE_LEN) (u64_bytes (of_nat (length aad))) head;
       let head = put_slice (16 + NONCE_LEN) (u64_bytes (of_nat (length msg))) head;
       (x, calls) \<leftarrow> model_blake3_keyed_multi k_in [head, aad, msg] 32 calls;
       let outer = put_slice 8 x (put_slice 0 DOM_TAG (replicate OUTER_LEN 0));
       (want, calls) \<leftarrow> model_blake3_keyed_multi k_out [outer] TAG_LEN calls;
       assert_that (moved TAG_LEN got want = 0)
     }"

definition TAG_TEST_NONCE :: bytes where
  "TAG_TEST_NONCE = [0x33, 0x34, 0x35, 0x36, 0x37, 0x38, 0x39, 0x3a, 0x3b, 0x3c, 0x3d, 0x3e, 0x3f, 0x40, 0x41, 0x42,
     0x43, 0x44, 0x45, 0x46, 0x47, 0x48, 0x49, 0x4a]"

definition witness_keyed_multi :: "unit keyed_hash" where
  "witness_keyed_multi key parts n s =
     do {
       hasher \<leftarrow> w_updates (w_new_keyed key) parts;
       Some (w_finalize_xof hasher n, s)
     }"

definition tag_matches_the_independent_witness_on_a_concrete_input :: "allocator \<Rightarrow> unit option" where
  "tag_matches_the_independent_witness_on_a_concrete_input al =
     do {
       let k_in = replicate 32 0x11;
       let k_out = replicate 32 0x22;
       (got, _) \<leftarrow> derive_tag_via witness_keyed_multi al 0 k_in k_out TAG_TEST_NONCE [0x61] [0x6D] ();
       (want, _) \<leftarrow> w_tag k_in k_out TAG_TEST_NONCE [0x61] [0x6D];
       assert_that (moved TAG_LEN got want = 0)
     }"

definition tag_changes_when_the_key_changes ::
  "allocator \<Rightarrow> bytes \<Rightarrow> bytes \<Rightarrow> bytes \<Rightarrow> nat \<Rightarrow> nat \<Rightarrow> unit option"
where
  "tag_changes_when_the_key_changes al k_in k_out nonce pos_in pos_out =
     do {
       let aad = [0x61, 0x61, 0x64];
       let msg = [0x6D, 0x73, 0x67];
       (tag, calls) \<leftarrow> derive_tag_via model_blake3_keyed_multi al 0 k_in k_out nonce aad msg 0;
       (if \<not> pos_in < 32 then Some () else do {
          let k_in2 = k_in[pos_in := k_in ! pos_in XOR 0xff];
          (tag_in, calls) \<leftarrow> derive_tag_via model_blake3_keyed_multi al 0 k_in2 k_out nonce aad msg calls;
          (if \<not> pos_out < 32 then Some () else do {
             let k_out2 = k_out[pos_out := k_out ! pos_out XOR 0xff];
             (tag_out, calls) \<leftarrow> derive_tag_via model_blake3_keyed_multi al 0 k_in k_out2 nonce aad msg calls;
             assert_that (moved TAG_LEN tag tag_in \<noteq> 0);
             assert_that (moved TAG_LEN tag tag_out \<noteq> 0)
          })
       })
     }"

definition derive_enc_reads_every_tag_byte :: "bytes \<Rightarrow> nat \<Rightarrow> bytes \<Rightarrow> unit option" where
  "derive_enc_reads_every_tag_byte enc_seed pos tag =
     (if \<not> pos < TAG_LEN then Some () else do {
        let perturbed = tag[pos := tag ! pos XOR 0xff];
        ((k1, n1), calls) \<leftarrow> derive_enc_via model_blake3_keyed_multi enc_seed tag 0;
        ((k2, n2), calls) \<leftarrow> derive_enc_via model_blake3_keyed_multi enc_seed perturbed calls;
        assert_that (moved 32 k1 k2 OR moved 12 n1 n2 \<noteq> 0)
      })"

definition derive_enc_matches_the_model_on_a_concrete_input :: "unit option" where
  "derive_enc_matches_the_model_on_a_concrete_input =
     do {
       let enc_seed = replicate 32 0x5A;
       let tag = map (\<lambda>i. of_nat i * 7 + 3) [0..<TAG_LEN];
       ((k, n), calls) \<leftarrow> derive_enc_via model_blake3_keyed_multi enc_seed tag 0;
       let inp = put_slice 8 tag (put_slice 0 DOM_ENC (replicate (8 + TAG_LEN) 0));
       (want, calls) \<leftarrow> model_blake3_keyed_multi enc_seed [inp] 44 calls;
       assert_that (moved 32 k want OR moved 12 n (drop 32 want) = 0)
     }"

definition every_aad_and_message_byte_reaches_the_tag ::
  "allocator \<Rightarrow> bytes \<Rightarrow> bytes \<Rightarrow> bytes \<Rightarrow> bytes \<Rightarrow> bytes \<Rightarrow> nat \<Rightarrow> u8 \<Rightarrow> unit option"
where
  "every_aad_and_message_byte_reaches_the_tag al k_in k_out nonce aad msg pos delta =
     (if \<not> (pos < 4 \<and> delta \<noteq> 0) then Some () else do {
        (tag, calls) \<leftarrow> derive_tag_via model_blake3_keyed_multi al 0 k_in k_out nonce aad msg 0;
        let aad2 = aad[pos := aad ! pos XOR delta];
        (tag_aad, calls) \<leftarrow> derive_tag_via model_blake3_keyed_multi al 0 k_in k_out nonce aad2 msg calls;
        let msg2 = msg[pos := msg ! pos XOR delta];
        (tag_msg, calls) \<leftarrow> derive_tag_via model_blake3_keyed_multi al 0 k_in k_out nonce aad msg2 calls;
        assert_that (moved TAG_LEN tag tag_aad \<noteq> 0);
        assert_that (moved TAG_LEN tag tag_msg \<noteq> 0)
      })"

subsection \<open>Every harness succeeds\<close>

lemma moved_0: "length a = n \<Longrightarrow> length b = n \<Longrightarrow> moved n a b = 0 \<longleftrightarrow> a = b"
  by (auto simp: moved_def fold_or_xor_eq_0 list_eq_iff_zip_eq)

lemma differ_at_neq: "differ_at p xs ys \<Longrightarrow> xs \<noteq> ys"
  by (auto simp: differ_at_def)

lemma differ_moved: "\<exists>q. differ_at q a b \<Longrightarrow> length a = n \<Longrightarrow> moved n a b \<noteq> 0"
  using moved_0 [of a n b] by (auto simp: differ_at_def)

lemma length_model_tag [simp]: "length (model_tag k_in k_out nonce aad msg) = TAG_LEN"
  by (simp add: model_tag_def)

lemma flip_differs:
  assumes "p < length xs" "d \<noteq> 0"
  shows "differ_at p xs (xs[p := xs ! p XOR d])"
proof (rule differ_at_update [OF assms(1)])
  show "xs ! p XOR d \<noteq> xs ! p" using assms(2) xor_cancel(1) [of "xs ! p" d 0] by simp
qed

lemma zeroize_slice_harness: "ptr + 25 \<le> 2 ^ 64 \<Longrightarrow> zeroize_slice_clears_all_bytes n any ptr m = Some ()"
proof -
  assume p: "ptr + 25 \<le> 2 ^ 64"
  have "unat (n mod 26) < 26" by (simp add: unat_mod)
  then have "ptr + length (map any [0..<unat (n mod 26)]) \<le> 2 ^ 64" using p by simp
  from zeroize_slice_ok [OF this] show ?thesis by (simp add: zeroize_slice_clears_all_bytes_def wiped_def list_all_iff)
qed

lemma wiped_all: "list_all (\<lambda>b. b = 0) (wiped xs)"
  by (simp add: wiped_def list_all_iff)

lemma all_zero_words: "list_all (\<lambda>w :: u32. w = 0) (replicate n 0)"
  by (simp add: list_all_iff)

lemma zeroize_array_harness:
  assumes "ptr + 65 \<le> 2 ^ 64" "length a12 = 12" "length a32 = 32" "length a44 = 44" "length a65 = 65" "length words = 16"
  shows "zeroize_array_clears_all_bytes ptr a12 a32 a44 a65 words m = Some ()"
proof -
  have "wiped (words_bytes words) = words_bytes (replicate 16 0)"
    using assms(6) by (simp add: wiped_def words_bytes_zero)
  then have w: "le_words 16 (wiped (words_bytes words)) = replicate 16 0" by simp
  show ?thesis
    using assms by (simp add: zeroize_array_clears_all_bytes_def zeroize_slice_ok zeroize_words_def wiped_all w all_zero_words)
qed

lemma unaligned_window_harness:
  assumes "ptr + 16 \<le> 2 ^ 64"
  shows "zeroize_slice_clears_unaligned_window a b ptr m = Some ()"
proof -
  let ?backing = "replicate 16 0xAA :: bytes"
  let ?m = "load_slice ptr ?backing m"
  define off len where "off = unat (a mod 8)" and "len = unat (b mod 16)"
  show ?thesis
  proof (cases "off + len \<le> 16")
    case True
    have sub: "length (subslice off (off + len) ?backing) = len" using True by simp
    have fits: "(ptr + off) + length (subslice off (off + len) ?backing) \<le> 2 ^ 64" using True assms unfolding sub by simp
    have z: "zeroize_slice (ptr + off) (subslice off (off + len) ?backing) ?m
        = Some (wiped (subslice off (off + len) ?backing), zeroed (ptr + off) len ?m)"
      using zeroize_slice_ok [OF fits] unfolding sub .
    have read: "read_slice ptr 16 (zeroed (ptr + off) len ?m) ! i = (if off \<le> i \<and> i < off + len then 0 else 0xAA)" if "i < 16" for i
      using that by (simp add: read_slice_def zeroed_def load_slice_def)
    show ?thesis
      using True z read
      by (simp add: zeroize_slice_clears_unaligned_window_def Let_def list_all_iff flip: off_def len_def)
  qed (simp add: zeroize_slice_clears_unaligned_window_def Let_def flip: off_def len_def)
qed

lemma draft_vector_harness: "hchacha20_matches_draft_vector = Some ()"
proof -
  have key: "hex_bytes 32 ''000102030405060708090a0b0c0d0e0f101112131415161718191a1b1c1d1e1f'' =
      Some [0, 1, 2, 3, 4, 5, 6, 7, 8, 9, 10, 11, 12, 13, 14, 15, 16, 17, 18, 19, 20, 21, 22, 23, 24, 25, 26, 27, 28, 29, 30, 31]"
    by code_simp
  have nonce: "hex_bytes 16 ''000000090000004a0000000031415927'' = Some [0, 0, 0, 9, 0, 0, 0, 0x4a, 0, 0, 0, 0, 0x31, 0x41, 0x59, 0x27]"
    by code_simp
  have want: "hex_bytes 32 ''82413b4227b27bfed30e42508a877d73a0f9e4d58a74a853c12ec41326d3ecdc'' =
      Some (concat (map u32_bytes [0x423b4182, 0xfe7bb227, 0x50420ed3, 0x737d878a, 0xd5e4f9a0, 0x53a8748a, 0x13c42ec1, 0xdcecd326]))"
    by code_simp
  have words: "CHACHA_CONST = [0x61707865, 0x3320646e, 0x79622d32, 0x6b206574]"
    "le_word [0, 1, 2, 3 :: u8] = (0x03020100 :: u32)" "le_word [4, 5, 6, 7 :: u8] = (0x07060504 :: u32)"
    "le_word [8, 9, 10, 11 :: u8] = (0x0b0a0908 :: u32)" "le_word [12, 13, 14, 15 :: u8] = (0x0f0e0d0c :: u32)"
    "le_word [16, 17, 18, 19 :: u8] = (0x13121110 :: u32)" "le_word [20, 21, 22, 23 :: u8] = (0x17161514 :: u32)"
    "le_word [24, 25, 26, 27 :: u8] = (0x1b1a1918 :: u32)" "le_word [28, 29, 30, 31 :: u8] = (0x1f1e1d1c :: u32)"
    "le_word [0, 0, 0, 9 :: u8] = (0x09000000 :: u32)" "le_word [0, 0, 0, 0x4a :: u8] = (0x4a000000 :: u32)"
    "le_word [0, 0, 0, 0 :: u8] = (0 :: u32)" "le_word [0x31, 0x41, 0x59, 0x27 :: u8] = (0x27594131 :: u32)"
    by (simp add: CHACHA_CONST_def) code_simp+
  show ?thesis
    unfolding hchacha20_matches_draft_vector_def key nonce want bind.bind_lunit Let_def hchacha20_into_def words
    by (simp add: draft_rounds)
qed


lemma check_lengths_harness: "check_lengths_boundary_is_exact msg_len aad_len = Some ()"
  unfolding check_lengths_boundary_is_exact_def check_lengths_def Let_def
  by (cases "MAX_MSG_SIZE < unat msg_len"; cases "MAX_MSG_SIZE < unat aad_len") (simp_all only: if_True if_False assert_that_simps simp_thms)

lemma capacity: "(ucast (- 1 :: u32) :: u64) = 0xFFFFFFFF"
  by code_simp

lemma max_msg_size_harnesses:
  "max_msg_size_fits_in_the_block_counter = Some ()" "max_msg_size_boundary_matches_counter_capacity = Some ()"
  by (simp_all add: max_msg_size_fits_in_the_block_counter_def max_msg_size_boundary_matches_counter_capacity_def
      MAX_MSG_SIZE_def CHACHA20_BLOCK_def check_lengths_def Let_def capacity)

subsubsection \<open>The stream\<close>

lemma length_stub: "length key = 32 \<Longrightarrow> length nonce = 12 \<Longrightarrow> length (stub_chacha20_block_into key c nonce) = 64"
  by (simp add: stub_chacha20_block_into_def)

lemma take_put_slice: "n \<le> off \<Longrightarrow> off \<le> length dst \<Longrightarrow> take n (put_slice off src dst) = take n dst"
  by (simp add: put_slice_def)

lemma loop_keystream:
  assumes "length done = off" "length (block ctr) = 64" "64 \<le> length todo" "n = off + length todo"
  shows "apply_loop block 64 1 Keystream n ctr off (done @ todo)
    = apply_loop block 64 1 Keystream n (ctr + 1) (off + 64) ((done @ block ctr) @ drop 64 todo)"
proof -
  have "xor_or_copy Keystream (done @ todo) off (block ctr) = Some ((done @ block ctr) @ drop 64 todo)"
    using assms by (simp add: xor_or_copy_def put_slice_def)
  then show ?thesis using assms by (subst apply_loop.simps) simp
qed

lemma loop_stops: "n < off + 64 \<Longrightarrow> apply_loop block 64 1 inp n ctr off buf = Some (ctr, off, buf)"
  by (subst apply_loop.simps) simp

lemma keystream_200:
  assumes "\<And>c. length (block c) = 64"
  shows "apply_via block c Keystream (replicate 200 0) = Some (block c @ block (c + 1) @ block (c + 2) @ take 8 (block (c + 3)))"
proof -
  have "apply_loop block 64 1 Keystream 200 c 0 (replicate 200 0)
      = apply_loop block 64 1 Keystream 200 (c + 1) 64 (block c @ replicate 136 0)"
    using loop_keystream [of "[]" 0 block c "replicate 200 0" 200] assms by simp
  also have "\<dots> = apply_loop block 64 1 Keystream 200 (c + 2) 128 ((block c @ block (c + 1)) @ replicate 72 0)"
    using loop_keystream [of "block c" 64 block "c + 1" "replicate 136 0" 200] assms by (simp add: add.assoc)
  also have "\<dots> = apply_loop block 64 1 Keystream 200 (c + 3) 192 ((block c @ block (c + 1) @ block (c + 2)) @ replicate 8 0)"
    using loop_keystream [of "block c @ block (c + 1)" 128 block "c + 2" "replicate 72 0" 200] assms by (simp add: add.assoc)
  also have "\<dots> = Some (c + 3, 192, (block c @ block (c + 1) @ block (c + 2)) @ replicate 8 0)" by (rule loop_stops) simp
  finally show ?thesis using assms by (simp add: apply_via_def CHACHA20_BLOCK_def xor_or_copy_def put_slice_def)
qed

lemma keystream_66:
  assumes "\<And>c. length (block c) = 64" "length src = 66"
  shows "apply_via block c (Separate src) (replicate 66 0)
    = Some (xor_bytes (take 64 src) (block c) @ xor_bytes (drop 64 src) (take 2 (block (c + 1))))"
proof -
  have "apply_loop block 64 1 (Separate src) 66 c 0 (replicate 66 0)
      = apply_loop block 64 1 (Separate src) 66 (c + 1) 64 (xor_bytes (take 64 src) (block c) @ replicate 2 0)"
    using assms by (subst apply_loop.simps) (simp add: xor_or_copy_def put_slice_def subslice_def)
  also have "\<dots> = Some (c + 1, 64, xor_bytes (take 64 src) (block c) @ replicate 2 0)" by (rule loop_stops) simp
  finally show ?thesis
    using assms by (simp add: apply_via_def CHACHA20_BLOCK_def xor_or_copy_def put_slice_def subslice_def)
qed

lemma stub_counter: "length key = 32 \<Longrightarrow> length nonce = 12 \<Longrightarrow> le_word (take 4 (stub_chacha20_block_into key c nonce)) = c"
proof -
  have "take 4 (put_slice 0 (u32_bytes c) out) = u32_bytes c" for out by (simp add: put_slice_def)
  then show "length key = 32 \<Longrightarrow> length nonce = 12 \<Longrightarrow> le_word (take 4 (stub_chacha20_block_into key c nonce)) = c"
    by (simp add: stub_chacha20_block_into_def Let_def take_put_slice)
qed

lemma sequencing_harness: "chacha20_counter_sequencing_is_exact = Some ()"
proof -
  define stub where "stub = (\<lambda>c. stub_chacha20_block_into (replicate 32 0x5A) c (replicate 12 0xA5))"
  have len: "length (stub c) = 64" and word: "le_word (take 4 (stub c)) = c" for c
    by (simp_all add: stub_def stub_counter length_stub)
  have tail: "take 4 (take 8 (stub c)) = take 4 (stub c)" for c by (simp add: min_def)
  have upt: "[0..<3] = [0, 1, 2 :: nat]" by (simp add: upt_rec)
  show ?thesis
    unfolding chacha20_counter_sequencing_is_exact_def Let_def stub_def [symmetric]
    by (simp add: keystream_200 [of stub, OF len] subslice_def len word upt)
qed

lemma involution_harness: "chacha20_keystream_involution_partial_blocks any = Some ()"
proof -
  define stub where "stub = (\<lambda>c. stub_chacha20_block_into (replicate 32 0x5A) c (replicate 12 0xA5))"
  define pt where "pt = map any [0..<66]"
  define ct where "ct = xor_bytes (take 64 pt) (stub 0x11223344) @ xor_bytes (drop 64 pt) (take 2 (stub 0x11223345))"
  have len: "length (stub c) = 64" for c by (simp add: stub_def length_stub)
  have pt: "length pt = 66" by (simp add: pt_def)
  have ct: "length ct = 66" by (simp add: ct_def pt len)
  have byte: "ct ! i = pt ! i XOR stub (0x11223344 + of_nat (i div 64)) ! (i mod 64)" if "i < 66" for i
  proof (cases "i < 64")
    case True
    then show ?thesis using pt len by (simp add: ct_def nth_append nth_xor_bytes)
  next
    case False
    then obtain j where j: "i = 64 + j" by (metis le_Suc_ex not_less)
    then have jl: "j < 2" using that by simp
    then have "i div 64 = 1" unfolding j by (simp add: div_add_self1)
    then show ?thesis using j jl pt len by (simp add: ct_def nth_append nth_xor_bytes)
  qed
  have undone: "xor_bytes (take 64 ct) (stub 0x11223344) @ xor_bytes (drop 64 ct) (take 2 (stub 0x11223345)) = pt"
    using pt len by (simp add: ct_def xor_bytes_cancel)
  show ?thesis
    unfolding chacha20_keystream_involution_partial_blocks_def Let_def stub_def [symmetric] pt_def [symmetric]
    using byte undone keystream_66 [of stub pt "0x11223344", OF len pt] keystream_66 [of stub ct "0x11223344", OF len ct]
    by (simp add: ct_def [symmetric] list_all_iff) (simp add: stub_def)
qed


subsubsection \<open>The tag\<close>

lemma whole_context_harness:
  "length nonce = 24 \<Longrightarrow> tag_is_keyed_hash_of_the_whole_context al k_in k_out nonce = Some ()"
  by (simp add: tag_is_keyed_hash_of_the_whole_context_def tag_via_model)

lemma documented_head:
  "length nonce = 24 \<Longrightarrow>
   put_slice (16 + NONCE_LEN) (u64_bytes (of_nat (length msg)))
     (put_slice (8 + NONCE_LEN) (u64_bytes (of_nat (length aad))) (put_slice 8 nonce (put_slice 0 DOM_PRE (replicate HEAD_LEN 0))))
   = tag_head nonce aad msg"
  by (simp only: tag_head_def Let_def HEAD_LEN_def)

lemma matches_model_harness:
  assumes "length nonce = 24"
  shows "assert_tag_matches_model al k_in k_out nonce aad msg = Some ()"
proof -
  let ?X = "model_out k_in (spec_head nonce aad msg) 32"
  have head: "tag_head nonce aad msg @ aad @ msg = spec_head nonce aad msg" using tag_head_eq [OF assms, of aad msg] by simp
  have inner: "model_blake3_keyed_multi k_in [tag_head nonce aad msg, aad, msg] 32 calls = Some (?X, calls + 1)" for calls
    using model_eq [OF shape_three [OF assms]] head by simp
  have outer: "model_blake3_keyed_multi k_out [put_slice 8 ?X (put_slice 0 DOM_TAG (replicate OUTER_LEN 0))] TAG_LEN calls
      = Some (model_tag k_in k_out nonce aad msg, calls + 1)" for calls
    unfolding OUTER_LEN_def outer_input [OF length_model_out]
    using model_eq [OF shape_outer [OF length_model_out]] by (simp add: model_tag_def)
  show ?thesis
    unfolding assert_tag_matches_model_def Let_def documented_head [OF assms] tag_via_model [OF assms] bind.bind_lunit
      prod.case inner outer by (simp add: moved_0)
qed

lemma key_harness:
  assumes "length k_in = 32" "length k_out = 32" "length nonce = 24"
  shows "tag_changes_when_the_key_changes al k_in k_out nonce pos_in pos_out = Some ()"
proof -
  have "moved TAG_LEN (model_tag k_in k_out nonce a m) (model_tag (k_in[pos_in := k_in ! pos_in XOR 0xff]) k_out nonce a m) \<noteq> 0"
    if "pos_in < 32" for a m
    using k_in_edit [OF flip_differs] assms(1) that by (intro differ_moved) simp_all
  moreover have "moved TAG_LEN (model_tag k_in k_out nonce a m) (model_tag k_in (k_out[pos_out := k_out ! pos_out XOR 0xff]) nonce a m) \<noteq> 0"
    if "pos_out < 32" for a m
    using k_out_edit [OF flip_differs] assms(2) that by (intro differ_moved) simp_all
  ultimately show ?thesis by (simp add: tag_changes_when_the_key_changes_def tag_via_model [OF assms(3)] Let_def)
qed

lemma input_harness:
  assumes "length nonce = 24" "length aad = 4" "length msg = 4"
  shows "every_aad_and_message_byte_reaches_the_tag al k_in k_out nonce aad msg pos delta = Some ()"
proof -
  have "moved TAG_LEN (model_tag k_in k_out nonce aad msg) (model_tag k_in k_out nonce (aad[pos := aad ! pos XOR delta]) msg) \<noteq> 0"
    if "pos < 4" "delta \<noteq> 0"
    using aad_edit [OF flip_differs] assms(2) that by (intro differ_moved) simp_all
  moreover have "moved TAG_LEN (model_tag k_in k_out nonce aad msg) (model_tag k_in k_out nonce aad (msg[pos := msg ! pos XOR delta])) \<noteq> 0"
    if "pos < 4" "delta \<noteq> 0"
    using msg_edit [OF flip_differs] assms(3) that by (intro differ_moved) simp_all
  ultimately show ?thesis by (simp add: every_aad_and_message_byte_reaches_the_tag_def tag_via_model [OF assms(1)] Let_def)
qed

lemma halves_moved:
  assumes "length a = 44" "length b = 44"
  shows "moved 32 (subslice 0 32 a) (subslice 0 32 b) OR moved 12 (subslice 32 44 a) (subslice 32 44 b) = 0 \<longleftrightarrow> a = b"
proof -
  have "a = subslice 0 32 a @ subslice 32 44 a" "b = subslice 0 32 b @ subslice 32 44 b"
    using assms by (simp_all add: subslice_def)
  moreover have "length (subslice 0 32 a) = 32" "length (subslice 0 32 b) = 32" "length (subslice 32 44 a) = 12" "length (subslice 32 44 b) = 12"
    using assms by simp_all
  ultimately show ?thesis by (metis moved_0 word_or_eq_0_iff append_eq_append_conv)
qed

lemma enc_reads_harness:
  assumes "length tag = 65"
  shows "derive_enc_reads_every_tag_byte enc_seed pos tag = Some ()"
proof (cases "pos < TAG_LEN")
  case True
  let ?tag' = "tag[pos := tag ! pos XOR 0xff]"
  have "differ_at pos tag ?tag'" using True assms by (intro flip_differs) (simp_all add: TAG_LEN_def)
  then have "model_out enc_seed (DOM_ENC @ tag) 44 \<noteq> model_out enc_seed (DOM_ENC @ ?tag') 44"
    using enc_edit differ_at_neq by blast
  then show ?thesis
    using True assms halves_moved [of "model_out enc_seed (DOM_ENC @ tag) 44" "model_out enc_seed (DOM_ENC @ ?tag') 44"]
    by (simp add: derive_enc_reads_every_tag_byte_def enc_via_model Let_def)
qed (simp add: derive_enc_reads_every_tag_byte_def)

lemma enc_matches_harness: "derive_enc_matches_the_model_on_a_concrete_input = Some ()"
proof -
  define tag :: bytes where "tag = map (\<lambda>i. of_nat i * 7 + 3) [0..<TAG_LEN]"
  have tag: "length tag = 65" by (simp add: tag_def TAG_LEN_def)
  let ?want = "model_out (replicate 32 0x5A) (DOM_ENC @ tag) 44"
  have "moved 12 (subslice 32 44 ?want) (drop 32 ?want) = 0" "moved 32 (subslice 0 32 ?want) ?want = 0"
    by (auto simp: moved_def fold_or_xor_eq_0 subslice_def in_set_zip)
  then show ?thesis
    unfolding derive_enc_matches_the_model_on_a_concrete_input_def Let_def tag_def [symmetric] enc_via_model [OF tag]
      enc_input [OF tag] bind.bind_lunit prod.case model_eq [OF shape_enc [OF tag]]
    by simp
qed


lemma witness_seam:
  assumes "length key = 32" "length (concat parts) < 2 ^ 64"
  shows "witness_keyed_multi key parts n s = Some (keyed_stream key (concat parts) n, s)"
proof -
  obtain h where h: "w_updates (w_new_keyed key) parts = Some h" "w_finalize_xof h n = keyed_stream key (concat parts) n"
    using w_keyed_xof_into_ok [OF assms, of n]
    by (auto simp: w_keyed_xof_into_def w_keyed_xof_frame_def bind_eq_Some_conv)
  then show ?thesis by (simp add: witness_keyed_multi_def)
qed

lemma witness_harness: "tag_matches_the_independent_witness_on_a_concrete_input al = Some ()"
proof -
  let ?ki = "replicate 32 0x11 :: bytes" and ?ko = "replicate 32 0x22 :: bytes" and ?n = TAG_TEST_NONCE
  let ?head = "tag_head ?n [0x61] [0x6D]"
  have n: "length ?n = 24" by (simp add: TAG_TEST_NONCE_def)
  have head: "length ?head = 48" using n by (simp add: tag_head_parts)
  have none: "concat_window ?head [0x61] [0x6D] = None"
    by (simp add: concat_window_def checked_add_def head TAG_CONCAT_MIN_def)
  have spec: "?head @ [0x61] @ [0x6D] = spec_head ?n [0x61] [0x6D]" using tag_head_eq [OF n, of "[0x61]" "[0x6D]"] by simp
  have len: "length (spec_head ?n [0x61] [0x6D]) = 50" using n by (simp add: spec_head_def)
  have inner: "witness_keyed_multi ?ki [?head, [0x61], [0x6D]] 32 () = Some (keyed_stream ?ki (spec_head ?n [0x61] [0x6D]) 32, ())"
    using witness_seam [of ?ki "[?head, [0x61], [0x6D]]" 32 "()"] spec head by simp
  have outer: "witness_keyed_multi ?ko [put_slice 8 (keyed_stream ?ki (spec_head ?n [0x61] [0x6D]) 32) (put_slice 0 DOM_TAG (replicate (8 + 32) 0))] TAG_LEN ()
      = Some (spec_tag ?ki ?ko ?n [0x61] [0x6D], ())"
    unfolding outer_input [OF length_keyed_stream]
    using witness_seam [of ?ko "[DOM_TAG @ keyed_stream ?ki (spec_head ?n [0x61] [0x6D]) 32]" TAG_LEN "()"] by (simp add: spec_tag_def)
  have got: "derive_tag_via witness_keyed_multi al 0 ?ki ?ko ?n [0x61] [0x6D] () = Some (spec_tag ?ki ?ko ?n [0x61] [0x6D], ())"
    unfolding derive_tag_via_def Let_def none option.case inner bind.bind_lunit prod.case outer by (rule refl)
  obtain res where want: "w_tag ?ki ?ko ?n [0x61] [0x6D] = Some (spec_tag ?ki ?ko ?n [0x61] [0x6D], res)"
    using w_tag_ok [of ?ki ?ko ?n "[0x61]" "[0x6D]"] n by auto
  show ?thesis
    unfolding tag_matches_the_independent_witness_on_a_concrete_input_def Let_def got want bind.bind_lunit prod.case
    by (simp add: moved_0 length_spec_tag TAG_LEN_def)
qed

subsection \<open>Properties\<close>

text \<open>C38. No assertion of the nineteen harnesses can fail, for any symbolic input, allocator and address: not
  bounded by unwinding, the tag is the documented two-level construction for inputs of every length, a
  flipped byte of a key, of the associated data, of the message or of the tag reaches the output,
  every wipe clears exactly its bytes, and HChaCha20 returns the published vector.  With the real hash
  in place of the stub the derivations checked are those of the crate.\<close>

theorem kani_harnesses_succeed:
  assumes "length k_in = 32" "length k_out = 32" "length nonce = 24" "length aad4 = 4" "length msg4 = 4" "length tag = 65"
    and "length a12 = 12" "length a32 = 32" "length a44 = 44" "length a65 = 65" "length words = 16" "ptr + 65 \<le> 2 ^ 64"
  shows "zeroize_slice_clears_all_bytes n any ptr m = Some ()
    \<and> zeroize_array_clears_all_bytes ptr a12 a32 a44 a65 words m = Some ()
    \<and> zeroize_slice_clears_unaligned_window a b ptr m = Some ()
    \<and> chacha20_counter_sequencing_is_exact = Some ()
    \<and> chacha20_keystream_involution_partial_blocks any = Some ()
    \<and> hchacha20_matches_draft_vector = Some ()
    \<and> check_lengths_boundary_is_exact msg_len aad_len = Some ()
    \<and> max_msg_size_fits_in_the_block_counter = Some ()
    \<and> max_msg_size_boundary_matches_counter_capacity = Some ()
    \<and> tag_is_keyed_hash_of_the_whole_context al k_in k_out nonce = Some ()
    \<and> assert_tag_matches_model al k_in k_out nonce aad msg = Some ()
    \<and> tag_matches_the_independent_witness_on_a_concrete_input al = Some ()
    \<and> tag_changes_when_the_key_changes al k_in k_out nonce pos_in pos_out = Some ()
    \<and> derive_enc_reads_every_tag_byte enc_seed pos tag = Some ()
    \<and> derive_enc_matches_the_model_on_a_concrete_input = Some ()
    \<and> every_aad_and_message_byte_reaches_the_tag al k_in k_out nonce aad4 msg4 pos delta = Some ()
    \<and> map_option fst (derive_tag E k k_in k_out nonce aad msg)
        = map_option fst (derive_tag_via (real_hash E) (siv_alloc E) k k_in k_out nonce aad msg s)
    \<and> map_option fst (derive_enc E enc_seed tag) = map_option fst (derive_enc_via (real_hash E) enc_seed tag s)"
  using assms
  by (intro conjI zeroize_slice_harness zeroize_array_harness unaligned_window_harness sequencing_harness involution_harness
      draft_vector_harness check_lengths_harness max_msg_size_harnesses whole_context_harness matches_model_harness
      witness_harness key_harness enc_reads_harness enc_matches_harness input_harness derive_tag_seam derive_enc_seam) simp_all

theorem kani_harnesses_succeed_witness:
  "assert_tag_matches_model (\<lambda>_ _. True) (replicate 32 0x11) (replicate 32 0x22) TAG_TEST_NONCE [0x61, 0x61, 0x64, 0x21] [] = Some ()
    \<and> zeroize_slice_clears_unaligned_window 3 9 4096 (\<lambda>_. 7) = Some ()
    \<and> derive_enc_reads_every_tag_byte [] 44 (replicate 65 9) = Some ()"
proof -
  have n: "length TAG_TEST_NONCE = 24" by (simp add: TAG_TEST_NONCE_def)
  show ?thesis
    using kani_harnesses_succeed [where k_in = "replicate 32 0x11" and k_out = "replicate 32 0x22" and nonce = TAG_TEST_NONCE
        and ?aad4.0 = "replicate 4 0" and ?msg4.0 = "replicate 4 0" and tag = "replicate 65 9" and ?a12.0 = "replicate 12 0"
        and ?a32.0 = "replicate 32 0" and ?a44.0 = "replicate 44 0" and ?a65.0 = "replicate 65 0" and words = "replicate 16 0"
        and ptr = 4096 and m = "\<lambda>_. 7" and a = 3 and b = 9 and al = "\<lambda>_ _. True" and aad = "[0x61, 0x61, 0x64, 0x21]"
        and msg = "[]" and enc_seed = "[]" and pos = 44 and n = 0 and any = "\<lambda>_. 0" and msg_len = 0 and aad_len = 0 and pos_in = 0
        and pos_out = 0 and delta = 0 and E = "strict_env False False False (\<lambda>_ _. True)" and k = 0 and s = "()"] n
    by simp
qed

end
