(* ===== verification/Spec2Isabelle.thy ===== *)
theory Spec2Isabelle
  imports Siv_Api Locked_Key Key_Types Blake3_Pure Blake3_Reference Blake3_Subtree Blake3_Io Cpu_Detect Manifest_Check Build_Link Kani_Harnesses
begin

text \<open>
  This development models the Rust crate \<open>xchacha20-blake3-siv\<close> (\<open>src/\<close>): a nonce-misuse
  resistant, key-committing authenticated encryption scheme, together with the fork of BLAKE3
  that it carries (\<open>blake3/\<close>) and the second, independent implementation of the whole scheme
  that its \<open>ultra\<close> build compares itself with (\<open>src/witness.rs\<close>).

  \<^bold>\<open>The program.\<close>  The public entry points of \<open>src/lib.rs\<close> (\<open>encrypt\<close>,
  \<open>encrypt_in_place_detached\<close>, \<open>decrypt\<close>, \<open>decrypt_bounded\<close>, \<open>decrypt_in_place_detached\<close>)
  check lengths, derive key material with HChaCha20 and two ChaCha20 blocks
  (\<open>derive_material\<close>), compute a two-level keyed BLAKE3 tag over nonce, associated data and
  message (\<open>derive_tag\<close>), derive the encryption key from that tag (\<open>derive_enc\<close>) and apply the
  ChaCha20 key stream.  Decryption runs the key stream first, recomputes the tag and lets two
  comparisons decide (\<open>gates\<close>, \<open>accept_or_reject\<close>).  Features switch on further layers: \<open>hardened\<close>
  (a second comparison in two outcome slots), \<open>dual-mac\<close> (a recomputed tag), \<open>ultra\<close> (the witness),
  \<open>locked\<close> (keys in locked pages).  BLAKE3 calls its vector kernels through \<open>platform.rs\<close>; its
  incremental hasher (\<open>Hasher\<close>), its one-shot functions and its output reader share one tree.

  \<^bold>\<open>The theories.\<close>
    \<^item> \<open>Siv_Prelude\<close>: machine types, little-endian words, \<open>Option\<close>-monad helpers, clean buffers.
      \<open>Simd_Lanes\<close>: vector registers as lists of 32-bit lanes, with the intrinsics on them.
    \<^item> \<open>ChaCha\<close>, \<open>ChaCha_Simd\<close>, \<open>ChaCha_Stream\<close>: the ChaCha20 section of \<open>src/lib.rs\<close>: the scalar
      block function and HChaCha20; the SSE2, AVX2 and NEON block kernels on lists of lanes; the
      driver \<open>chacha20_apply\<close> that combines them.  Its lemmas show that every target computes the
      scalar key stream.  \<open>Cpu_Detect\<close>: \<open>has_avx2\<close>, whose answer the driver dispatches on: the CPUID
      decision, and the relaxed atomic cache as a step relation over any number of threads, with an
      invariant by rule induction.
    \<^item> \<open>Blake3_Compress\<close> (\<open>portable.rs\<close>), \<open>Blake3_Platform\<close> (\<open>platform.rs\<close>), \<open>Blake3_Chunk\<close>
      (\<open>ChunkState\<close>, \<open>Output\<close>), \<open>Blake3_Tree\<close> (the wide recursion of \<open>lib.rs\<close>, and the tree hash
      \<open>tree_output\<close> that is the specification), \<open>Blake3_Hasher\<close> (\<open>Hasher\<close>, \<open>OutputReader\<close>),
      \<open>Blake3_Api\<close> (hash modes, \<open>hazmat.rs\<close>, \<open>guts.rs\<close>, hexadecimal, seeking, wiping).  Each stage is
      shown equal to the specification for every platform that meets its contract.
      The invariant \<open>absorbed_from\<close> of \<open>Blake3_Hasher\<close> covers hashers that start inside the input;
      \<open>Blake3_Subtree\<close> draws from it that subtrees hashed on their own merge into the whole and that the
      misuses \<open>hazmat.rs\<close> documents panic.  \<open>Blake3_Io\<close>: \<open>io.rs\<close> and \<open>traits.rs\<close>, with readers and files as
      parameters; \<open>copy_wide\<close> is a \<open>partial_function\<close>, since a reader may interrupt it for ever, and is
      shown to return unless all reads are interrupted from some point on.
    \<^item> \<open>Blake3_Sse\<close> (compression of \<open>rust_sse2.rs\<close> and \<open>rust_sse41.rs\<close>), \<open>Blake3_Many\<close> (the transposed
      hashing of these files and of \<open>rust_avx2.rs\<close>), \<open>Blake3_Wasm\<close> (\<open>wasm32_simd.rs\<close>), \<open>Blake3_Pure\<close>: the
      kernels written in Rust.  A lane of the registers runs the scalar state (\<open>sim\<close>), so each kernel
      is the portable one, and a build from these files meets the contract \<open>kernels_ok\<close>.
      \<open>Blake3_Ffi\<close>: the bindings to the C and assembly kernels (\<open>ffi_sse2.rs\<close>, \<open>ffi_sse41.rs\<close>, \<open>ffi_avx2.rs\<close>,
      \<open>ffi_avx512.rs\<close>, \<open>ffi_neon.rs\<close>) over a byte memory, which carry the contract of the library
      (\<open>library_ok\<close>) to \<open>kernels_ok\<close>.
    \<^item> \<open>Witness_ChaCha\<close>, \<open>Witness_Blake3\<close>, \<open>Witness_Refines\<close>, \<open>Witness_Siv\<close>: \<open>src/witness.rs\<close>, the
      second implementation, its equality with the first and the wiping of its hasher.
    \<^item> \<open>Blake3_Reference\<close>: \<open>blake3/reference_impl/reference_impl.rs\<close>, simulated step by step by the BLAKE3 of
      the witness and so equal to the fork in the three modes.
    \<^item> \<open>Mem_Wipe\<close>: \<open>zeroize_raw\<close> over a byte memory, \<open>zeroize_slice\<close>, \<open>zeroize_array\<close>.
    \<^item> \<open>Siv_Kdf\<close>: derivations and the tag; the locale \<open>keyed_xof\<close> is the interface the scheme needs
      of a keyed hash, interpreted by the fork and by the witness.  \<open>Siv_Gates\<close>: the comparisons
      and the decision.  \<open>Siv_Api\<close>: the entry points and the specification
      \<open>siv_encrypt\<close>, \<open>siv_decrypt\<close> of the wire format.
    \<^item> \<open>Locked_Pages\<close>, \<open>Locked_Status\<close>, \<open>Locked_Key\<close>: the \<open>locked\<close> module: the requests to the kernel, the page size
      and \<open>VmLck\<close> parsers, and the life of a locked key.  \<open>Key_Types\<close>: \<open>Plaintext\<close>, \<open>Key\<close> and
      \<open>random\<close>.
    \<^item> \<open>Build_Manifest\<close>, \<open>Manifest_Data\<close>, \<open>Manifest_Check\<close>: \<open>build.rs\<close>, which reads \<open>Cargo.toml\<close> line by line;
      manifests as data (the fragment of TOML the repository's own is in) with their dependency edges; what the
      script decides on them, and texts outside the fragment on which it decides wrongly.  \<open>Build_Config\<close>, \<open>Build_Link\<close>:
      \<open>blake3/build.rs\<close>, which chooses the kernels, and the builds of \<open>Blake3_Platform\<close> that come out of it.
    \<^item> \<open>Draft_Vector\<close>, \<open>Kani_Seam\<close>, \<open>Kani_Harnesses\<close>: \<open>src/proofs.rs\<close>: the stubs, the nineteen harnesses as functions
      of their symbolic inputs, and that none of them can fail; the hash is an argument of the derivations
      there, as \<open>kani::stub\<close> makes it.
    \<^item> this theory: the properties that span components.

  \<^bold>\<open>State and effects.\<close>  Structs are records (\<open>chunk_state\<close>, \<open>hasher\<close>, \<open>output_reader\<close>, \<open>siv_env\<close>),
  buffers are lists, \<open>&mut\<close> arguments are returned.  \<open>None\<close> stands for a panic (an index out of
  range, a failed assertion, an exhausted counter) or undefined behaviour, and the theorems
  prove that a result is returned; errors are \<open>Inl\<close> of \<open>siv_error\<close>.  Entry points also return the
  key-dependent local buffers as they are left (\<open>clean\<close>: all zero), and thread the number of
  allocations made so far, so that the allocator may refuse any of them.  \<open>siv_env\<close> holds what a
  build fixes: features, target, BLAKE3 platform and allocator; \<open>env_ok\<close> asks only that
  the platform's kernels meet their contract and that the features are those \<open>Cargo.toml\<close> permits.

  \<^bold>\<open>Bounds.\<close>  \<open>usize\<close> has 64 bits; \<open>MAX_MSG_SIZE\<close> is that of the source, a vector allocation is at
  most \<open>isize_max\<close> bytes, and BLAKE3 inputs stay below \<open>2 ^ 64\<close> bytes, the limit of the
  source's chunk counter.  All loops are total recursions (lexicographic or explicit measures)
  except \<open>copy_wide\<close>, which a reader may interrupt for ever; where the source bounds what the kernel may
  make it repeat, the model does so too.  No fuel is used.
\<close>

text \<open>
  \<^bold>\<open>Parameters.\<close>  Code outside the repository, or written in C or assembly, is an
  argument: the vector kernels behind \<open>platform.rs\<close> (\<open>kernels_ok\<close>: each returns what \<open>portable.rs\<close>
  returns; proved in \<open>Blake3_Pure\<close> for those written in Rust, and in \<open>Blake3_Ffi\<close> for those in C and
  assembly from \<open>library_ok\<close>, what the C header promises of them), the global allocator (any function of the request), the operating system's random source, the kernel of the operating system behind the raw system calls, readers, files and memory maps, the
  features of the processor, and the environment and C toolchain of the build scripts.  Every theorem with
  such a hypothesis has a witness on concrete functions.

  \<^bold>\<open>Not modelled.\<close>  Timing, caches and the compiler's freedom to keep copies (\<open>black_box\<close>,
  \<open>scrub_stack\<close>, register wipes) have no values a functional model could state.  The C and
  assembly kernels of the fork are parameters (\<open>c_library\<close>).  \<open>join.rs\<close> pairs the results of two
  calls, and its parallel form is the \<open>rayon\<close> crate.  Formatting (\<open>Display\<close>, \<open>Debug\<close>) is left out.  Tests, benches and fuzz targets are not part of the program.
\<close>

section \<open>Properties of the scheme\<close>

definition generous :: "siv_env \<Rightarrow> bool" where
  "generous E \<longleftrightarrow> (\<forall>k n. siv_alloc E k n)"

lemma alloc_generous:
  assumes "generous E" "n \<le> MAX_MSG_SIZE"
  shows "\<exists>k'. alloc_zeroed E k n = (Inr (replicate n 0), k')"
proof -
  have "n \<le> isize_max" using assms(2) by (simp add: MAX_MSG_SIZE_def isize_max_def)
  then have "fst (try_reserve_exact (siv_alloc E) k n)"
    using assms(1) try_reserve_exact_generous [of "siv_alloc E" n k] by (simp add: generous_def)
  then show ?thesis by (cases "try_reserve_exact (siv_alloc E) k n") (auto simp: alloc_zeroed_def)
qed

lemma generous_strict [simp]: "generous (strict_env hard dual ult (\<lambda>k n. True))"
  by (simp add: generous_def)

lemma fits_length: "length c = length msg \<Longrightarrow> fits msg aad \<Longrightarrow> fits c aad"
  by (simp add: fits_def)

lemma generous_decrypt:
  assumes "env_ok E" "generous E" "sized key nonce" "fits c aad" "length tag = 65"
  shows "\<exists>res k'. decrypt E k key nonce aad c tag
    = Some (case siv_decrypt key nonce aad c tag of None \<Rightarrow> Inl AuthenticationFailed | Some m \<Rightarrow> Inr m, res, k') \<and> clean res"
proof -
  have n: "length c \<le> MAX_MSG_SIZE" using assms(4) by (simp add: fits_def)
  obtain k1 where k1: "alloc_zeroed E k (length c) = (Inr (replicate (length c) 0), k1)"
    using alloc_generous [OF assms(2) n] by blast
  obtain k2 where k2: "alloc_zeroed E k1 (length c) = (Inr (replicate (length c) 0), k2)"
    using alloc_generous [OF assms(2) n] by blast
  show ?thesis by (rule decrypt_ok [OF assms(1,3,4,5) k1 k2])
qed

lemma generous_encrypt:
  assumes "env_ok E" "generous E" "sized key nonce" "fits msg aad"
  shows "\<exists>res k'. encrypt E k key nonce aad msg = Some (Inr (siv_encrypt key nonce aad msg), res, k') \<and> clean res"
proof -
  have n: "length msg \<le> MAX_MSG_SIZE" using assms(4) by (simp add: fits_def)
  obtain k1 where k1: "alloc_zeroed E k (length msg) = (Inr (replicate (length msg) 0), k1)"
    using alloc_generous [OF assms(2) n] by blast
  show ?thesis by (rule encrypt_ok [OF assms(1,3,4) k1])
qed

text \<open>The two allocations the \<open>ultra\<close> build makes for the witness.\<close>

lemma two_allocations:
  obtains (granted) k1 k2 where "ultra E \<Longrightarrow> alloc_zeroed E k n = (Inr (replicate n 0), k1)"
      "ultra E \<Longrightarrow> alloc_zeroed E k1 n = (Inr (replicate n 0), k2)"
  | (first) k1 where "ultra E" "alloc_zeroed E k n = (Inl AllocationFailed, k1)"
  | (second) k1 k2 where "ultra E" "alloc_zeroed E k n = (Inr (replicate n 0), k1)"
      "alloc_zeroed E k1 n = (Inl AllocationFailed, k2)"
  by (metis alloc_zeroed_cases)

subsection \<open>Round trip and refinement\<close>

text \<open>C1. What one build encrypts, any other build decrypts: for every combination of cargo
  features, ChaCha20 target and BLAKE3 platform on either side, decrypting the ciphertext and tag
  under the same key, nonce and associated data returns the message.\<close>

theorem round_trip_across_builds:
  assumes "env_ok E" and "generous E" and "env_ok E'" and "generous E'"
    and "sized key nonce" and "fits msg aad"
  shows "(case encrypt E k key nonce aad msg of
      Some (Inr (c, tag), _) \<Rightarrow> map_option fst (decrypt E' k' key nonce aad c tag)
    | _ \<Rightarrow> None) = Some (Inr msg)"
proof -
  obtain c tag where e: "siv_encrypt key nonce aad msg = (c, tag)" by (metis prod.exhaust)
  then have "length c = length msg" "length tag = 65" by (auto simp: siv_encrypt_def Let_def)
  then have "map_option fst (decrypt E' k' key nonce aad c tag) = Some (Inr msg)"
    using generous_decrypt [OF assms(3,4,5), of c aad tag k'] fits_length [OF _ assms(6)] siv_decrypt_encrypt [OF e]
    by auto
  then show ?thesis
    using generous_encrypt [OF assms(1,2,5,6), of k] e by auto
qed

lemma round_trip_across_builds_witness:
  "(case encrypt (strict_env False False False (\<lambda>k n. True)) 0 (replicate 32 1) (replicate 24 2) [9] [10, 11, 12] of
      Some (Inr (c, tag), _) \<Rightarrow>
        map_option fst (decrypt (strict_env True True True (\<lambda>k n. True)) 5 (replicate 32 1) (replicate 24 2) [9] c tag)
    | _ \<Rightarrow> None) = Some (Inr [10, 11, 12])"
  by (rule round_trip_across_builds) (simp_all add: sized_def fits_def MAX_MSG_SIZE_def)

text \<open>C2. Decryption returns exactly the one message whose encryption under the same key, nonce and
  associated data is the given ciphertext and tag, and \<open>AuthenticationFailed\<close> when there is none:
  no altered ciphertext, tag, nonce or associated data is accepted unless it is itself an encryption.\<close>

theorem decrypt_inverts_encrypt:
  assumes "env_ok E" and "generous E" and "sized key nonce" and "fits c aad" and "length tag = 65"
  shows "\<exists>r. map_option fst (decrypt E k key nonce aad c tag) = Some r
    \<and> (\<forall>m. r = Inr m \<longleftrightarrow> siv_encrypt key nonce aad m = (c, tag))
    \<and> ((\<forall>m. siv_encrypt key nonce aad m \<noteq> (c, tag)) \<longleftrightarrow> r = Inl AuthenticationFailed)"
proof (cases "siv_decrypt key nonce aad c tag")
  case None
  then have "siv_encrypt key nonce aad m \<noteq> (c, tag)" for m using siv_decrypt_encrypt [of key nonce aad m c tag] by auto
  then show ?thesis using generous_decrypt [OF assms, of k] None by auto
next
  case (Some m)
  then have "siv_encrypt key nonce aad m' = (c, tag) \<longleftrightarrow> m' = m" for m'
    using siv_encrypt_decrypt [OF Some] siv_decrypt_encrypt [of key nonce aad m' c tag] by auto
  then show ?thesis using generous_decrypt [OF assms, of k] Some by auto
qed

lemma decrypt_inverts_encrypt_witness:
  "\<exists>r. map_option fst (decrypt (strict_env True True True (\<lambda>k n. True)) 0 (replicate 32 1) (replicate 24 2) [9] [1, 2] (replicate 65 0)) = Some r
    \<and> (\<forall>m. r = Inr m \<longleftrightarrow> siv_encrypt (replicate 32 1) (replicate 24 2) [9] m = ([1, 2], replicate 65 0))
    \<and> ((\<forall>m. siv_encrypt (replicate 32 1) (replicate 24 2) [9] m \<noteq> ([1, 2], replicate 65 0)) \<longleftrightarrow> r = Inl AuthenticationFailed)"
  by (rule decrypt_inverts_encrypt) (simp_all add: sized_def fits_def MAX_MSG_SIZE_def)

text \<open>C6. Every build computes the same wire format: with memory, the ciphertext and tag are those of
  the specification over HChaCha20, the ChaCha20 key stream and keyed BLAKE3 of whole inputs.\<close>

theorem encrypt_refines_specification:
  assumes "env_ok E" and "generous E" and "sized key nonce" and "fits msg aad"
  shows "map_option fst (encrypt E k key nonce aad msg) = Some (Inr (siv_encrypt key nonce aad msg))"
  using generous_encrypt [OF assms, of k] by auto

lemma encrypt_refines_specification_witness:
  "map_option fst (encrypt (strict_env True True False (\<lambda>k n. True)) 3 (replicate 32 1) (replicate 24 2) [] (replicate 3000 7))
    = Some (Inr (siv_encrypt (replicate 32 1) (replicate 24 2) [] (replicate 3000 7)))"
  by (rule encrypt_refines_specification) (simp_all add: sized_def fits_def MAX_MSG_SIZE_def)

text \<open>C16. The detached entry point and the allocating one agree: the buffer becomes the ciphertext and
  the tag is the same, with any allocator and any features on the in-place side.\<close>

theorem in_place_encryption_agrees:
  assumes "env_ok E" and "env_ok E'" and "generous E'" and "sized key nonce" and "fits msg aad"
  shows "map_option (\<lambda>(r, buffer, _). map_sum id (\<lambda>tag. (buffer, tag)) r) (encrypt_in_place_detached E k key nonce aad msg)
    = map_option fst (encrypt E' k' key nonce aad msg)"
  using encrypt_in_place_ok [OF assms(1,4,5), of k] generous_encrypt [OF assms(2-5), of k'] by auto

lemma in_place_encryption_agrees_witness:
  "map_option (\<lambda>(r, buffer, _). map_sum id (\<lambda>tag. (buffer, tag)) r)
      (encrypt_in_place_detached (strict_env False False False (\<lambda>k n. False)) 0 (replicate 32 1) (replicate 24 2) [3] [4, 5])
    = map_option fst (encrypt (strict_env True True True (\<lambda>k n. True)) 0 (replicate 32 1) (replicate 24 2) [3] [4, 5])"
  by (rule in_place_encryption_agrees) (simp_all add: sized_def fits_def MAX_MSG_SIZE_def)

subsection \<open>Failures\<close>

text \<open>C3. In-place decryption fails closed: whatever the lengths, the allocator and the input, it
  returns, its residue is clean, and the buffer holds either the authenticated plaintext (on success)
  or only zeros (on every error, refused lengths and refused allocations included).\<close>

theorem in_place_decryption_fails_closed:
  assumes "env_ok E" and "sized key nonce" and "length tag = 65"
  shows "\<exists>r buffer res k'. decrypt_in_place_detached E k key nonce aad c tag = Some (r, buffer, res, k') \<and> clean res
    \<and> (case r of Inl _ \<Rightarrow> buffer = replicate (length c) 0 | Inr _ \<Rightarrow> siv_encrypt key nonce aad buffer = (c, tag))"
proof (cases "fits c aad")
  case False
  then obtain e where "check_lengths (length c) (length aad) = Inl e"
    by (cases "check_lengths (length c) (length aad)") (auto simp: check_lengths_cases)
  then show ?thesis by (simp add: decrypt_in_place_detached_def wiped_def)
next
  case True
  from two_allocations [of E k "length c"] show ?thesis
  proof cases
    case (granted k1 k2)
    then show ?thesis
      using decrypt_in_place_ok [OF assms(1,2) True assms(3), of k k1 k2]
      by (cases "siv_decrypt key nonce aad c tag") (auto simp: wiped_def siv_encrypt_decrypt)
  next
    case (first k1)
    then show ?thesis by (simp add: decrypt_in_place_detached_def check_lengths_fits [OF True] wiped_def)
  next
    case (second k1 k2)
    then show ?thesis by (simp add: decrypt_in_place_detached_def check_lengths_fits [OF True] wiped_def)
  qed
qed

lemma in_place_decryption_fails_closed_witness:
  "\<exists>r buffer res k'. decrypt_in_place_detached (strict_env True True True (\<lambda>k n. k < 1)) 0 (replicate 32 1) (replicate 24 2) [9]
        [1, 2] (replicate 65 0) = Some (r, buffer, res, k') \<and> clean res
    \<and> (case r of Inl _ \<Rightarrow> buffer = replicate (length [1 :: u8, 2]) 0
       | Inr _ \<Rightarrow> siv_encrypt (replicate 32 1) (replicate 24 2) [9] buffer = ([1, 2], replicate 65 0))"
  by (rule in_place_decryption_fails_closed) (simp_all add: sized_def)

text \<open>C4. \<open>encrypt\<close> on every input and with every allocator: it returns, leaves nothing of the
  derived keys behind, refuses an over-long message before an over-long associated data and both
  before asking for memory, reports a refused allocation as such, and under \<open>ultra\<close> never rejects
  its own tag.\<close>

theorem encrypt_outcome:
  assumes "env_ok E" and "sized key nonce"
  shows "\<exists>res k'. encrypt E k key nonce aad msg = Some
      (if MAX_MSG_SIZE < length msg then Inl MessageTooLong
       else if MAX_MSG_SIZE < length aad then Inl AadTooLong
       else if fst (alloc_zeroed E k (length msg)) = Inl AllocationFailed then Inl AllocationFailed
       else Inr (siv_encrypt key nonce aad msg), res, k') \<and> clean res"
proof (cases "fits msg aad")
  case False
  then show ?thesis using encrypt_too_long [OF False] by (auto simp: fits_def)
next
  case True
  then have f: "\<not> MAX_MSG_SIZE < length msg" "\<not> MAX_MSG_SIZE < length aad" by (simp_all add: fits_def)
  show ?thesis
  proof (rule alloc_zeroed_cases [of E k "length msg"])
    fix k1 assume "alloc_zeroed E k (length msg) = (Inr (replicate (length msg) 0), k1)"
    then show ?thesis using encrypt_ok [OF assms True] f by simp
  next
    fix k1 assume "alloc_zeroed E k (length msg) = (Inl AllocationFailed, k1)"
    then show ?thesis using encrypt_no_memory [OF True] f by simp
  qed
qed

lemma encrypt_outcome_witness:
  "\<exists>res k'. encrypt (strict_env True True True (\<lambda>k n. False)) 0 (replicate 32 1) (replicate 24 2) [9] [1, 2] = Some
      (if MAX_MSG_SIZE < length [1 :: u8, 2] then Inl MessageTooLong
       else if MAX_MSG_SIZE < length [9 :: u8] then Inl AadTooLong
       else if fst (alloc_zeroed (strict_env True True True (\<lambda>k n. False)) 0 (length [1 :: u8, 2])) = Inl AllocationFailed
         then Inl AllocationFailed
       else Inr (siv_encrypt (replicate 32 1) (replicate 24 2) [9] [1, 2]), res, k') \<and> clean res"
  by (rule encrypt_outcome) (simp_all add: sized_def)

text \<open>The requests \<open>decrypt\<close> makes: the plaintext buffer and, with \<open>ultra\<close>, the witness's after it.\<close>

definition decrypt_refused :: "siv_env \<Rightarrow> nat \<Rightarrow> nat \<Rightarrow> bool" where
  "decrypt_refused E k n \<longleftrightarrow>
     (case alloc_zeroed E k n of
        (Inl _, _) \<Rightarrow> True
      | (Inr _, k') \<Rightarrow> ultra E \<and> fst (alloc_zeroed E k' n) = Inl AllocationFailed)"

text \<open>C5. \<open>decrypt\<close> on every input and with every allocator: it returns, leaves clean buffers, and its result is
  determined.  An over-long ciphertext is reported first, then an over-long associated data; then
  \<open>AllocationFailed\<close>, exactly if the allocator refuses the plaintext buffer or, in the \<open>ultra\<close> build, the
  second one; otherwise it is the result of the specification: the message, or \<open>AuthenticationFailed\<close>.\<close>

theorem decrypt_outcome:
  assumes "env_ok E" and "sized key nonce" and "length tag = 65"
  shows "\<exists>res k'. decrypt E k key nonce aad c tag = Some
      (if MAX_MSG_SIZE < length c then Inl MessageTooLong
       else if MAX_MSG_SIZE < length aad then Inl AadTooLong
       else if decrypt_refused E k (length c) then Inl AllocationFailed
       else (case siv_decrypt key nonce aad c tag of None \<Rightarrow> Inl AuthenticationFailed | Some m \<Rightarrow> Inr m), res, k')
    \<and> clean res"
proof (cases "fits c aad")
  case False
  then show ?thesis by (auto simp: decrypt_def check_lengths_def fits_def)
next
  case True
  then have f: "\<not> MAX_MSG_SIZE < length c" "\<not> MAX_MSG_SIZE < length aad" by (simp_all add: fits_def)
  show ?thesis
  proof (rule alloc_zeroed_cases [of E k "length c"])
    fix k1 assume a: "alloc_zeroed E k (length c) = (Inr (replicate (length c) 0), k1)"
    consider (granted) k2 where "ultra E \<Longrightarrow> alloc_zeroed E k1 (length c) = (Inr (replicate (length c) 0), k2)"
      | (refused) k2 where "ultra E" "alloc_zeroed E k1 (length c) = (Inl AllocationFailed, k2)"
      by (metis alloc_zeroed_cases)
    then show ?thesis
    proof cases
      case granted
      then have "\<not> decrypt_refused E k (length c)" by (auto simp: decrypt_refused_def a)
      then show ?thesis using decrypt_ok [OF assms(1,2) True assms(3) a granted] f by simp
    next
      case refused
      then have "decrypt_refused E k (length c)" by (simp add: decrypt_refused_def a)
      then show ?thesis using f a refused by (simp add: decrypt_def check_lengths_fits [OF True])
    qed
  next
    fix k1 assume a: "alloc_zeroed E k (length c) = (Inl AllocationFailed, k1)"
    then have "decrypt_refused E k (length c)" by (simp add: decrypt_refused_def)
    then show ?thesis using f a by (simp add: decrypt_def check_lengths_fits [OF True])
  qed
qed

lemma decrypt_outcome_witness:
  "\<exists>res k'. decrypt (strict_env True False True (\<lambda>k n. k < 1)) 0 (replicate 32 1) (replicate 24 2) [] [1] (replicate 65 7) = Some
      (if MAX_MSG_SIZE < length [1 :: u8] then Inl MessageTooLong
       else if MAX_MSG_SIZE < length ([] :: bytes) then Inl AadTooLong
       else if decrypt_refused (strict_env True False True (\<lambda>k n. k < 1)) 0 (length [1 :: u8]) then Inl AllocationFailed
       else (case siv_decrypt (replicate 32 1) (replicate 24 2) [] [1] (replicate 65 7) of
          None \<Rightarrow> Inl AuthenticationFailed | Some m \<Rightarrow> Inr m), res, k')
    \<and> clean res"
  by (rule decrypt_outcome) (simp_all add: sized_def)

text \<open>C17. \<open>decrypt_bounded\<close> works in bounded memory: with an allocator that grants only requests
  of at most \<open>max_len\<close> bytes (two of them, and refuses the rest), it never fails for lack of memory;
  a longer ciphertext is refused with no request made, a shorter one decrypts as by \<open>decrypt\<close>.\<close>

theorem bounded_decryption_in_bounded_memory:
  assumes "env_ok E" and "sized key nonce" and "length tag = 65" and "length aad \<le> MAX_MSG_SIZE"
    and "max_len \<le> MAX_MSG_SIZE" and "\<forall>j n. j \<le> k + 1 \<and> n \<le> max_len \<longrightarrow> siv_alloc E j n"
  shows "\<exists>res k'. decrypt_bounded E k key nonce aad c tag max_len = Some
      (if max_len < length c then Inl MessageTooLong
       else case siv_decrypt key nonce aad c tag of None \<Rightarrow> Inl AuthenticationFailed | Some m \<Rightarrow> Inr m, res, k')
    \<and> clean res \<and> (max_len < length c \<longrightarrow> k' = k)"
proof (cases "max_len < length c")
  case True
  then show ?thesis by (simp add: decrypt_bounded_def)
next
  case False
  then have f: "fits c aad" using assms(4,5) by (simp add: fits_def)
  have "length c \<le> isize_max" using False assms(5) by (simp add: MAX_MSG_SIZE_def isize_max_def)
  then have granted: "\<exists>j'. alloc_zeroed E j (length c) = (Inr (replicate (length c) 0), j') \<and> j' \<le> j + 1" if "j \<le> k + 1" for j
    using that assms(6) False by (simp add: alloc_zeroed_def try_reserve_exact_def)
  obtain k1 where k1: "alloc_zeroed E k (length c) = (Inr (replicate (length c) 0), k1)" "k1 \<le> k + 1"
    using granted [of k] by auto
  obtain k2 where k2: "alloc_zeroed E k1 (length c) = (Inr (replicate (length c) 0), k2)"
    using granted [OF k1(2)] by auto
  show ?thesis
    using decrypt_ok [OF assms(1,2) f assms(3) k1(1) k2] False by (simp add: decrypt_bounded_def)
qed

lemma bounded_decryption_in_bounded_memory_witness:
  "\<exists>res k'. decrypt_bounded (strict_env True True True (\<lambda>k n. k < 2 \<and> n \<le> 4)) 0 (replicate 32 1) (replicate 24 2) []
        (replicate 3 5) (replicate 65 7) 4 = Some
      (if 4 < length (replicate 3 (5 :: u8)) then Inl MessageTooLong
       else case siv_decrypt (replicate 32 1) (replicate 24 2) [] (replicate 3 5) (replicate 65 7) of
         None \<Rightarrow> Inl AuthenticationFailed | Some m \<Rightarrow> Inr m, res, k')
    \<and> clean res \<and> (4 < length (replicate 3 (5 :: u8)) \<longrightarrow> k' = 0)"
  by (rule bounded_decryption_in_bounded_memory) (simp_all add: sized_def MAX_MSG_SIZE_def)

subsection \<open>The tag\<close>

text \<open>C14. The tag does not depend on how its input is fed to the hash: in the concatenation window or
  outside it, with the buffer granted or refused, on any platform, the 65 bytes are those of the
  two-level construction, and the buffers are clean.\<close>

theorem tag_independent_of_feeding:
  assumes "env_ok E" and "length k_in = 32" and "length k_out = 32" and "length nonce = 24" and "fits msg aad"
  shows "\<exists>res k'. derive_tag E k k_in k_out nonce aad msg = Some (spec_tag k_in k_out nonce aad msg, res, k') \<and> clean res"
  using assms fits_small [OF assms(5)] by (intro derive_tag_ok)

lemma tag_independent_of_feeding_witness:
  "\<exists>res k'. derive_tag (strict_env True True True (\<lambda>k n. False)) 0 (replicate 32 1) (replicate 32 2) (replicate 24 3) []
      (replicate 5000 4) = Some (spec_tag (replicate 32 1) (replicate 32 2) (replicate 24 3) [] (replicate 5000 4), res, k') \<and> clean res"
  by (rule tag_independent_of_feeding) (simp_all add: fits_def MAX_MSG_SIZE_def)

text \<open>C15. The input of the inner hash determines the nonce, the associated data and the message: no
  two triples share an encoding, in particular not by moving bytes between associated data and
  message.\<close>

theorem inner_input_is_injective:
  assumes "length nonce = 24" and "length nonce' = 24" and "fits msg aad" and "fits msg' aad'"
    and "concat [tag_head nonce aad msg, aad, msg] = concat [tag_head nonce' aad' msg', aad', msg']"
  shows "nonce = nonce' \<and> aad = aad' \<and> msg = msg'"
proof -
  have e: "spec_head nonce aad msg = spec_head nonce' aad' msg'"
    using assms(5) by (simp only: tag_head_eq [OF assms(1)] tag_head_eq [OF assms(2)])
  then have n: "nonce = nonce'" "u64_bytes (of_nat (length aad)) = u64_bytes (of_nat (length aad') :: u64)"
    "aad @ msg = aad' @ msg'"
    using assms(1,2) by (simp_all add: spec_head_def)
  have "length aad < 2 ^ 64" "length aad' < 2 ^ 64"
    using assms(3,4) by (simp_all add: fits_def MAX_MSG_SIZE_def)
  then have "length aad = length aad'" using n(2) by (metis u64_bytes_inject u64_of_nat_unat)
  then show ?thesis using n by simp
qed

lemma inner_input_is_injective_witness:
  "replicate 24 0 = (replicate 24 0 :: bytes) \<and> [1] = ([1] :: bytes) \<and> [2, 3] = ([2, 3] :: bytes)"
  by (rule inner_input_is_injective) (simp_all add: fits_def MAX_MSG_SIZE_def)

text \<open>The length limit is exactly the range of the ChaCha20 block counter: within one message of
  the largest size two bytes share a counter value only when they are in the same block, and the
  limit is the whole 2^32 blocks.\<close>

theorem keystream_block_never_reused:
  assumes "n \<le> MAX_MSG_SIZE" and "i < n" and "j < n"
  shows "((of_nat (i div CHACHA20_BLOCK) :: u32) = of_nat (j div CHACHA20_BLOCK)
      \<longleftrightarrow> i div CHACHA20_BLOCK = j div CHACHA20_BLOCK)
    \<and> chacha20_stream key 0 nonce n ! i
        = chacha20_block_into key (of_nat (i div CHACHA20_BLOCK)) nonce ! (i mod CHACHA20_BLOCK)
    \<and> MAX_MSG_SIZE = CHACHA20_BLOCK * 2 ^ LENGTH(32)"
proof -
  have small: "m div 64 < 2 ^ 32" if "m < n" for m
    using that assms(1) by (intro less_mult_imp_div_less) (simp add: MAX_MSG_SIZE_def)
  have "unat (of_nat (m div 64) :: u32) = m div 64" if "m < n" for m
    using small [OF that] by (simp only: unat_of_nat take_bit_nat_eq_self_iff) simp
  then have "(of_nat (i div 64) :: u32) = of_nat (j div 64) \<longleftrightarrow> i div 64 = j div 64"
    using assms(2,3) by metis
  then show ?thesis
    using assms(2) by (simp add: CHACHA20_BLOCK_def MAX_MSG_SIZE_def chacha20_stream_def nth_block_stream ks_byte_def)
qed

lemma keystream_block_never_reused_witness:
  "((of_nat (0 div CHACHA20_BLOCK) :: u32) = of_nat ((2 ^ 38 - 1) div CHACHA20_BLOCK)
      \<longleftrightarrow> 0 div CHACHA20_BLOCK = (2 ^ 38 - 1 :: nat) div CHACHA20_BLOCK)
    \<and> chacha20_stream (replicate 32 1) 0 (replicate 12 2) (2 ^ 38) ! 0
        = chacha20_block_into (replicate 32 1) (of_nat (0 div CHACHA20_BLOCK)) (replicate 12 2) ! (0 mod CHACHA20_BLOCK)
    \<and> MAX_MSG_SIZE = CHACHA20_BLOCK * 2 ^ LENGTH(32)"
  by (rule keystream_block_never_reused) (simp_all add: MAX_MSG_SIZE_def)

subsection \<open>The witness and the gates\<close>

text \<open>C7. The independent implementation agrees with the main path bit for bit on every input: it
  recovers the plaintext the main path recovers and computes the tag the main path computes, so the
  cross-check of the \<open>ultra\<close> build cannot reject a correct computation.\<close>

theorem witness_agrees_with_main_path:
  assumes "env_ok E" and "sized key nonce" and "fits c aad" and "length tag = 65"
  shows "do { ((wt, wp), _) \<leftarrow> w_decrypt key nonce aad c tag (replicate (length c) 0); Some (wt, wp) }
    = do { ((k_in, k_out, enc_seed), _) \<leftarrow> derive_material E key nonce;
           ((enc_key, enc_nonce), _) \<leftarrow> derive_enc E enc_seed tag;
           pt \<leftarrow> chacha20_keystream (siv_target E) enc_key 0 enc_nonce c (replicate (length c) 0);
           (t, _) \<leftarrow> derive_tag E k k_in k_out nonce aad pt;
           Some (t, pt) }"
proof -
  note small = fits_small [OF assms(3)]
  obtain k_in k_out enc_seed r1 where m: "spec_material key nonce = (k_in, k_out, enc_seed)"
    "derive_material E key nonce = Some ((k_in, k_out, enc_seed), r1)" "clean r1"
    "length k_in = 32" "length k_out = 32" "length enc_seed = 32"
    using derivations [OF assms(1,2)] .
  obtain enc_key enc_nonce where e: "spec_enc enc_seed tag = (enc_key, enc_nonce)" by (metis prod.exhaust)
  obtain r2 where d: "derive_enc E enc_seed tag = Some ((enc_key, enc_nonce), r2)"
    using derive_enc_ok [OF assms(1) m(6) assms(4)] by (auto simp: e)
  let ?pt = "siv_apply key nonce tag c"
  have ks: "chacha20_keystream (siv_target E) enc_key 0 enc_nonce c (replicate (length c) 0) = Some ?pt"
    using spec_lengths(2) [OF e] by (simp add: chacha20_keystream_correct siv_apply_eq [OF m(1) e])
  obtain r3 k' where t: "derive_tag E k k_in k_out nonce aad ?pt = Some (siv_tag key nonce aad ?pt, r3, k')"
    using derive_tag_ok [OF assms(1) m(4,5), of nonce aad ?pt k] small assms(2) siv_tag_eq [OF m(1)]
    by (auto simp: sized_def)
  show ?thesis
    unfolding m(2) bind.bind_lunit prod.case d ks t
    using w_decrypt_ok [OF assms(2) small assms(4), of "replicate (length c) 0"] by auto
qed

lemma witness_agrees_with_main_path_witness:
  "do { ((wt, wp), _) \<leftarrow> w_decrypt (replicate 32 1) (replicate 24 2) [9] [4, 5] (replicate 65 6) (replicate (length [4 :: u8, 5]) 0);
        Some (wt, wp) }
    = do { ((k_in, k_out, enc_seed), _) \<leftarrow> derive_material (strict_env True True True (\<lambda>k n. True)) (replicate 32 1) (replicate 24 2);
           ((enc_key, enc_nonce), _) \<leftarrow> derive_enc (strict_env True True True (\<lambda>k n. True)) enc_seed (replicate 65 6);
           pt \<leftarrow> chacha20_keystream (siv_target (strict_env True True True (\<lambda>k n. True))) enc_key 0 enc_nonce [4, 5]
             (replicate (length [4 :: u8, 5]) 0);
           (t, _) \<leftarrow> derive_tag (strict_env True True True (\<lambda>k n. True)) 0 k_in k_out (replicate 24 2) [9] pt;
           Some (t, pt) }"
  by (rule witness_agrees_with_main_path) (simp_all add: sized_def fits_def MAX_MSG_SIZE_def)

end
